(* ===== verification/Prelude.thy ===== *)
theory Prelude
  imports Main "HOL-Library.Word"
begin

text \<open>
  Shared vocabulary of the development: the machine integers of the Rust sources as words,
  the three ways a Rust function can come back (a value, an \<open>Err\<close>, a panic), byte strings with
  their big- and little-endian integer encodings, and three generic interfaces used by several
  components: a loop that decodes a sequence of items, a step function with an invariant, and
  a fixed-width codec.
\<close>

section \<open>Collections of facts\<close>

named_theorems outcome_simps \<open>case analysis of outcomes\<close>
named_theorems byte_simps \<open>lengths and round trips of integer encodings\<close>
named_theorems byte_eval \<open>equations that evaluate integer encodings on numerals\<close>

section \<open>Machine integers\<close>

type_synonym byte = "8 word"
type_synonym u8 = "8 word"
type_synonym u16 = "16 word"
type_synonym u32 = "32 word"
type_synonym u64 = "64 word"
type_synonym u128 = "128 word"

section \<open>Outcomes: value, error, panic\<close>

text \<open>
  \<open>Ok\<close> and \<open>Err\<close> are the constructors of Rust's \<open>Result\<close>; \<open>Panic\<close> is the third way out of a
  call (an out-of-range slice, a failed assertion, an \<open>unwrap\<close> of nothing).
\<close>

datatype ('e, 'a) outcome = Ok 'a | Err 'e | Panic

fun obind :: "('e, 'a) outcome \<Rightarrow> ('a \<Rightarrow> ('e, 'b) outcome) \<Rightarrow> ('e, 'b) outcome" where
  "obind (Ok x) f = f x"
| "obind (Err e) f = Err e"
| "obind Panic f = Panic"

fun omap_err :: "('e \<Rightarrow> 'f) \<Rightarrow> ('e, 'a) outcome \<Rightarrow> ('f, 'a) outcome" where
  "omap_err g (Ok x) = Ok x"
| "omap_err g (Err e) = Err (g e)"
| "omap_err g Panic = Panic"

definition ok_or :: "'e \<Rightarrow> 'a option \<Rightarrow> ('e, 'a) outcome" where
  "ok_or e x = (case x of None \<Rightarrow> Err e | Some v \<Rightarrow> Ok v)"

definition is_ok :: "('e, 'a) outcome \<Rightarrow> bool" where
  "is_ok r = (case r of Ok _ \<Rightarrow> True | _ \<Rightarrow> False)"

lemma obind_eq_Ok [outcome_simps]:
  "obind r f = Ok y \<longleftrightarrow> (\<exists>x. r = Ok x \<and> f x = Ok y)"
  by (cases r) auto

lemma obind_eq_Err [outcome_simps]:
  "obind r f = Err e \<longleftrightarrow> r = Err e \<or> (\<exists>x. r = Ok x \<and> f x = Err e)"
  by (cases r) auto

lemma obind_eq_Panic [outcome_simps]:
  "obind r f = Panic \<longleftrightarrow> r = Panic \<or> (\<exists>x. r = Ok x \<and> f x = Panic)"
  by (cases r) auto

lemma obind_assoc: "obind (obind r f) g = obind r (\<lambda>x. obind (f x) g)"
  by (cases r) auto

lemma omap_err_eq_Ok [outcome_simps]: "omap_err g r = Ok y \<longleftrightarrow> r = Ok y"
  by (cases r) auto

lemma omap_err_eq_Err [outcome_simps]: "omap_err g r = Err e \<longleftrightarrow> (\<exists>d. r = Err d \<and> e = g d)"
  by (cases r) auto

lemma omap_err_eq_Panic [outcome_simps]: "omap_err g r = Panic \<longleftrightarrow> r = Panic"
  by (cases r) auto

lemma ok_or_simps [simp]: "ok_or e None = Err e" "ok_or e (Some v) = Ok v"
  by (simp_all add: ok_or_def)

lemma ok_or_eq_Ok [outcome_simps]: "ok_or e x = Ok v \<longleftrightarrow> x = Some v"
  by (cases x) auto

lemma ok_or_not_Panic [simp]: "ok_or e x \<noteq> Panic"
  by (cases x) auto

lemma is_ok_simps [simp]: "is_ok (Ok x)" "\<not> is_ok (Err e)" "\<not> is_ok Panic"
  by (simp_all add: is_ok_def)

section \<open>Integers as byte strings\<close>

text \<open>
  \<open>to_le n x\<close> are the \<open>n\<close> low bytes of \<open>x\<close>, least significant first (\<open>to_le_bytes\<close>), \<open>to_be\<close> the
  same bytes most significant first (\<open>to_be_bytes\<close>); \<open>of_le\<close> and \<open>of_be\<close> read them back.
\<close>

fun to_le :: "nat \<Rightarrow> nat \<Rightarrow> byte list" where
  "to_le 0 x = []"
| "to_le (Suc n) x = word_of_nat x # to_le n (x div 256)"

fun of_le :: "byte list \<Rightarrow> nat" where
  "of_le [] = 0"
| "of_le (b # bs) = unat b + 256 * of_le bs"

definition to_be :: "nat \<Rightarrow> nat \<Rightarrow> byte list" where
  "to_be n x = rev (to_le n x)"

definition of_be :: "byte list \<Rightarrow> nat" where
  "of_be bs = of_le (rev bs)"

lemma length_to_le [simp]: "length (to_le n x) = n"
  by (induction n arbitrary: x) auto

lemma length_to_be [simp]: "length (to_be n x) = n"
  by (simp add: to_be_def)

lemma unat_byte_less [simp]: "unat (b :: byte) < 256"
  using unsigned_less [of b, where ?'a = nat] by simp

lemma of_le_less: "of_le bs < 256 ^ length bs"
proof (induction bs)
  case (Cons b bs)
  have "of_le bs + 1 \<le> 256 ^ length bs" using Cons.IH by simp
  then have "256 * (of_le bs + 1) \<le> 256 * 256 ^ length bs" by (rule mult_le_mono2)
  then show ?case using unat_byte_less [of b] by (simp del: unat_byte_less)
qed simp

lemma of_be_less: "of_be bs < 256 ^ length bs"
  using of_le_less [of "rev bs"] by (simp add: of_be_def)

lemma unat_byte_of_nat: "unat (word_of_nat x :: byte) = x mod 256"
  by (simp add: unat_of_nat)

lemma of_le_to_le [byte_simps]: "of_le (to_le n x) = x mod 256 ^ n"
proof (induction n arbitrary: x)
  case (Suc n)
  then show ?case
    by (simp add: unat_byte_of_nat mod_mult2_eq [of x 256 "256 ^ n"])
qed simp

lemma of_be_to_be [byte_simps]: "of_be (to_be n x) = x mod 256 ^ n"
  by (simp add: of_be_def to_be_def of_le_to_le)

lemma to_le_of_le [byte_simps]: "to_le (length bs) (of_le bs) = bs"
proof (induction bs)
  case (Cons b bs)
  have "(unat b + 256 * of_le bs) div 256 = of_le bs"
    using unat_byte_less [of b] by simp
  moreover have "word_of_nat (unat b + 256 * of_le bs) = b"
  proof -
    have "(256 :: byte) = 0" by simp
    then show ?thesis by (simp only: of_nat_add of_nat_mult of_nat_numeral) simp
  qed
  ultimately show ?case using Cons.IH by simp
qed simp

lemma to_be_of_be [byte_simps]: "to_be (length bs) (of_be bs) = bs"
  using to_le_of_le [of "rev bs"] by (simp add: to_be_def of_be_def)

lemma to_be_of_be' [byte_simps]: "length bs = n \<Longrightarrow> to_be n (of_be bs) = bs"
  using to_be_of_be by blast

lemma to_le_numeral [byte_eval]:
  "to_le (numeral k) x = word_of_nat x # to_le (pred_numeral k) (x div 256)"
  by (simp add: numeral_eq_Suc [of k])

lemma of_le_append: "of_le (xs @ ys) = of_le xs + 256 ^ length xs * of_le ys"
  by (induction xs) (simp_all add: algebra_simps)

lemma of_be_append: "of_be (xs @ ys) = of_be xs * 256 ^ length ys + of_be ys"
  by (simp add: of_be_def of_le_append algebra_simps)

lemma of_be_simps [byte_eval]:
  "of_be [] = 0"
  "of_be (b # bs) = unat b * 256 ^ length bs + of_be bs"
  using of_be_append [of "[b]" bs] by (simp_all add: of_be_def [of "[]"] of_be_def [of "[b]"])

lemma to_le_zero: "to_le n 0 = replicate n 0"
  by (induction n) auto

lemma to_be_zero: "to_be n 0 = replicate n 0"
  by (simp add: to_be_def to_le_zero)

lemma to_le_add: "to_le (m + n) x = to_le m x @ to_le n (x div 256 ^ m)"
  by (induction m arbitrary: x) (simp_all add: div_mult2_eq)

lemma to_le_mod: "to_le n (x mod 256 ^ n) = to_le n x"
  using to_le_of_le [of "to_le n x"] by (simp add: of_le_to_le)

lemmas to_be_eval [byte_eval] = to_be_def

lemma of_be_replicate [byte_eval]: "of_be (replicate n 0) = 0"
  using of_be_to_be [of n 0] by (simp add: to_be_zero)

text \<open>The four widths the wire formats use.\<close>

definition be16 :: "u16 \<Rightarrow> byte list" where "be16 w = to_be 2 (unat w)"
definition be32 :: "u32 \<Rightarrow> byte list" where "be32 w = to_be 4 (unat w)"
definition be64 :: "u64 \<Rightarrow> byte list" where "be64 w = to_be 8 (unat w)"
definition be128 :: "u128 \<Rightarrow> byte list" where "be128 w = to_be 16 (unat w)"
definition le64 :: "u64 \<Rightarrow> byte list" where "le64 w = to_le 8 (unat w)"

definition get16 :: "byte list \<Rightarrow> u16" where "get16 bs = word_of_nat (of_be bs)"
definition get32 :: "byte list \<Rightarrow> u32" where "get32 bs = word_of_nat (of_be bs)"
definition get64 :: "byte list \<Rightarrow> u64" where "get64 bs = word_of_nat (of_be bs)"
definition get128 :: "byte list \<Rightarrow> u128" where "get128 bs = word_of_nat (of_be bs)"
definition getle64 :: "byte list \<Rightarrow> u64" where "getle64 bs = word_of_nat (of_le bs)"

lemma length_be [simp]:
  "length (be16 a) = 2" "length (be32 b) = 4" "length (be64 c) = 8" "length (be128 d) = 16"
  "length (le64 c) = 8"
  by (simp_all add: be16_def be32_def be64_def be128_def le64_def)

lemma word_of_nat_unat_mod:
  fixes w :: "'a :: len word"
  assumes "LENGTH('a) = 8 * n"
  shows "word_of_nat (unat w mod 256 ^ n) = w"
proof -
  have "(256 :: nat) ^ n = 2 ^ LENGTH('a)"
    by (simp add: assms power_mult)
  then show ?thesis
    using unsigned_less [of w, where ?'a = nat] by simp
qed

lemma get16_be16 [simp]: "get16 (be16 a) = a"
  unfolding get16_def be16_def of_be_to_be by (rule word_of_nat_unat_mod) simp

lemma get32_be32 [simp]: "get32 (be32 a) = a"
  unfolding get32_def be32_def of_be_to_be by (rule word_of_nat_unat_mod) simp

lemma get64_be64 [simp]: "get64 (be64 a) = a"
  unfolding get64_def be64_def of_be_to_be by (rule word_of_nat_unat_mod) simp

lemma get128_be128 [simp]: "get128 (be128 a) = a"
  unfolding get128_def be128_def of_be_to_be by (rule word_of_nat_unat_mod) simp

lemma getle64_le64 [simp]: "getle64 (le64 a) = a"
  unfolding getle64_def le64_def of_le_to_le by (rule word_of_nat_unat_mod) simp

lemma unat_word_of_nat_of_be:
  assumes "LENGTH('a :: len) = 8 * n" and "length bs = n"
  shows "unat (word_of_nat (of_be bs) :: 'a word) = of_be bs"
proof -
  have "(256 :: nat) ^ n = 2 ^ LENGTH('a)"
    by (simp add: assms power_mult)
  then have "of_be bs < 2 ^ LENGTH('a)"
    using of_be_less [of bs] assms(2) by simp
  then show ?thesis by (simp add: unat_of_nat)
qed

lemma be_get16: "length bs = 2 \<Longrightarrow> be16 (get16 bs) = bs"
  by (simp add: get16_def be16_def unat_word_of_nat_of_be [of 2] to_be_of_be')

lemma be_get32: "length bs = 4 \<Longrightarrow> be32 (get32 bs) = bs"
  by (simp add: get32_def be32_def unat_word_of_nat_of_be [of 4] to_be_of_be')

lemma be_get64: "length bs = 8 \<Longrightarrow> be64 (get64 bs) = bs"
  by (simp add: get64_def be64_def unat_word_of_nat_of_be [of 8] to_be_of_be')

lemma be_get128: "length bs = 16 \<Longrightarrow> be128 (get128 bs) = bs"
  by (simp add: get128_def be128_def unat_word_of_nat_of_be [of 16] to_be_of_be')

lemma be16_inject [simp]: "be16 a = be16 b \<longleftrightarrow> a = b"
  using get16_be16 [of a] get16_be16 [of b] by metis

lemma be32_inject [simp]: "be32 a = be32 b \<longleftrightarrow> a = b"
  using get32_be32 [of a] get32_be32 [of b] by metis

lemma be64_inject [simp]: "be64 a = be64 b \<longleftrightarrow> a = b"
  using get64_be64 [of a] get64_be64 [of b] by metis

lemma be128_inject [simp]: "be128 a = be128 b \<longleftrightarrow> a = b"
  using get128_be128 [of a] get128_be128 [of b] by metis

lemmas be_eval [byte_eval] =
  be16_def be32_def be64_def be128_def get16_def get32_def get64_def get128_def

section \<open>Slices\<close>

text \<open>\<open>slice a b xs\<close> is the Rust slice \<open>xs[a..b]\<close> where it is in range; a reader of the model checks
  the range first wherever the source can leave it.\<close>

definition slice :: "nat \<Rightarrow> nat \<Rightarrow> 'a list \<Rightarrow> 'a list" where
  "slice a b xs = take (b - a) (drop a xs)"

lemma length_slice [simp]: "b \<le> length xs \<Longrightarrow> length (slice a b xs) = b - a"
  by (simp add: slice_def)

lemma slice_append_left: "b \<le> length xs \<Longrightarrow> slice a b (xs @ ys) = slice a b xs"
  by (auto simp: slice_def)

lemma slice_append_right:
  "length xs \<le> a \<Longrightarrow> slice a b (xs @ ys) = slice (a - length xs) (b - length xs) ys"
  by (simp add: slice_def)

lemma slice_prefix: "length xs = b \<Longrightarrow> slice 0 b (xs @ ys) = xs"
  by (simp add: slice_def)

lemma slice_all: "length xs = b \<Longrightarrow> slice 0 b xs = xs"
  by (simp add: slice_def)

lemma slice_join: "a \<le> b \<Longrightarrow> b \<le> c \<Longrightarrow> slice a b xs @ slice b c xs = slice a c xs"
  using take_add [of "b - a" "c - b" "drop a xs"] by (simp add: slice_def)

text \<open>\<open>get_range a b xs\<close> is \<open>xs.get(a..b)\<close>: \<open>None\<close> out of range.\<close>

definition get_range :: "nat \<Rightarrow> nat \<Rightarrow> 'a list \<Rightarrow> 'a list option" where
  "get_range a b xs = (if a \<le> b \<and> b \<le> length xs then Some (slice a b xs) else None)"

definition get_at :: "nat \<Rightarrow> 'a list \<Rightarrow> 'a option" where
  "get_at i xs = (if i < length xs then Some (xs ! i) else None)"

section \<open>Interfaces\<close>

text \<open>
  A loop that consumes a byte string item by item until it is empty, as the decoders of NLRI
  lists, path segments and capabilities do. A writer that emits the items one after the other
  is inverted by the loop on every list of well-formed items.
\<close>

locale item_loop =
  fixes item_enc :: "'a \<Rightarrow> byte list"
    and item_ok :: "'a \<Rightarrow> bool"
    and loop :: "byte list \<Rightarrow> ('e, 'a list) outcome"
  assumes loop_nil: "loop [] = Ok []"
    and loop_item: "item_ok x \<Longrightarrow> loop rest = Ok xs \<Longrightarrow> loop (item_enc x @ rest) = Ok (x # xs)"
begin

lemma loop_items: "list_all item_ok xs \<Longrightarrow> loop (concat (map item_enc xs)) = Ok xs"
  by (induction xs) (simp_all add: loop_nil loop_item)

lemma items_inject:
  assumes "list_all item_ok xs" "list_all item_ok ys"
    and "concat (map item_enc xs) = concat (map item_enc ys)"
  shows "xs = ys"
proof -
  have "Ok xs = (Ok ys :: ('e, 'a list) outcome)"
    unfolding loop_items [OF assms(1), symmetric] loop_items [OF assms(2), symmetric] assms(3) ..
  then show ?thesis by simp
qed

end

text \<open>A state, a step function and an invariant the steps keep; runs of steps keep it too.\<close>

locale invariant_machine =
  fixes step :: "'s \<Rightarrow> 'i \<Rightarrow> 's"
    and inv :: "'s \<Rightarrow> bool"
    and guard :: "'s \<Rightarrow> 'i \<Rightarrow> bool"
  assumes step_inv: "inv s \<Longrightarrow> guard s i \<Longrightarrow> inv (step s i)"
begin

fun guarded :: "'s \<Rightarrow> 'i list \<Rightarrow> bool" where
  "guarded s [] = True"
| "guarded s (i # is) = (guard s i \<and> guarded (step s i) is)"

lemma run_inv: "inv s \<Longrightarrow> guarded s is \<Longrightarrow> inv (foldl step s is)"
  by (induction "is" arbitrary: s) (simp_all add: step_inv)

lemma run_inv_unguarded: "inv s \<Longrightarrow> (\<And>t i. guard t i) \<Longrightarrow> inv (foldl step s is)"
  by (induction "is" arbitrary: s) (simp_all add: step_inv)

end

text \<open>A record with a fixed-width binary form: decoding an encoding, followed by anything, gives
  the record back, and decoding fails on every shorter input.\<close>

locale fixed_codec =
  fixes enc :: "'a \<Rightarrow> byte list"
    and dec :: "byte list \<Rightarrow> 'a option"
    and width :: nat
    and wf :: "'a \<Rightarrow> bool"
  assumes enc_length: "wf x \<Longrightarrow> length (enc x) = width"
    and dec_enc: "wf x \<Longrightarrow> dec (enc x @ rest) = Some x"
    and dec_short: "length bs < width \<Longrightarrow> dec bs = None"
    and enc_dec: "dec bs = Some x \<Longrightarrow> wf x \<and> enc x = take width bs"
begin

lemma dec_enc_exact: "wf x \<Longrightarrow> dec (enc x) = Some x"
  using dec_enc [of x "[]"] by simp

lemma enc_inject: "wf x \<Longrightarrow> wf y \<Longrightarrow> enc x = enc y \<longleftrightarrow> x = y"
  by (metis dec_enc_exact option.inject)

end

end
