(* ===== verification/Net_Addr.thy ===== *)
theory Net_Addr
  imports Prelude
begin

text \<open>
  The part of Rust's \<open>std\<close> that the prefix and address code calls: \<open>IpAddr\<close> with its octets, the
  textual parser of \<open>std::net\<close> (\<open>str::parse::<IpAddr>\<close>), its \<open>Display\<close> output, \<open>u8::from_str\<close> and
  \<open>str::split_once\<close>. Characters are bytes. The main result is that parsing inverts printing for
  every IPv4 and every IPv6 address, including compressed and IPv4-mapped forms.
\<close>

section \<open>Addresses\<close>

datatype ip_addr = V4 "byte list" | V6 "byte list"

fun ip_ok :: "ip_addr \<Rightarrow> bool" where
  "ip_ok (V4 os) = (length os = 4)"
| "ip_ok (V6 os) = (length os = 16)"

fun is_ipv4 :: "ip_addr \<Rightarrow> bool" where
  "is_ipv4 (V4 _) = True"
| "is_ipv4 (V6 _) = False"

fun octets :: "ip_addr \<Rightarrow> byte list" where
  "octets (V4 os) = os"
| "octets (V6 os) = os"

section \<open>Digits\<close>

fun digits :: "nat \<Rightarrow> nat \<Rightarrow> nat list" where
  "digits r n = (if r < 2 \<or> n < r then [n] else digits r (n div r) @ [n mod r])"

declare digits.simps [simp del]

definition digit_char :: "nat \<Rightarrow> char" where
  "digit_char d = char_of (if d < 10 then d + 48 else d + 87)"

definition show_num :: "nat \<Rightarrow> nat \<Rightarrow> string" where
  "show_num r n = map digit_char (digits r n)"

text \<open>\<open>char::to_digit\<close> for the radices 10 and 16.\<close>

definition to_digit :: "nat \<Rightarrow> char \<Rightarrow> nat option" where
  "to_digit r c = (let n = (of_char c :: nat) in
     if 48 \<le> n \<and> n \<le> 57 then (if n - 48 < r then Some (n - 48) else None)
     else if 97 \<le> n \<and> n \<le> 122 then (if n - 87 < r then Some (n - 87) else None)
     else if 65 \<le> n \<and> n \<le> 90 then (if n - 55 < r then Some (n - 55) else None)
     else None)"

section \<open>The address parser\<close>

fun read_digits :: "nat \<Rightarrow> nat \<Rightarrow> string \<Rightarrow> nat \<Rightarrow> nat \<Rightarrow> (nat \<times> nat \<times> string) option" where
  "read_digits r mx [] acc cnt = Some (acc, cnt, [])"
| "read_digits r mx (c # cs) acc cnt =
     (case to_digit r c of
        None \<Rightarrow> Some (acc, cnt, c # cs)
      | Some d \<Rightarrow> if mx < Suc cnt then None else read_digits r mx cs (acc * r + d) (Suc cnt))"

definition read_number :: "nat \<Rightarrow> nat \<Rightarrow> bool \<Rightarrow> nat \<Rightarrow> string \<Rightarrow> (nat \<times> string) option" where
  "read_number r mx allow_zero_prefix bound s =
     (case read_digits r mx s 0 0 of
        None \<Rightarrow> None
      | Some (v, cnt, rest) \<Rightarrow>
          if cnt = 0 then None
          else if \<not> allow_zero_prefix \<and> hd s = CHR ''0'' \<and> 1 < cnt then None
          else if v < bound then Some (v, rest) else None)"

definition read_separator :: "char \<Rightarrow> nat \<Rightarrow> (string \<Rightarrow> 'a option) \<Rightarrow> string \<Rightarrow> 'a option" where
  "read_separator sep i inner s =
     (if 0 < i then (case s of [] \<Rightarrow> None | c # cs \<Rightarrow> if c = sep then inner cs else None)
      else inner s)"

fun read_octets :: "nat \<Rightarrow> nat \<Rightarrow> string \<Rightarrow> (byte list \<times> string) option" where
  "read_octets i 0 s = Some ([], s)"
| "read_octets i (Suc n) s =
     (case read_separator CHR ''.'' i (read_number 10 3 False 256) s of
        None \<Rightarrow> None
      | Some (v, rest) \<Rightarrow>
          (case read_octets (Suc i) n rest of
             None \<Rightarrow> None
           | Some (os, rest') \<Rightarrow> Some (word_of_nat v # os, rest')))"

definition read_ipv4_addr :: "string \<Rightarrow> (byte list \<times> string) option" where
  "read_ipv4_addr s = read_octets 0 4 s"

text \<open>\<open>read_groups\<close>: up to \<open>n\<close> groups, \<open>i\<close> of them already read; the flag says that the last two came
  from an embedded IPv4 address.\<close>

fun read_groups :: "nat \<Rightarrow> nat \<Rightarrow> string \<Rightarrow> byte list list \<times> bool \<times> string" where
  "read_groups i 0 s = ([], False, s)"
| "read_groups i (Suc n) s =
     (case (if 0 < n then read_separator CHR '':'' i read_ipv4_addr s else None) of
        Some (os, rest) \<Rightarrow> ([take 2 os, drop 2 os], True, rest)
      | None \<Rightarrow>
          (case read_separator CHR '':'' i (read_number 16 4 True 65536) s of
             None \<Rightarrow> ([], False, s)
           | Some (g, rest) \<Rightarrow>
               (case read_groups (Suc i) n rest of
                  (gs, v4, rest') \<Rightarrow> (to_be 2 g # gs, v4, rest'))))"

definition read_ipv6_addr :: "string \<Rightarrow> (byte list \<times> string) option" where
  "read_ipv6_addr s =
     (case read_groups 0 8 s of
        (head, head_ipv4, rest) \<Rightarrow>
          if length head = 8 then Some (concat head, rest)
          else if head_ipv4 then None
          else (case rest of
                  c1 # c2 # rest1 \<Rightarrow>
                    if c1 = CHR '':'' \<and> c2 = CHR '':'' then
                      (case read_groups 0 (8 - (length head + 1)) rest1 of
                         (tail, _, rest2) \<Rightarrow>
                           Some (concat head
                                  @ replicate (2 * (8 - length head - length tail)) 0
                                  @ concat tail, rest2))
                    else None
                | _ \<Rightarrow> None))"

definition parse_ip :: "string \<Rightarrow> ip_addr option" where
  "parse_ip s =
     (case read_ipv4_addr s of
        Some (os, rest) \<Rightarrow> if rest = [] then Some (V4 os) else None
      | None \<Rightarrow>
          (case read_ipv6_addr s of
             Some (os, rest) \<Rightarrow> if rest = [] then Some (V6 os) else None
           | None \<Rightarrow> None))"

section \<open>Printing\<close>

fun join :: "string \<Rightarrow> string list \<Rightarrow> string" where
  "join sep [] = []"
| "join sep [x] = x"
| "join sep (x # xs) = x @ sep @ join sep xs"

definition show_ipv4 :: "byte list \<Rightarrow> string" where
  "show_ipv4 os = join ''.'' (map (\<lambda>b. show_num 10 (unat b)) os)"

fun segments :: "byte list \<Rightarrow> nat list" where
  "segments (a # b # bs) = of_be [a, b] # segments bs"
| "segments _ = []"

definition fmt_subslice :: "nat list \<Rightarrow> string" where
  "fmt_subslice gs = join '':'' (map (show_num 16) gs)"

text \<open>The first longest run of zero segments, as \<open>(start, length)\<close>.\<close>

fun zero_span :: "nat \<Rightarrow> nat \<times> nat \<Rightarrow> nat \<times> nat \<Rightarrow> nat list \<Rightarrow> nat \<times> nat" where
  "zero_span i cur longest [] = longest"
| "zero_span i (cs, cl) (ls, ll) (g # gs) =
     (if g = 0 then
        (let cs' = (if cl = 0 then i else cs); cl' = Suc cl in
         zero_span (Suc i) (cs', cl') (if ll < cl' then (cs', cl') else (ls, ll)) gs)
      else zero_span (Suc i) (0, 0) (ls, ll) gs)"

definition ipv4_mapped :: "byte list \<Rightarrow> bool" where
  "ipv4_mapped os = (take 12 os = replicate 10 0 @ [0xff, 0xff])"

definition show_ipv6 :: "byte list \<Rightarrow> string" where
  "show_ipv6 os =
     (if ipv4_mapped os then ''::ffff:'' @ show_ipv4 (drop 12 os)
      else let gs = segments os; (st, len) = zero_span 0 (0, 0) (0, 0) gs in
        if 1 < len then fmt_subslice (take st gs) @ ''::'' @ fmt_subslice (drop (st + len) gs)
        else fmt_subslice gs)"

fun show_ip :: "ip_addr \<Rightarrow> string" where
  "show_ip (V4 os) = show_ipv4 os"
| "show_ip (V6 os) = show_ipv6 os"

section \<open>\<open>u8::from_str\<close> and \<open>str::split_once\<close>\<close>

fun parse_digits :: "nat \<Rightarrow> string \<Rightarrow> nat option" where
  "parse_digits acc [] = Some acc"
| "parse_digits acc (c # cs) =
     (case to_digit 10 c of None \<Rightarrow> None | Some d \<Rightarrow> parse_digits (acc * 10 + d) cs)"

definition parse_u8 :: "string \<Rightarrow> u8 option" where
  "parse_u8 s =
     (if s = [] \<or> s = ''+'' \<or> s = ''-'' then None
      else case parse_digits 0 (if hd s = CHR ''+'' then tl s else s) of
        None \<Rightarrow> None
      | Some v \<Rightarrow> if v < 256 then Some (word_of_nat v) else None)"

fun split_once :: "char \<Rightarrow> string \<Rightarrow> (string \<times> string) option" where
  "split_once sep [] = None"
| "split_once sep (c # cs) =
     (if c = sep then Some ([], cs)
      else map_option (\<lambda>(a, b). (c # a, b)) (split_once sep cs))"

section \<open>Digits read back\<close>

definition no_digit :: "nat \<Rightarrow> string \<Rightarrow> bool" where
  "no_digit r s = (case s of [] \<Rightarrow> True | c # _ \<Rightarrow> to_digit r c = None)"

lemma no_digit_simps [simp]:
  "no_digit r []" "no_digit r (c # cs) \<longleftrightarrow> to_digit r c = None"
  by (simp_all add: no_digit_def)

lemma digit_lt: "r \<ge> 2 \<Longrightarrow> d \<in> set (digits r n) \<Longrightarrow> d < r"
proof (induction r n rule: digits.induct)
  case (1 r n)
  then show ?case
    by (subst (asm) (2) digits.simps) (auto split: if_splits)
qed

lemma to_digit_digit_char:
  assumes "d < r" "r \<le> 16"
  shows "to_digit r (digit_char d) = Some d"
proof -
  have "of_char (digit_char d) = (if d < 10 then d + 48 else d + 87 :: nat)"
    using assms by (simp add: digit_char_def)
  then show ?thesis using assms by (auto simp: to_digit_def Let_def)
qed

lemma read_digits_map:
  assumes "r \<le> 16" "\<forall>d \<in> set ds. d < r" "cnt + length ds \<le> mx" "no_digit r rest"
  shows "read_digits r mx (map digit_char ds @ rest) acc cnt =
         Some (foldl (\<lambda>a d. a * r + d) acc ds, cnt + length ds, rest)"
  using assms
proof (induction ds arbitrary: acc cnt)
  case Nil
  then show ?case by (cases rest) auto
next
  case (Cons d ds)
  then show ?case by (simp add: to_digit_digit_char)
qed

lemma foldl_digits: "r \<ge> 2 \<Longrightarrow> foldl (\<lambda>a d. a * r + d) 0 (digits r n) = n"
proof (induction r n rule: digits.induct)
  case (1 r n)
  then show ?case by (subst digits.simps) auto
qed

lemma digits_nonempty [simp]: "digits r n \<noteq> []"
  by (subst digits.simps) simp

lemma length_digits: "r \<ge> 2 \<Longrightarrow> n < r ^ k \<Longrightarrow> 0 < k \<Longrightarrow> length (digits r n) \<le> k"
proof (induction k arbitrary: n)
  case (Suc k)
  show ?case
  proof (cases "n < r")
    case True
    then show ?thesis by (subst digits.simps) simp
  next
    case False
    then have "0 < k" using Suc.prems by (cases k) auto
    moreover have "n div r < r ^ k"
      using Suc.prems by (simp add: less_mult_imp_div_less mult.commute)
    ultimately have "length (digits r (n div r)) \<le> k" using Suc.IH Suc.prems(1) by blast
    then show ?thesis using False Suc.prems(1) by (subst digits.simps) simp
  qed
qed simp

lemma hd_digits: "r \<ge> 2 \<Longrightarrow> 0 < n \<Longrightarrow> hd (digits r n) \<noteq> 0"
proof (induction r n rule: digits.induct)
  case (1 r n)
  show ?case
  proof (cases "n < r")
    case True
    then show ?thesis using 1 by (subst digits.simps) simp
  next
    case False
    then have "hd (digits r (n div r)) \<noteq> 0"
      using 1 by (auto simp: div_greater_zero_iff)
    then show ?thesis using False 1 by (subst digits.simps) simp
  qed
qed

lemma digits_zero: "r \<ge> 2 \<Longrightarrow> digits r 0 = [0]"
  by (subst digits.simps) simp

lemma digit_char_zero: "d < 16 \<Longrightarrow> digit_char d = CHR ''0'' \<longleftrightarrow> d = 0"
proof -
  assume "d < 16"
  then have "to_digit 16 (digit_char d) = Some d" by (simp add: to_digit_digit_char)
  moreover have "to_digit 16 CHR ''0'' = Some 0" by (simp add: to_digit_def)
  moreover have "digit_char 0 = CHR ''0''"
  proof -
    have "CHR ''0'' = char_of (of_char CHR ''0'' :: nat)" by (simp only: char_of_char)
    then show ?thesis by (simp add: digit_char_def)
  qed
  ultimately show ?thesis by auto
qed

lemma read_number_show:
  assumes "r \<ge> 2" "r \<le> 16" "0 < mx" "n < r ^ mx" "n < bound" "no_digit r rest"
  shows "read_number r mx az bound (show_num r n @ rest) = Some (n, rest)"
proof -
  have len: "length (digits r n) \<le> mx" using length_digits assms by blast
  have rd: "read_digits r mx (show_num r n @ rest) 0 0 = Some (n, length (digits r n), rest)"
    unfolding show_num_def
    using read_digits_map [of r "digits r n" 0 mx rest 0] assms len
    by (auto simp: digit_lt foldl_digits)
  have zero: "length (digits r n) = 1" if "hd (show_num r n @ rest) = CHR ''0''"
  proof -
    have "hd (digits r n) < r" by (rule digit_lt [OF assms(1), of _ n]) simp
    then have "hd (digits r n) = 0"
      using that assms(2) by (simp add: show_num_def hd_append hd_map digit_char_zero)
    then have "n = 0" using hd_digits [OF assms(1)] by (cases n) auto
    then show ?thesis using digits_zero [OF assms(1)] by simp
  qed
  show ?thesis using rd zero assms(5) by (auto simp: read_number_def)
qed

lemma to_digit_sep [simp]:
  "to_digit 10 CHR ''.'' = None" "to_digit 10 CHR '':'' = None" "to_digit 16 CHR '':'' = None"
  "to_digit 10 CHR ''/'' = None"
  by (simp_all add: to_digit_def)

lemma read_octets_show:
  assumes "os \<noteq> []" "no_digit 10 rest"
  shows "read_octets i (length os)
           ((if 0 < i then ''.'' else []) @ join ''.'' (map (\<lambda>b. show_num 10 (unat b)) os) @ rest) =
         Some (os, rest)"
  using assms
proof (induction os arbitrary: i)
  case (Cons b os)
  have b: "unat b < 10 ^ 3" using less_trans [OF unat_byte_less [of b], of "10 ^ 3"] by simp
  show ?case
  proof (cases os)
    case Nil
    have "read_number 10 3 False 256 (show_num 10 (unat b) @ rest) = Some (unat b, rest)"
      using read_number_show [of 10 3 "unat b" 256 rest False] b Cons.prems by simp
    then show ?thesis using Nil by (auto simp: read_separator_def)
  next
    case (Cons b' os')
    let ?tl = "''.'' @ join ''.'' (map (\<lambda>b. show_num 10 (unat b)) os) @ rest"
    have "read_number 10 3 False 256 (show_num 10 (unat b) @ ?tl) = Some (unat b, ?tl)"
      by (rule read_number_show) (use b in simp_all)
    moreover have "read_octets (Suc i) (length os) ?tl = Some (os, rest)"
      using Cons.IH [of "Suc i"] Cons Cons.prems by simp
    ultimately show ?thesis using Cons by (auto simp: read_separator_def)
  qed
qed simp

lemma read_ipv4_show:
  assumes "length os = 4" "no_digit 10 rest"
  shows "read_ipv4_addr (show_ipv4 os @ rest) = Some (os, rest)"
  using read_octets_show [of os rest 0] assms by (force simp: read_ipv4_addr_def show_ipv4_def)

lemma parse_show_v4: "length os = 4 \<Longrightarrow> parse_ip (show_ip (V4 os)) = Some (V4 os)"
  using read_ipv4_show [of os "[]"] by (simp add: parse_ip_def)


section \<open>IPv6 texts read back\<close>

lemma digit_char_inj: "d < 16 \<Longrightarrow> c = digit_char d \<Longrightarrow> to_digit 16 c = Some d"
  by (simp add: to_digit_digit_char)

lemma sep_notin_show:
  assumes "to_digit 16 c = None" "r \<ge> 2" "r \<le> 16"
  shows "c \<notin> set (show_num r n)"
proof
  assume "c \<in> set (show_num r n)"
  then obtain d where "d \<in> set (digits r n)" "c = digit_char d" by (auto simp: show_num_def)
  moreover from this have "d < 16" using digit_lt [OF assms(2), of d n] assms(3) by simp
  ultimately show False using assms(1) digit_char_inj by simp
qed

lemma set_join: "set (join sep xs) \<subseteq> set sep \<union> \<Union> (set ` set xs)"
  by (induction sep xs rule: join.induct) auto

lemma to_digit16_sep: "to_digit 16 CHR ''.'' = None" "to_digit 16 CHR ''/'' = None"
  by (simp_all add: to_digit_def)

lemma dot_notin_fmt: "CHR ''.'' \<notin> set (fmt_subslice gs)"
  using set_join [of "'':''" "map (show_num 16) gs"] sep_notin_show [OF to_digit16_sep(1), of 16]
  by (fastforce simp: fmt_subslice_def)

lemma read_octets_no_dot: "CHR ''.'' \<notin> set s \<Longrightarrow> read_octets (Suc i) (Suc n) s = None"
  by (cases s) (auto simp: read_separator_def)

lemma read_digits_rest:
  "read_digits r mx t acc cnt = Some (v, n, rest) \<Longrightarrow> set rest \<subseteq> set t"
  by (induction r mx t acc cnt rule: read_digits.induct) (auto split: option.splits if_splits)

lemma read_number_rest:
  "read_number r mx az bound t = Some (v, rest) \<Longrightarrow> set rest \<subseteq> set t"
  using read_digits_rest by (fastforce simp: read_number_def split: option.splits if_splits)

lemma read_ipv4_addr_None:
  assumes "read_number 10 3 False 256 s = None"
  shows "read_ipv4_addr s = None"
proof -
  have "read_octets 0 (Suc 3) s = None"
    using assms by (subst read_octets.simps) (simp add: read_separator_def)
  then show ?thesis by (simp add: read_ipv4_addr_def eval_nat_numeral)
qed

lemma read_ipv4_no_dot:
  assumes "CHR ''.'' \<notin> set s"
  shows "read_ipv4_addr s = None"
proof (cases "read_number 10 3 False 256 s")
  case (Some p)
  obtain v rest where p: "p = (v, rest)" by (cases p)
  then have "CHR ''.'' \<notin> set rest" using read_number_rest Some assms by blast
  then have "read_octets (Suc 0) 3 rest = None" using read_octets_no_dot [of rest 0 2] by simp
  then have "read_octets 0 (Suc 3) s = None"
    using Some p by (subst read_octets.simps) (simp add: read_separator_def)
  then show ?thesis by (simp add: read_ipv4_addr_def eval_nat_numeral)
qed (rule read_ipv4_addr_None)

text \<open>What can follow a list of groups: the end of the text, or the \<open>::\<close> of the compressed form.\<close>

definition group_end :: "string \<Rightarrow> bool" where
  "group_end s = (s = [] \<or> take 2 s = ''::'')"

lemma group_end_no_digit: "group_end s \<Longrightarrow> no_digit 16 s"
  by (cases s) (auto simp: group_end_def)

lemma read_groups_stop:
  assumes "group_end s" "CHR ''.'' \<notin> set s"
  shows "read_groups i n s = ([], False, s)"
proof (cases n)
  case (Suc m)
  have v4: "read_separator CHR '':'' i read_ipv4_addr s = None"
    using assms(2) read_ipv4_no_dot by (cases s) (auto simp: read_separator_def)
  have num: "read_separator CHR '':'' i (read_number 16 4 True 65536) s = None"
    using assms(1)
    by (cases s; cases "tl s") (auto simp: group_end_def read_separator_def read_number_def)
  show ?thesis using v4 num Suc by simp
qed simp

lemma read_groups_fmt:
  assumes "list_all (\<lambda>g. g < 65536) gs" "gs \<noteq> []" "length gs \<le> n"
    and "group_end rest" "CHR ''.'' \<notin> set rest"
  shows "read_groups i n ((if 0 < i then '':'' else []) @ fmt_subslice gs @ rest) =
         (map (to_be 2) gs, False, rest)"
  using assms(1-3)
proof (induction gs arbitrary: i n)
  case (Cons g gs)
  then obtain m where n: "n = Suc m" by (cases n) auto
  have nd: "CHR ''.'' \<notin> set (fmt_subslice (g # gs) @ rest)"
    using dot_notin_fmt [of "g # gs"] assms(5) by simp
  have v4: "read_separator CHR '':'' i read_ipv4_addr
              ((if 0 < i then '':'' else []) @ fmt_subslice (g # gs) @ rest) = None"
    using read_ipv4_no_dot [OF nd] by (simp add: read_separator_def)
  let ?after = "(if gs = [] then rest else '':'' @ fmt_subslice gs @ rest)"
  have split: "fmt_subslice (g # gs) @ rest = show_num 16 g @ ?after"
    by (cases gs) (auto simp: fmt_subslice_def)
  have "no_digit 16 ?after" using group_end_no_digit [OF assms(4)] by simp
  then have "read_number 16 4 True 65536 (show_num 16 g @ ?after) = Some (g, ?after)"
    using Cons.prems(1) by (intro read_number_show) simp_all
  then have num: "read_separator CHR '':'' i (read_number 16 4 True 65536)
      ((if 0 < i then '':'' else []) @ fmt_subslice (g # gs) @ rest) = Some (g, ?after)"
    by (simp add: read_separator_def split)
  have rec: "read_groups (Suc i) m ?after = (map (to_be 2) gs, False, rest)"
  proof (cases "gs = []")
    case True
    then show ?thesis using read_groups_stop [OF assms(4,5)] by simp
  next
    case False
    then show ?thesis using Cons.IH [of m "Suc i"] Cons.prems n by simp
  qed
  have "(if 0 < m then read_separator CHR '':'' i read_ipv4_addr
          ((if 0 < i then '':'' else []) @ fmt_subslice (g # gs) @ rest) else None) = None"
    using v4 by simp
  then show ?case unfolding n read_groups.simps num rec by (simp add: num rec)
qed simp


definition zero_run :: "nat list \<Rightarrow> nat \<times> nat \<Rightarrow> bool" where
  "zero_run gs sp = (fst sp + snd sp \<le> length gs \<and> (\<forall>j < snd sp. gs ! (fst sp + j) = 0))"

lemma zero_span_run:
  assumes "length pre = i" "zero_run pre longest"
    and "snd cur = 0 \<or> fst cur + snd cur = i \<and> zero_run pre cur"
  shows "zero_run (pre @ gs) (zero_span i cur longest gs)"
  using assms
proof (induction i cur longest gs arbitrary: pre rule: zero_span.induct)
  case (1 i cur longest)
  then show ?case by simp
next
  case (2 i cs cl ls ll g gs)
  let ?pre = "pre @ [g]"
  have ext: "zero_run ?pre sp" if "zero_run pre sp" for sp
    using that by (auto simp: zero_run_def nth_append)
  show ?case
  proof (cases "g = 0")
    case False
    then show ?thesis
      using "2.IH"(2) [of ?pre] "2.prems" ext by simp
  next
    case True
    define cs' where "cs' = (if cl = 0 then i else cs)"
    have cur: "zero_run ?pre (cs', Suc cl)" "cs' + Suc cl = Suc i"
      using "2.prems" True by (auto simp: cs'_def zero_run_def nth_append less_Suc_eq)
    have longest: "zero_run ?pre (if ll < Suc cl then (cs', Suc cl) else (ls, ll))"
      using cur(1) ext "2.prems"(2) by simp
    have "zero_run (?pre @ gs)
      (zero_span (Suc i) (cs', Suc cl) (if ll < Suc cl then (cs', Suc cl) else (ls, ll)) gs)"
      by (rule "2.IH"(1) [OF True cs'_def]) (use "2.prems"(1) cur longest in simp_all)
    then show ?thesis
      unfolding zero_span.simps Let_def cs'_def [symmetric] using True by simp
  qed
qed

lemma zero_run_split:
  assumes "zero_run gs (st, len)"
  shows "gs = take st gs @ replicate len 0 @ drop (st + len) gs"
proof -
  have "take len (drop st gs) = replicate len 0"
    using assms by (intro nth_equalityI) (auto simp: zero_run_def)
  then show ?thesis
    by (metis append_take_drop_id drop_drop add.commute)
qed

lemma segments_props:
  "length os = 2 * n \<Longrightarrow> length (segments os) = n \<and> list_all (\<lambda>g. g < 65536) (segments os) \<and>
   concat (map (to_be 2) (segments os)) = os"
proof (induction os arbitrary: n rule: segments.induct)
  case (1 a b bs)
  then obtain m where n: "n = Suc m" and m: "length bs = 2 * m" by (cases n) auto
  have "of_be [a, b] < 65536" using of_be_less [of "[a, b]"] by (simp add: power2_eq_square)
  moreover have "to_be 2 (of_be [a, b]) = [a, b]" by (rule to_be_of_be') simp
  ultimately show ?case using "1.IH" [OF m] n by simp
qed auto

lemma concat_replicate_zero: "concat (replicate k (to_be 2 0)) = replicate (2 * k) 0"
  by (induction k) (simp_all add: to_be_zero replicate_add [symmetric] numeral_2_eq_2)


lemma read_groups_fmt0:
  assumes "list_all (\<lambda>g. g < 65536) gs" "length gs \<le> n"
    and "group_end rest" "CHR ''.'' \<notin> set rest"
  shows "read_groups 0 n (fmt_subslice gs @ rest) = (map (to_be 2) gs, False, rest)"
proof (cases "gs = []")
  case True
  then show ?thesis using read_groups_stop [OF assms(3,4)] by (simp add: fmt_subslice_def)
next
  case False
  then show ?thesis using read_groups_fmt [of gs n rest 0] assms by simp
qed

lemma read_ipv6_compressed:
  assumes "list_all (\<lambda>g. g < 65536) gs1" "list_all (\<lambda>g. g < 65536) gs2"
    and "length gs1 + len + length gs2 = 8" "1 < len"
  shows "read_ipv6_addr (fmt_subslice gs1 @ ''::'' @ fmt_subslice gs2) =
         Some (concat (map (to_be 2) (gs1 @ replicate len 0 @ gs2)), [])"
proof -
  have "read_groups 0 8 (fmt_subslice gs1 @ ''::'' @ fmt_subslice gs2) =
        (map (to_be 2) gs1, False, ''::'' @ fmt_subslice gs2)"
    using assms dot_notin_fmt [of gs2] by (intro read_groups_fmt0) (simp_all add: group_end_def)
  moreover have "read_groups 0 (8 - (length gs1 + 1)) (fmt_subslice gs2) =
        (map (to_be 2) gs2, False, [])"
    using read_groups_fmt0 [of gs2 "8 - (length gs1 + 1)" "[]"] assms by (simp add: group_end_def)
  moreover have "8 - length gs1 - length gs2 = len" "length gs1 \<noteq> 8" using assms by simp_all
  ultimately show ?thesis by (simp add: read_ipv6_addr_def concat_replicate_zero)
qed

lemma read_ipv6_plain:
  assumes "list_all (\<lambda>g. g < 65536) gs" "length gs = 8"
  shows "read_ipv6_addr (fmt_subslice gs) = Some (concat (map (to_be 2) gs), [])"
  using read_groups_fmt0 [of gs 8 "[]"] assms by (simp add: read_ipv6_addr_def group_end_def)

lemma read_ipv6_mapped:
  assumes "length os = 4"
  shows "read_ipv6_addr (''::ffff:'' @ show_ipv4 os) = Some (replicate 10 0 @ [0xff, 0xff] @ os, [])"
    and "read_ipv4_addr (''::ffff:'' @ show_ipv4 os) = None"
proof -
  let ?v4 = "show_ipv4 os"
  have v4: "read_ipv4_addr ?v4 = Some (os, [])" using read_ipv4_show [of os "[]"] assms by simp
  have no4: "read_ipv4_addr (c # cs) = None" if "to_digit 10 c = None" for c cs
    using that by (intro read_ipv4_addr_None) (simp add: read_number_def)
  show "read_ipv4_addr (''::ffff:'' @ ?v4) = None" using no4 by simp
  have f: "to_digit 10 CHR ''f'' = None" "to_digit 16 CHR ''f'' = Some 15" by (simp_all add: to_digit_def)
  have num: "read_number 16 4 True 65536 (''ffff:'' @ ?v4) = Some (65535, '':'' @ ?v4)"
    by (simp add: read_number_def f)
  have colon: "read_number 16 4 True 65536 (CHR '':'' # cs) = None" for cs
    by (simp add: read_number_def)
  have "read_groups 0 (Suc 7) (''::ffff:'' @ ?v4) = ([], False, ''::ffff:'' @ ?v4)"
    by (subst read_groups.simps) (simp add: read_separator_def no4 colon)
  moreover have tail: "read_groups (Suc 0) (Suc 5) ('':'' @ ?v4) = ([take 2 os, drop 2 os], True, [])"
    by (subst read_groups.simps) (simp add: read_separator_def v4)
  moreover have "read_groups 0 (Suc 6) (''ffff:'' @ ?v4) =
      (to_be 2 65535 # [take 2 os, drop 2 os], True, [])"
    using tail num no4 [OF f(1)] by (subst read_groups.simps) (simp add: read_separator_def)
  ultimately show "read_ipv6_addr (''::ffff:'' @ ?v4) = Some (replicate 10 0 @ [0xff, 0xff] @ os, [])"
    by (simp add: read_ipv6_addr_def byte_eval)
qed

lemma parse_show_v6:
  assumes "length os = 16"
  shows "parse_ip (show_ip (V6 os)) = Some (V6 os)"
proof (cases "ipv4_mapped os")
  case True
  then have eq: "replicate 10 0 @ [0xff, 0xff] @ drop 12 os = os"
    unfolding ipv4_mapped_def by (metis append.assoc append_take_drop_id)
  have "length (drop 12 os) = 4" using assms by simp
  note mapped = read_ipv6_mapped [OF this, unfolded eq]
  then show ?thesis using True by (simp add: parse_ip_def show_ipv6_def)
next
  case False
  obtain st len where sp: "zero_span 0 (0, 0) (0, 0) (segments os) = (st, len)" by fastforce
  have gs: "length (segments os) = 8" "list_all (\<lambda>g. g < 65536) (segments os)"
    "concat (map (to_be 2) (segments os)) = os"
    using segments_props [of os 8] assms by simp_all
  have "zero_run (segments os) (st, len)"
    using zero_span_run [of "[]" 0 "(0, 0)" "(0, 0)" "segments os"] sp by (simp add: zero_run_def)
  note split = zero_run_split [OF this] and run = this
  show ?thesis
  proof (cases "1 < len")
    case True
    have "length (take st (segments os)) + len + length (drop (st + len) (segments os)) = 8"
      using run gs(1) by (simp add: zero_run_def)
    moreover have "list_all (\<lambda>g. g < 65536) (take st (segments os))"
      "list_all (\<lambda>g. g < 65536) (drop (st + len) (segments os))"
      using gs(2) by (auto simp: list_all_iff dest: in_set_takeD in_set_dropD)
    moreover have "concat (map (to_be 2)
        (take st (segments os) @ replicate len 0 @ drop (st + len) (segments os))) = os"
      unfolding split [symmetric] by (rule gs(3))
    ultimately have "read_ipv6_addr (fmt_subslice (take st (segments os)) @ ''::''
        @ fmt_subslice (drop (st + len) (segments os))) = Some (os, [])"
      using read_ipv6_compressed True by metis
    then have "read_ipv6_addr (show_ipv6 os) = Some (os, [])"
      using True False sp by (simp add: show_ipv6_def Let_def)
    moreover have "CHR ''.'' \<notin> set (show_ipv6 os)"
      using True False sp dot_notin_fmt by (simp add: show_ipv6_def Let_def)
    ultimately show ?thesis using read_ipv4_no_dot by (simp add: parse_ip_def)
  next
    case small: False
    then have "show_ipv6 os = fmt_subslice (segments os)" using False sp by (simp add: show_ipv6_def Let_def)
    then show ?thesis
      using read_ipv6_plain [OF gs(2,1)] gs(3) read_ipv4_no_dot [OF dot_notin_fmt]
      by (simp add: parse_ip_def)
  qed
qed

lemma parse_show_ip: "ip_ok a \<Longrightarrow> parse_ip (show_ip a) = Some a"
  using parse_show_v4 parse_show_v6 by (cases a) auto

section \<open>The other string functions\<close>

lemma slash_notin_show_num: "r \<ge> 2 \<Longrightarrow> r \<le> 16 \<Longrightarrow> CHR ''/'' \<notin> set (show_num r n)"
  by (rule sep_notin_show [OF to_digit16_sep(2)])

lemma slash_notin_join:
  "CHR ''/'' \<notin> set sep \<Longrightarrow> \<forall>x \<in> set xs. CHR ''/'' \<notin> set x \<Longrightarrow> CHR ''/'' \<notin> set (join sep xs)"
  using set_join [of sep xs] by auto

lemma slash_notin_show_ip: "CHR ''/'' \<notin> set (show_ip a)"
proof -
  have v4: "CHR ''/'' \<notin> set (show_ipv4 os)" for os
    unfolding show_ipv4_def by (rule slash_notin_join) (auto simp: slash_notin_show_num)
  have v6: "CHR ''/'' \<notin> set (fmt_subslice gs)" for gs
    unfolding fmt_subslice_def by (rule slash_notin_join) (auto simp: slash_notin_show_num)
  show ?thesis using v4 v6 by (cases a) (auto simp: show_ipv6_def Let_def split: prod.splits)
qed

lemma split_once_append: "sep \<notin> set a \<Longrightarrow> split_once sep (a @ sep # b) = Some (a, b)"
  by (induction a) auto

lemma parse_digits_map:
  "\<forall>d \<in> set ds. d < 10 \<Longrightarrow>
   parse_digits acc (map digit_char ds) = Some (foldl (\<lambda>a d. a * 10 + d) acc ds)"
  by (induction ds arbitrary: acc) (simp_all add: to_digit_digit_char)

lemma parse_u8_show: "parse_u8 (show_num 10 (unat b)) = Some b"
proof -
  have dig: "\<forall>d \<in> set (digits 10 (unat b)). d < 10" using digit_lt [of 10] by simp
  obtain d ds where ds: "digits 10 (unat b) = d # ds" by (cases "digits 10 (unat b)") auto
  then have "to_digit 10 (digit_char d) = Some d" using dig by (simp add: to_digit_digit_char)
  moreover have "to_digit 10 CHR ''+'' = None" "to_digit 10 CHR ''-'' = None"
    by (simp_all add: to_digit_def)
  ultimately have sign: "digit_char d \<noteq> CHR ''+''" "digit_char d \<noteq> CHR ''-''" by auto
  have "parse_digits 0 (show_num 10 (unat b)) = Some (unat b)"
    unfolding show_num_def using parse_digits_map [OF dig, of 0] foldl_digits [of 10 "unat b"] by simp
  then show ?thesis
    using sign by (simp add: parse_u8_def show_num_def ds)
qed

end
