(* ===== verification/Route_Prefix.thy ===== *)
theory Route_Prefix
  imports Net_Addr
begin

text \<open>
  \<open>Prefix\<close> of \<^verbatim>\<open>src/rill-core/src/route/mod.rs\<close>: 16 bytes of bits, a length and the address family.
  \<open>prefix_ok\<close> is the canonical form the source promises (length within the family's bound, every bit
  below the length zero). The addresses a prefix denotes are \<open>addrs\<close>; containment is inclusion of
  denotations, with the one exception of the shift by 128 that an IPv6 \<open>/0\<close> prefix causes.

  The release build is modelled: a shift amount of a \<open>u128\<close> is taken modulo 128 (\<open>shr_u128\<close>).
\<close>

section \<open>Model\<close>

record prefix =
  pbits :: "byte list"
  plen :: u8
  pv4 :: bool

datatype prefix_error = BadCidr

definition shr_u128 :: "u128 \<Rightarrow> nat \<Rightarrow> u128" where
  "shr_u128 x n = drop_bit (n mod 128) x"

definition shl_u128 :: "u128 \<Rightarrow> nat \<Rightarrow> u128" where
  "shl_u128 x n = push_bit (n mod 128) x"

definition family_bits :: "bool \<Rightarrow> u8" where
  "family_bits v4 = (if v4 then 32 else 128)"

definition prefix_new :: "byte list \<Rightarrow> u8 \<Rightarrow> bool \<Rightarrow> prefix option" where
  "prefix_new bits len v4 =
     (if len > family_bits v4 then None
      else if len = 0 then Some \<lparr>pbits = replicate 16 0, plen = len, pv4 = v4\<rparr>
      else
        let shift = 128 - unat len;
            significant = shr_u128 (get128 bits) shift
        in Some \<lparr>pbits = be128 (shl_u128 significant shift), plen = len, pv4 = v4\<rparr>)"

text \<open>The 16-byte buffer both address families are copied into.\<close>

fun ip_bits :: "ip_addr \<Rightarrow> byte list" where
  "ip_bits (V4 os) = os @ replicate 12 0"
| "ip_bits (V6 os) = os"

fun from_ip :: "ip_addr \<Rightarrow> (prefix_error, prefix) outcome" where
  "from_ip (V4 os) =
     (case prefix_new (ip_bits (V4 os)) 32 True of Some p \<Rightarrow> Ok p | None \<Rightarrow> Panic)"
| "from_ip (V6 os) =
     (case prefix_new (ip_bits (V6 os)) 128 False of Some p \<Rightarrow> Ok p | None \<Rightarrow> Panic)"

definition prefix_parse :: "string \<Rightarrow> (prefix_error, prefix) outcome" where
  "prefix_parse cidr =
     obind (ok_or BadCidr (split_once CHR ''/'' cidr)) (\<lambda>(addr, len).
     obind (ok_or BadCidr (parse_u8 len)) (\<lambda>len.
     obind (ok_or BadCidr (parse_ip addr)) (\<lambda>ip.
     ok_or BadCidr (prefix_new (ip_bits ip) len (is_ipv4 ip)))))"

definition significant :: "prefix \<Rightarrow> u128" where
  "significant p =
     (if plen p = 0 then 0 else shr_u128 (get128 (pbits p)) (128 - unat (plen p)))"

definition contains :: "prefix \<Rightarrow> prefix \<Rightarrow> bool" where
  "contains p q =
     (if pv4 p \<noteq> pv4 q \<or> plen q < plen p then False
      else shr_u128 (significant q) (unat (plen q - plen p)) = significant p)"

definition prefix_matches :: "prefix \<Rightarrow> ip_addr \<Rightarrow> bool" where
  "prefix_matches p a = (case from_ip a of Ok q \<Rightarrow> contains p q | _ \<Rightarrow> False)"

definition is_covered_by :: "prefix \<Rightarrow> prefix \<Rightarrow> bool" where
  "is_covered_by p q = contains q p"

definition to_cidr :: "prefix \<Rightarrow> string" where
  "to_cidr p =
     (if pv4 p then show_ip (V4 (take 4 (pbits p))) @ ''/'' @ show_num 10 (unat (plen p))
      else show_ip (V6 (pbits p)) @ ''/'' @ show_num 10 (unat (plen p)))"

section \<open>Canonical form\<close>

definition prefix_ok :: "prefix \<Rightarrow> bool" where
  "prefix_ok p \<longleftrightarrow> length (pbits p) = 16 \<and> plen p \<le> family_bits (pv4 p) \<and>
     take_bit (128 - unat (plen p)) (get128 (pbits p)) = 0"

text \<open>The bits a prefix fixes, most significant first.\<close>

definition agree_upto :: "nat \<Rightarrow> u128 \<Rightarrow> u128 \<Rightarrow> bool" where
  "agree_upto n x y \<longleftrightarrow> (\<forall>i < n. bit x (127 - i) = bit y (127 - i))"

definition addrs :: "prefix \<Rightarrow> ip_addr set" where
  "addrs p = {a. ip_ok a \<and> is_ipv4 a = pv4 p \<and>
     agree_upto (unat (plen p)) (get128 (ip_bits a)) (get128 (pbits p))}"

lemma family_bits_le: "unat (family_bits v4) \<le> 128"
  by (simp add: family_bits_def)

lemma plen_le: "prefix_ok p \<Longrightarrow> unat (plen p) \<le> unat (family_bits (pv4 p))"
  by (simp add: prefix_ok_def word_le_nat_alt)

lemma plen_le_128: "prefix_ok p \<Longrightarrow> unat (plen p) \<le> 128"
  using plen_le family_bits_le le_trans by blast

lemma unat_zero_less: "(w :: u8) \<noteq> 0 \<Longrightarrow> 0 < unat w"
  by (simp add: unat_gt_0)

lemma shr_u128_small: "n < 128 \<Longrightarrow> shr_u128 x n = drop_bit n x"
  by (simp add: shr_u128_def)

lemma shl_u128_small: "n < 128 \<Longrightarrow> shl_u128 x n = push_bit n x"
  by (simp add: shl_u128_def)

lemma drop_bit_128 [simp]: "drop_bit 128 (x :: u128) = 0"
  by (intro bit_word_eqI) (auto simp: bit_drop_bit_eq dest: bit_imp_le_length)

lemma significant_eq:
  assumes "prefix_ok p"
  shows "significant p = drop_bit (128 - unat (plen p)) (get128 (pbits p))"
proof (cases "plen p = 0")
  case True
  then show ?thesis by (simp add: significant_def)
next
  case False
  then have "128 - unat (plen p) < 128" using unat_zero_less [of "plen p"] by simp
  then show ?thesis using False by (simp add: significant_def shr_u128_small)
qed

lemma get128_replicate: "get128 (replicate 16 0) = 0"
proof -
  have "of_le (replicate n 0) = 0" for n by (induction n) auto
  then show ?thesis by (simp add: get128_def of_be_def)
qed

lemma prefix_new_bits:
  assumes "prefix_new bits len v4 = Some p"
  shows "get128 (pbits p) = push_bit (128 - unat len) (drop_bit (128 - unat len) (get128 bits))"
    and "length (pbits p) = 16" "plen p = len" "pv4 p = v4" "len \<le> family_bits v4"
proof -
  have len: "len \<le> family_bits v4" "plen p = len" "pv4 p = v4"
    using assms by (auto simp: prefix_new_def Let_def split: if_splits)
  then show "plen p = len" "pv4 p = v4" "len \<le> family_bits v4" by simp_all
  have le128: "unat len \<le> 128"
    using len(1) family_bits_le [of v4] by (simp add: word_le_nat_alt)
  show "length (pbits p) = 16"
    using assms by (auto simp: prefix_new_def Let_def split: if_splits)
  show "get128 (pbits p) = push_bit (128 - unat len) (drop_bit (128 - unat len) (get128 bits))"
  proof (cases "len = 0")
    case True
    then show ?thesis
      using assms len(1)
      by (auto simp: prefix_new_def get128_replicate push_bit_eq_mult split: if_splits)
  next
    case False
    then have "128 - unat len < 128" using unat_zero_less [of len] by simp
    then show ?thesis
      using assms False
      by (auto simp: prefix_new_def Let_def shr_u128_small shl_u128_small split: if_splits)
  qed
qed

lemma prefix_new_ok: "prefix_new bits len v4 = Some p \<Longrightarrow> prefix_ok p"
  using prefix_new_bits [of bits len v4 p]
  by (auto simp: prefix_ok_def intro!: bit_word_eqI simp: bit_take_bit_iff bit_push_bit_iff)

lemma push_drop_zero_low:
  fixes x :: u128
  assumes "take_bit k x = 0"
  shows "push_bit k (drop_bit k x) = x"
proof (rule bit_word_eqI)
  fix n assume "n < LENGTH(128)"
  moreover have "\<not> bit x n" if "n < k"
    using assms that by (metis bit_0_eq bit_take_bit_iff bot_apply bot_bool_def)
  ultimately show "bit (push_bit k (drop_bit k x)) n = bit x n"
    by (cases "n < k") (simp_all add: bit_push_bit_iff bit_drop_bit_eq)
qed

lemma prefix_new_canonical:
  assumes "prefix_ok p"
  shows "prefix_new (pbits p) (plen p) (pv4 p) = Some p"
proof -
  have "prefix_new (pbits p) (plen p) (pv4 p) \<noteq> None"
    using assms by (auto simp: prefix_ok_def prefix_new_def Let_def)
  then obtain q where q: "prefix_new (pbits p) (plen p) (pv4 p) = Some q" by blast
  note nb = prefix_new_bits [OF q]
  have "get128 (pbits q) = get128 (pbits p)"
    using nb(1) push_drop_zero_low assms by (simp add: prefix_ok_def)
  then have "pbits q = pbits p"
    using be_get128 [of "pbits p"] be_get128 [of "pbits q"] nb(2) assms by (simp add: prefix_ok_def)
  then show ?thesis using q nb by (simp add: prefix.equality)
qed

lemma drop_bit_eq_agree:
  assumes "n \<le> 128"
  shows "drop_bit (128 - n) x = drop_bit (128 - n) (y :: u128) \<longleftrightarrow> agree_upto n x y"
proof
  assume eq: "drop_bit (128 - n) x = drop_bit (128 - n) y"
  show "agree_upto n x y"
    unfolding agree_upto_def
  proof (intro allI impI)
    fix i assume "i < n"
    then have pos: "127 - i = (128 - n) + (n - 1 - i)" using assms by simp
    have "bit (drop_bit (128 - n) x) (n - 1 - i) = bit (drop_bit (128 - n) y) (n - 1 - i)"
      by (simp only: eq)
    then show "bit x (127 - i) = bit y (127 - i)"
      unfolding pos bit_drop_bit_eq comp_apply .
  qed
next
  assume ag: "agree_upto n x y"
  show "drop_bit (128 - n) x = drop_bit (128 - n) y"
  proof (rule bit_word_eqI)
    fix j assume "j < LENGTH(128)"
    show "bit (drop_bit (128 - n) x) j = bit (drop_bit (128 - n) y) j"
    proof (cases "j < n")
      case True
      then have pos: "(128 - n) + j = 127 - (n - 1 - j)" and "n - 1 - j < n" using assms by simp_all
      then show ?thesis
        using ag unfolding bit_drop_bit_eq comp_apply pos agree_upto_def by blast
    next
      case False
      then have "128 \<le> (128 - n) + j" using assms by simp
      then show ?thesis by (auto simp: bit_drop_bit_eq dest: bit_imp_le_length)
    qed
  qed
qed

lemma agree_refl [simp]: "agree_upto n x x"
  by (simp add: agree_upto_def)

lemma agree_sym: "agree_upto n x y \<Longrightarrow> agree_upto n y x"
  by (simp add: agree_upto_def)

lemma agree_trans: "agree_upto n x y \<Longrightarrow> agree_upto n y z \<Longrightarrow> agree_upto n x z"
  by (simp add: agree_upto_def)

lemma agree_mono: "agree_upto n x y \<Longrightarrow> m \<le> n \<Longrightarrow> agree_upto m x y"
  by (simp add: agree_upto_def)

lemma contains_iff:
  assumes "prefix_ok p" "prefix_ok q" "\<not> (plen p = 0 \<and> plen q = 128)"
  shows "contains p q \<longleftrightarrow> pv4 p = pv4 q \<and> plen p \<le> plen q \<and>
           agree_upto (unat (plen p)) (get128 (pbits q)) (get128 (pbits p))"
proof (cases "pv4 p = pv4 q \<and> plen p \<le> plen q")
  case True
  let ?lp = "unat (plen p)" and ?lq = "unat (plen q)"
  have le: "?lp \<le> ?lq" "?lq \<le> 128" "unat (plen q - plen p) = ?lq - ?lp"
    using True plen_le_128 [OF assms(2)] by (simp_all add: word_le_nat_alt unat_sub)
  have "?lq - ?lp < 128"
  proof (rule ccontr)
    assume "\<not> ?lq - ?lp < 128"
    then have "?lp = unat (0 :: u8)" "?lq = unat (128 :: u8)" using le by simp_all
    then have "plen p = 0" "plen q = 128" by (blast intro: word_unat_eq_iff [THEN iffD2])+
    then show False using assms(3) by blast
  qed
  moreover have "drop_bit (?lq - ?lp) (drop_bit (128 - ?lq) (get128 (pbits q))) =
      drop_bit (128 - ?lp) (get128 (pbits q))"
    using le by (simp add: drop_bit_drop_bit)
  ultimately have "contains p q \<longleftrightarrow>
      drop_bit (128 - ?lp) (get128 (pbits q)) = drop_bit (128 - ?lp) (get128 (pbits p))"
    using True le(3) by (simp add: contains_def significant_eq assms shr_u128_small not_less [symmetric])
  then show ?thesis using True drop_bit_eq_agree plen_le_128 [OF assms(1)] by simp
qed (auto simp: contains_def not_less)


section \<open>Addresses\<close>

lemma be128_low_bytes:
  assumes "take_bit (8 * k) x = 0" and "k \<le> 16"
  shows "be128 x = take (16 - k) (be128 x) @ replicate k 0"
proof -
  have "take_bit (8 * k) (unat x) = 0"
    using assms unsigned_take_bit_eq [of "8 * k" x, where ?'a = nat] by simp
  moreover have "(256 :: nat) ^ k = 2 ^ (8 * k)" by (simp add: power_mult)
  ultimately have "unat x mod 256 ^ k = 0" by (simp add: take_bit_eq_mod)
  then have "to_le k (unat x) = replicate k 0"
    using to_le_mod [of k "unat x"] by (simp add: to_le_zero)
  then have "to_le 16 (unat x) = replicate k 0 @ to_le (16 - k) (unat x div 256 ^ k)"
    using to_le_add [of k "16 - k" "unat x"] assms(2) by simp
  then show ?thesis by (simp add: be128_def to_be_def)
qed

lemma be128_low_zero: "take_bit 96 x = 0 \<Longrightarrow> be128 x = take 4 (be128 x) @ replicate 12 0"
  using be128_low_bytes [of 12 x] by simp

text \<open>The address whose bits are the word \<open>x\<close>.\<close>

definition addr_of :: "bool \<Rightarrow> u128 \<Rightarrow> ip_addr" where
  "addr_of v4 x = (if v4 then V4 (take 4 (be128 x)) else V6 (be128 x))"

lemma addr_of:
  assumes "v4 \<Longrightarrow> take_bit 96 x = 0"
  shows "ip_ok (addr_of v4 x)" "is_ipv4 (addr_of v4 x) = v4" "get128 (ip_bits (addr_of v4 x)) = x"
proof -
  show "ip_ok (addr_of v4 x)" "is_ipv4 (addr_of v4 x) = v4" by (simp_all add: addr_of_def)
  show "get128 (ip_bits (addr_of v4 x)) = x"
    using be128_low_zero [of x, symmetric] assms by (simp add: addr_of_def)
qed

lemma ip_bits_low_zero:
  assumes "ip_ok (V4 os)"
  shows "take_bit 96 (get128 (ip_bits (V4 os))) = 0"
proof -
  have "length os = 4" using assms by simp
  have "of_be (replicate 12 0) = 0"
    using of_be_to_be [of 12 0] by (simp add: to_be_zero)
  then have "of_be (os @ replicate 12 0) = of_be os * 256 ^ 12"
    using of_be_append [of os "replicate 12 0"] by simp
  then have "get128 (os @ replicate 12 0) = push_bit 96 (word_of_nat (of_be os))"
    by (simp add: get128_def push_bit_eq_mult)
  then show ?thesis
    by (auto intro!: bit_word_eqI simp: bit_take_bit_iff bit_push_bit_iff)
qed

lemma length_ip_bits: "ip_ok a \<Longrightarrow> length (ip_bits a) = 16"
  by (cases a) auto

lemma from_ip_eq:
  assumes "ip_ok a"
  shows "from_ip a = Ok \<lparr>pbits = ip_bits a, plen = family_bits (is_ipv4 a), pv4 = is_ipv4 a\<rparr>"
    and "prefix_ok \<lparr>pbits = ip_bits a, plen = family_bits (is_ipv4 a), pv4 = is_ipv4 a\<rparr>"
proof -
  let ?q = "\<lparr>pbits = ip_bits a, plen = family_bits (is_ipv4 a), pv4 = is_ipv4 a\<rparr>"
  have "take_bit (128 - unat (plen ?q)) (get128 (pbits ?q)) = 0"
    using ip_bits_low_zero assms by (cases a) (simp_all add: family_bits_def)
  then show ok: "prefix_ok ?q" using assms by (simp add: prefix_ok_def length_ip_bits)
  show "from_ip a = Ok ?q"
    using prefix_new_canonical [OF ok] by (cases a) (simp_all add: family_bits_def)
qed

lemma from_ip_ok:
  assumes "ip_ok a"
  obtains q where "from_ip a = Ok q" "prefix_ok q" "plen q = family_bits (is_ipv4 a)"
    "pv4 q = is_ipv4 a" "pbits q = ip_bits a"
  using from_ip_eq [OF assms] by auto

lemma matches_iff_addrs:
  assumes "prefix_ok p" "ip_ok a" "\<not> (plen p = 0 \<and> \<not> is_ipv4 a)"
  shows "prefix_matches p a \<longleftrightarrow> a \<in> addrs p"
proof -
  obtain q where q: "from_ip a = Ok q" "prefix_ok q" "plen q = family_bits (is_ipv4 a)"
    "pv4 q = is_ipv4 a" "pbits q = ip_bits a" using from_ip_ok [OF assms(2)] .
  have "\<not> (plen p = 0 \<and> plen q = 128)" using assms(3) q(3) by (auto simp: family_bits_def)
  then have "contains p q \<longleftrightarrow> pv4 p = is_ipv4 a \<and> plen p \<le> plen q \<and>
      agree_upto (unat (plen p)) (get128 (ip_bits a)) (get128 (pbits p))"
    using contains_iff [OF assms(1) q(2)] q by simp
  moreover have "pv4 p = is_ipv4 a \<Longrightarrow> plen p \<le> plen q"
    using assms(1) q(3) by (simp add: prefix_ok_def)
  ultimately show ?thesis using assms(2) q(1) by (auto simp: prefix_matches_def addrs_def)
qed

lemma base_in_addrs:
  assumes "prefix_ok q" "agree_upto (unat (plen q)) x (get128 (pbits q))"
    "pv4 q \<Longrightarrow> take_bit 96 x = 0"
  shows "addr_of (pv4 q) x \<in> addrs q"
  using assms addr_of [of "pv4 q" x] by (simp add: addrs_def)

lemma prefix_ok_low_zero:
  assumes "prefix_ok q" "i < 128 - unat (plen q)"
  shows "\<not> bit (get128 (pbits q)) i"
proof
  assume "bit (get128 (pbits q)) i"
  then have "bit (take_bit (128 - unat (plen q)) (get128 (pbits q))) i"
    using assms(2) by (simp add: bit_take_bit_iff)
  then show False using assms(1) by (simp add: prefix_ok_def)
qed

lemma prefix_ok_v4_low:
  assumes "prefix_ok q" "pv4 q"
  shows "take_bit 96 (get128 (pbits q)) = 0"
proof (rule bit_word_eqI)
  fix n assume "n < LENGTH(128)"
  have "unat (plen q) \<le> 32" using plen_le [OF assms(1)] assms(2) by (simp add: family_bits_def)
  then show "bit (take_bit 96 (get128 (pbits q))) n = bit 0 n"
    using prefix_ok_low_zero [OF assms(1), of n] by (auto simp: bit_take_bit_iff)
qed


section \<open>Containment is inclusion of denotations\<close>

lemma contains_addrs_subset:
  assumes "prefix_ok p" "prefix_ok q" "\<not> (plen p = 0 \<and> plen q = 128)" "contains p q"
  shows "addrs q \<subseteq> addrs p"
proof
  fix a assume "a \<in> addrs q"
  moreover have "agree_upto (unat (plen p)) (get128 (pbits q)) (get128 (pbits p))"
    "unat (plen p) \<le> unat (plen q)" "pv4 p = pv4 q"
    using contains_iff [OF assms(1-3)] assms(4) by (simp_all add: word_le_nat_alt)
  ultimately show "a \<in> addrs p" by (auto simp: addrs_def intro: agree_trans agree_mono)
qed

lemma subset_addrs_contains:
  assumes "prefix_ok p" "prefix_ok q" "\<not> (plen p = 0 \<and> plen q = 128)" "addrs q \<subseteq> addrs p"
  shows "contains p q"
proof -
  let ?x = "get128 (pbits q)"
  have base: "addr_of (pv4 q) ?x \<in> addrs p"
    using assms(4) base_in_addrs [OF assms(2), of ?x] prefix_ok_v4_low [OF assms(2)] by auto
  have v4: "pv4 p = pv4 q" and ag: "agree_upto (unat (plen p)) ?x (get128 (pbits p))"
    using base addr_of [of "pv4 q" ?x] prefix_ok_v4_low [OF assms(2)] by (simp_all add: addrs_def)
  have "plen p \<le> plen q"
  proof (rule ccontr)
    assume "\<not> plen p \<le> plen q"
    then have lt: "unat (plen q) < unat (plen p)" by (simp add: word_le_nat_alt not_le)
    have le: "unat (plen p) \<le> unat (family_bits (pv4 p))" using plen_le [OF assms(1)] .
    let ?i = "127 - unat (plen q)"
    let ?y = "set_bit ?i ?x"
    have i: "?i < 128" "pv4 q \<Longrightarrow> 96 \<le> ?i"
      using lt le family_bits_le [of "pv4 p"] v4 by (simp_all add: family_bits_def)
    have bity: "bit ?y j \<longleftrightarrow> j = ?i \<or> bit ?x j" if "j < 128" for j
      using that by (auto simp: bit_set_bit_iff)
    have "agree_upto (unat (plen q)) ?y ?x"
      using lt le family_bits_le [of "pv4 p"] by (auto simp: agree_upto_def bity)
    moreover have "take_bit 96 ?y = 0" if "pv4 q"
    proof (rule bit_word_eqI)
      fix n assume "n < LENGTH(128)"
      have "\<not> (n < 96 \<and> bit ?x n)"
        using prefix_ok_v4_low [OF assms(2) that] by (metis bit_0_eq bit_take_bit_iff bot_apply bot_bool_def)
      then show "bit (take_bit 96 ?y) n = bit 0 n"
        using i(2) [OF that] \<open>n < LENGTH(128)\<close> bity [of n] by (auto simp: bit_take_bit_iff)
    qed
    ultimately have "addr_of (pv4 q) ?y \<in> addrs q" by (intro base_in_addrs assms(2))
    then have "agree_upto (unat (plen p)) ?y (get128 (pbits p))"
      using assms(4) addr_of [of "pv4 q" ?y] \<open>pv4 q \<Longrightarrow> take_bit 96 ?y = 0\<close> by (auto simp: addrs_def)
    then have "bit ?y ?i = bit ?x ?i" using ag lt by (simp add: agree_upto_def)
    moreover have "\<not> bit ?x ?i"
      using prefix_ok_low_zero [OF assms(2), of ?i] lt le family_bits_le [of "pv4 p"] by simp
    ultimately show False using bity [OF i(1)] by simp
  qed
  then show ?thesis using contains_iff [OF assms(1-3)] v4 ag by simp
qed

lemma contains_sound:
  assumes "prefix_ok p" "prefix_ok q" "contains p q"
  shows "addrs q \<subseteq> addrs p"
proof (cases "plen p = 0 \<and> plen q = 128")
  case True
  then have "pv4 q = pv4 p" using assms(3) by (simp add: contains_def split: if_splits)
  then show ?thesis using True by (auto simp: addrs_def agree_upto_def)
next
  case False
  then show ?thesis using contains_addrs_subset assms by blast
qed


section \<open>The whitelist gate\<close>

text \<open>
  Several components admit an item only if some entry of a list covers it (announced routes, BGP
  imports). The interface: covering is sound for the denotations. The clients get that whatever
  passes the gate stays within the union of the list.
\<close>

locale cover_gate =
  fixes cov :: "'p \<Rightarrow> 'p \<Rightarrow> bool"
    and ok :: "'p \<Rightarrow> bool"
    and den :: "'p \<Rightarrow> 'a set"
  assumes cov_sound: "ok p \<Longrightarrow> ok w \<Longrightarrow> cov p w \<Longrightarrow> den p \<subseteq> den w"
begin

lemma gate_sound:
  "ok p \<Longrightarrow> list_all ok ws \<Longrightarrow> list_ex (cov p) ws \<Longrightarrow> den p \<subseteq> \<Union> (den ` set ws)"
  by (induction ws) (auto dest: cov_sound)

lemma gate_empty: "\<not> list_ex (cov p) []"
  by simp

lemma gate_mono: "set ws \<subseteq> set vs \<Longrightarrow> list_ex (cov p) ws \<Longrightarrow> list_ex (cov p) vs"
  by (auto simp: list_ex_iff)

end

interpretation wl: cover_gate is_covered_by prefix_ok addrs
  by unfold_locales (simp add: is_covered_by_def contains_sound)

lemma prefix_parse_ok: "prefix_parse s = Ok p \<Longrightarrow> prefix_ok p"
  by (auto simp: prefix_parse_def outcome_simps intro: prefix_new_ok)

lemma prefix_parse_not_Panic [simp]: "prefix_parse s \<noteq> Panic"
  by (auto simp: prefix_parse_def outcome_simps split: prod.splits)

section \<open>Properties\<close>


definition ex_net8 :: prefix where
  "ex_net8 = \<lparr>pbits = 10 # replicate 15 0, plen = 8, pv4 = True\<rparr>"

definition ex_net16 :: prefix where
  "ex_net16 = \<lparr>pbits = 10 # 1 # replicate 14 0, plen = 16, pv4 = True\<rparr>"

lemma ex_nets_ok: "prefix_ok ex_net16" "prefix_ok ex_net8"
  by (simp_all add: prefix_ok_def ex_net8_def ex_net16_def family_bits_def byte_eval)

lemma ex_nets_covered: "is_covered_by ex_net16 ex_net8"
  by (simp add: is_covered_by_def contains_def significant_def shr_u128_def ex_net8_def
        ex_net16_def byte_eval)


text \<open>
  \<open>Prefix::matches\<close> decides membership: a canonical prefix matches an address exactly when the
  families agree and the first \<open>len\<close> bits of the address are those of the prefix. The IPv6 \<open>/0\<close>
  prefix is excluded.
\<close>

theorem matches_iff_leading_bits:
  assumes "prefix_ok p" "ip_ok a" "plen p \<noteq> 0 \<or> is_ipv4 a"
  shows "prefix_matches p a \<longleftrightarrow>
    is_ipv4 a = pv4 p \<and>
    (\<forall>i < unat (plen p). bit (get128 (ip_bits a)) (127 - i) = bit (get128 (pbits p)) (127 - i))"
  using matches_iff_addrs [OF assms(1,2)] assms(2,3) by (auto simp: addrs_def agree_upto_def)

theorem matches_iff_leading_bits_witness:
  "prefix_matches ex_net8 (V4 [10, 9, 8, 7]) \<and>
   list_all (\<lambda>i. bit (get128 (ip_bits (V4 [10, 9, 8, 7]))) (127 - i) = bit (get128 (pbits ex_net8)) (127 - i)) [0..<8]"
proof -
  have m: "prefix_matches ex_net8 (V4 [10, 9, 8, 7])"
    by (simp add: prefix_matches_def from_ip_eq(1) contains_def significant_def shr_u128_def
        ex_net8_def family_bits_def byte_eval del: from_ip.simps)
  then show ?thesis
    using matches_iff_leading_bits [OF ex_nets_ok(2), of "V4 [10, 9, 8, 7]"]
    by (simp add: ex_net8_def list_all_iff del: ip_bits.simps)
qed

text \<open>
  The zero-length IPv6 prefix \<open>::/0\<close> does not match the IPv6 address space: \<open>contains\<close> shifts a \<open>u128\<close>
  by 128, which the release build takes as a shift by 0, so \<open>::/0\<close> matches the address \<open>::\<close> and no other.
\<close>

theorem zero_length_v6_matches_only_unspecified:
  assumes "ip_ok (V6 os)"
  shows "prefix_matches \<lparr>pbits = replicate 16 0, plen = 0, pv4 = False\<rparr> (V6 os)
           \<longleftrightarrow> os = replicate 16 0"
proof -
  have "get128 os = 0 \<longleftrightarrow> os = replicate 16 0"
    using be_get128 [of os] assms be_get128 [of "replicate 16 0"] get128_replicate by force
  then show ?thesis
    using assms
    by (simp add: prefix_matches_def from_ip_eq(1) contains_def significant_def shr_u128_def
        family_bits_def del: from_ip.simps)
qed

theorem zero_length_v6_matches_only_unspecified_witness:
  "prefix_parse ''::/0'' = Ok \<lparr>pbits = replicate 16 0, plen = 0, pv4 = False\<rparr> \<and>
   \<not> prefix_matches \<lparr>pbits = replicate 16 0, plen = 0, pv4 = False\<rparr>
       (V6 (0x20 # 1 # replicate 13 0 @ [1]))"
proof
  have dig: "to_digit 10 CHR ''0'' = Some 0" by (simp add: to_digit_def)
  have rep: "replicate 16 (0 :: byte) = [0, 0, 0, 0, 0, 0, 0, 0, 0, 0, 0, 0, 0, 0, 0, 0]" by (simp add: numeral_eq_Suc)
  have "show_ip (V6 [0, 0, 0, 0, 0, 0, 0, 0, 0, 0, 0, 0, 0, 0, 0, 0]) = ''::''"
    by (simp add: show_ipv6_def ipv4_mapped_def fmt_subslice_def of_be_simps Let_def)
  then have "parse_ip ''::'' = Some (V6 (replicate 16 0))"
    using parse_show_ip [of "V6 [0, 0, 0, 0, 0, 0, 0, 0, 0, 0, 0, 0, 0, 0, 0, 0]"] unfolding rep by simp
  then show "prefix_parse ''::/0'' = Ok \<lparr>pbits = replicate 16 0, plen = 0, pv4 = False\<rparr>"
    by (simp add: prefix_parse_def parse_u8_def dig prefix_new_def family_bits_def)
  show "\<not> prefix_matches \<lparr>pbits = replicate 16 0, plen = 0, pv4 = False\<rparr>
       (V6 (0x20 # 1 # replicate 13 0 @ [1]))"
    using zero_length_v6_matches_only_unspecified [of "0x20 # 1 # replicate 13 0 @ [1]"]
      replicate_Suc [of 15 "0 :: byte"] by simp
qed


lemma parse_text:
  assumes "ip_ok a"
  shows "prefix_parse (show_ip a @ ''/'' @ show_num 10 (unat len)) =
         ok_or BadCidr (prefix_new (ip_bits a) len (is_ipv4 a))"
  using split_once_append [OF slash_notin_show_ip, of a "show_num 10 (unat len)"] assms
  by (simp add: prefix_parse_def parse_u8_show parse_show_ip)

lemma v4_bits:
  assumes "prefix_ok p" "pv4 p"
  shows "ip_bits (V4 (take 4 (pbits p))) = pbits p"
  using be128_low_zero [OF prefix_ok_v4_low [OF assms]] be_get128 [of "pbits p"] assms(1)
  by (simp add: prefix_ok_def)

lemma prefix_parse_to_cidr:
  assumes "prefix_ok p"
  shows "prefix_parse (to_cidr p) = Ok p"
proof (cases "pv4 p")
  case True
  have "ip_ok (V4 (take 4 (pbits p)))" using assms by (simp add: prefix_ok_def)
  then show ?thesis
    using True parse_text [of "V4 (take 4 (pbits p))" "plen p"] v4_bits [OF assms True]
      prefix_new_canonical [OF assms] by (simp add: to_cidr_def del: ip_bits.simps show_ip.simps)
next
  case False
  have "ip_ok (V6 (pbits p))" using assms by (simp add: prefix_ok_def)
  then show ?thesis
    using False parse_text [of "V6 (pbits p)" "plen p"] prefix_new_canonical [OF assms]
    by (simp add: to_cidr_def del: show_ip.simps)
qed

text \<open>
  C34: Printing a prefix and parsing the text gives the prefix back: \<open>Prefix::parse(p.to_cidr()) = Ok(p)\<close>
  for every canonical prefix of either family, through the textual forms of \<open>std::net\<close>.
\<close>

theorem parse_to_cidr:
  assumes "prefix_ok p"
  shows "prefix_parse (to_cidr p) = Ok p"
  using assms by (rule prefix_parse_to_cidr)

theorem parse_to_cidr_witness:
  "prefix_ok ex_net16 \<and> prefix_parse (to_cidr ex_net16) = Ok ex_net16"
  using ex_nets_ok parse_to_cidr [OF ex_nets_ok(1)] by simp

end
