(* ===== verification/Route_Engine.thy ===== *)
theory Route_Engine
  imports Route_Prefix "HOL-Library.Product_Lexorder"
begin

text \<open>
  The route policy engine of \<^verbatim>\<open>src/rill-core/src/route/mod.rs\<close> (\<open>LpmTable\<close>, \<open>RouteEngine\<close>) and the
  default-route resolver of \<^verbatim>\<open>src/rill-core/src/route/default.rs\<close>. The engine sorts twice with Rust's
  stable \<open>sort_by_key\<close>; \<open>sort_key\<close> is stable too. The main results: \<open>lookup_best\<close> is the earliest
  inserted entry among the reachable matches with the longest prefix and the best source, removals
  never disturb a route they do not remove, and the resolver's nested loops are one search through
  the preference order.
\<close>

section \<open>Model of the engine\<close>

datatype route_source = Lan | Mesh | DynDn42 | Dn42 | Tailnet

fun priority :: "route_source \<Rightarrow> u8" where
  "priority Lan = 0"
| "priority Mesh = 1"
| "priority Dn42 = 2"
| "priority DynDn42 = 3"
| "priority Tailnet = 4"

datatype route_via = ViaMesh u32 | ViaDn42 string | ViaTailnet string | ViaDirect string

record route_entry =
  re_prefix :: prefix
  re_source :: route_source
  re_via :: route_via
  re_metric :: "u32 option"

record lpm_table =
  lpm_entries :: "route_entry list"

record route_engine =
  engine_table :: lpm_table

definition lpm_new :: lpm_table where
  "lpm_new = \<lparr>lpm_entries = []\<rparr>"

definition lpm_insert :: "lpm_table \<Rightarrow> route_entry \<Rightarrow> lpm_table" where
  "lpm_insert t e = t\<lparr>lpm_entries := lpm_entries t @ [e]\<rparr>"

definition lpm_remove :: "lpm_table \<Rightarrow> prefix \<Rightarrow> route_source \<Rightarrow> route_via \<Rightarrow> bool \<times> lpm_table" where
  "lpm_remove t p src via =
     (let before = length (lpm_entries t);
          entries = filter (\<lambda>e. \<not> (re_prefix e = p \<and> re_source e = src \<and> re_via e = via)) (lpm_entries t)
      in (length entries \<noteq> before, t\<lparr>lpm_entries := entries\<rparr>))"

definition lpm_remove_where :: "lpm_table \<Rightarrow> (route_entry \<Rightarrow> bool) \<Rightarrow> lpm_table" where
  "lpm_remove_where t pred = t\<lparr>lpm_entries := filter (\<lambda>e. \<not> pred e) (lpm_entries t)\<rparr>"

definition lpm_matches :: "lpm_table \<Rightarrow> ip_addr \<Rightarrow> route_entry list" where
  "lpm_matches t addr =
     sort_key (\<lambda>e. plen (re_prefix e)) (filter (\<lambda>e. prefix_matches (re_prefix e) addr) (lpm_entries t))"

definition engine_new :: route_engine where
  "engine_new = \<lparr>engine_table = lpm_new\<rparr>"

definition engine_insert :: "route_engine \<Rightarrow> route_entry \<Rightarrow> route_engine" where
  "engine_insert g e = g\<lparr>engine_table := lpm_insert (engine_table g) e\<rparr>"

definition lookup :: "route_engine \<Rightarrow> ip_addr \<Rightarrow> (route_entry \<times> u8) list" where
  "lookup g addr =
     sort_key (\<lambda>(e, p). (- int (unat (plen (re_prefix e))), p))
       (map (\<lambda>e. (e, priority (re_source e))) (lpm_matches (engine_table g) addr))"

definition lookup_best :: "route_engine \<Rightarrow> ip_addr \<Rightarrow> (route_entry \<Rightarrow> bool) \<Rightarrow> route_entry option" where
  "lookup_best g addr reachable = find reachable (map fst (lookup g addr))"

definition engine_remove_where :: "route_engine \<Rightarrow> (route_entry \<Rightarrow> bool) \<Rightarrow> route_engine" where
  "engine_remove_where g pred = g\<lparr>engine_table := lpm_remove_where (engine_table g) pred\<rparr>"

definition remove_mesh_node :: "route_engine \<Rightarrow> u32 \<Rightarrow> route_engine" where
  "remove_mesh_node g n =
     engine_remove_where g (\<lambda>e. re_source e = Mesh \<and> re_via e = ViaMesh n)"

definition remove_dn42_route :: "route_engine \<Rightarrow> prefix \<Rightarrow> string \<Rightarrow> bool \<times> route_engine" where
  "remove_dn42_route g p peer =
     (case lpm_remove (engine_table g) p Dn42 (ViaDn42 peer) of (b, t) \<Rightarrow> (b, g\<lparr>engine_table := t\<rparr>))"

definition remove_dn42_peer :: "route_engine \<Rightarrow> string \<Rightarrow> route_engine" where
  "remove_dn42_peer g peer =
     engine_remove_where g (\<lambda>e. re_source e = Dn42 \<and> re_via e = ViaDn42 peer)"

definition remove_tailnet_peer :: "route_engine \<Rightarrow> string \<Rightarrow> route_engine" where
  "remove_tailnet_peer g peer =
     engine_remove_where g (\<lambda>e. re_source e = Tailnet \<and> re_via e = ViaTailnet peer)"

definition reset_mesh_routes :: "route_engine \<Rightarrow> route_engine" where
  "reset_mesh_routes g = engine_remove_where g (\<lambda>e. re_source e = Mesh)"

definition reset_dyn_dn42_routes :: "route_engine \<Rightarrow> route_engine" where
  "reset_dyn_dn42_routes g = engine_remove_where g (\<lambda>e. re_source e = DynDn42)"

definition remove_dyn_dn42_node :: "route_engine \<Rightarrow> u32 \<Rightarrow> route_engine" where
  "remove_dyn_dn42_node g n =
     engine_remove_where g (\<lambda>e. re_source e = DynDn42 \<and> re_via e = ViaMesh n)"

definition dn42_via :: "route_engine \<Rightarrow> prefix \<Rightarrow> string option" where
  "dn42_via g p =
     (case find (\<lambda>e. re_prefix e = p \<and> re_source e = Dn42) (lpm_entries (engine_table g)) of
        None \<Rightarrow> None
      | Some e \<Rightarrow> (case re_via e of ViaDn42 peer \<Rightarrow> Some peer | _ \<Rightarrow> None))"

section \<open>Model of the default-route resolver\<close>

datatype exit_source = ExitTailnet | ExitMesh

definition exit_source_parse :: "string \<Rightarrow> exit_source option" where
  "exit_source_parse s =
     (if s = ''tailnet'' then Some ExitTailnet else if s = ''mesh'' then Some ExitMesh else None)"

record default_route_resolver =
  preference :: "exit_source list"
  mesh_exits :: "u32 list"
  tailnet_exits :: "string list"
  self_exit :: bool

definition resolver_new :: "exit_source list \<Rightarrow> default_route_resolver" where
  "resolver_new pref = \<lparr>preference = pref, mesh_exits = [], tailnet_exits = [], self_exit = False\<rparr>"

definition set_mesh_exits :: "default_route_resolver \<Rightarrow> u32 list \<Rightarrow> bool \<Rightarrow> default_route_resolver" where
  "set_mesh_exits d exits self = d\<lparr>mesh_exits := exits, self_exit := self\<rparr>"

definition set_tailnet_exits :: "default_route_resolver \<Rightarrow> string list \<Rightarrow> default_route_resolver" where
  "set_tailnet_exits d peers = d\<lparr>tailnet_exits := peers\<rparr>"

fun exit_candidates :: "default_route_resolver \<Rightarrow> exit_source \<Rightarrow> route_via list" where
  "exit_candidates d ExitTailnet = map ViaTailnet (tailnet_exits d)"
| "exit_candidates d ExitMesh = map ViaMesh (mesh_exits d)"

fun resolve_from :: "default_route_resolver \<Rightarrow> (route_via \<Rightarrow> bool) \<Rightarrow> exit_source list \<Rightarrow> route_via option" where
  "resolve_from d reachable [] = None"
| "resolve_from d reachable (src # srcs) =
     (if src = ExitMesh \<and> self_exit d then resolve_from d reachable srcs
      else case find reachable (exit_candidates d src) of
        Some via \<Rightarrow> Some via
      | None \<Rightarrow> resolve_from d reachable srcs)"

definition resolve :: "default_route_resolver \<Rightarrow> (route_via \<Rightarrow> bool) \<Rightarrow> route_via option" where
  "resolve d reachable = resolve_from d reachable (preference d)"

section \<open>Stable sorting and search\<close>

lemma find_filter: "find P xs = (case filter P xs of [] \<Rightarrow> None | x # _ \<Rightarrow> Some x)"
  by (induction xs) auto

lemma find_append: "find P (xs @ ys) = (case find P xs of None \<Rightarrow> find P ys | Some x \<Rightarrow> Some x)"
  by (induction xs) auto

lemma find_conj: "find P (filter Q xs) = find (\<lambda>x. Q x \<and> P x) xs"
  by (induction xs) auto

lemma hd_sort_key:
  assumes "ys \<noteq> []"
  shows "find (\<lambda>e. list_all (\<lambda>e'. k e \<le> k e') ys) ys = Some (hd (sort_key k ys))"
proof -
  let ?s = "sort_key k ys" and ?h = "hd (sort_key k ys)"
  have ne: "?s \<noteq> []" using assms by (metis set_empty set_sort)
  have "sorted (map k ?s)" by simp
  then have min: "\<forall>y \<in> set ys. k ?h \<le> k y"
    using ne set_sort [of k ys] by (cases ?s) (force simp del: set_sort)+
  have in_ys: "?h \<in> set ys" using ne hd_in_set [OF ne] by simp
  have iff: "list_all (\<lambda>e'. k e \<le> k e') ys \<longleftrightarrow> k e = k ?h" if "e \<in> set ys" for e
    using that min in_ys by (fastforce simp: list_all_iff)
  have "find (\<lambda>e. list_all (\<lambda>e'. k e \<le> k e') ys) ys = find (\<lambda>e. k e = k ?h) ys"
    by (rule find_cong [OF refl]) (simp add: iff)
  also have "\<dots> = find (\<lambda>e. k e = k ?h) ?s"
    unfolding find_filter sort_key_stable ..
  also have "\<dots> = Some ?h" using ne by (cases ?s) simp_all
  finally show ?thesis .
qed

lemma find_sort_key:
  "find P (sort_key k xs) = find (\<lambda>e. list_all (\<lambda>e'. k e \<le> k e') (filter P xs)) (filter P xs)"
proof (cases "filter P xs = []")
  case True
  then show ?thesis by (simp add: find_filter filter_sort)
next
  case False
  then have "filter P (sort_key k xs) \<noteq> []" by (metis set_empty set_sort filter_sort)
  then have "find P (sort_key k xs) = Some (hd (sort_key k (filter P xs)))"
    by (simp add: find_filter filter_sort split: list.splits)
  with hd_sort_key [OF False, of k] show ?thesis by simp
qed

section \<open>The best route\<close>

text \<open>
  The engine's ranking, written out: a longer prefix wins, and among equal lengths the source with
  the smaller priority number.
\<close>

definition better_eq :: "route_entry \<Rightarrow> route_entry \<Rightarrow> bool" where
  "better_eq e e' \<longleftrightarrow>
     plen (re_prefix e') < plen (re_prefix e)
     \<or> plen (re_prefix e') = plen (re_prefix e) \<and> priority (re_source e) \<le> priority (re_source e')"

definition usable :: "route_engine \<Rightarrow> ip_addr \<Rightarrow> (route_entry \<Rightarrow> bool) \<Rightarrow> route_entry list" where
  "usable g addr reachable =
     filter (\<lambda>e. prefix_matches (re_prefix e) addr \<and> reachable e) (lpm_entries (engine_table g))"

definition best_of :: "route_entry list \<Rightarrow> route_entry option" where
  "best_of es = find (\<lambda>e. list_all (better_eq e) es) es"

abbreviation rank :: "route_entry \<Rightarrow> int \<times> u8" where
  "rank e \<equiv> (- int (unat (plen (re_prefix e))), priority (re_source e))"

lemma rank_le: "rank e \<le> rank e' \<longleftrightarrow> better_eq e e'"
  by (auto simp: better_eq_def less_eq_prod_def word_less_def word_uint_eq_iff)

lemma map_insort_key: "insort_key k (f x) (map f xs) = map f (insort_key (\<lambda>x. k (f x)) x xs)"
  by (induction xs) auto

lemma sort_key_map: "sort_key k (map f xs) = map f (sort_key (\<lambda>x. k (f x)) xs)"
  by (induction xs) (simp_all add: map_insort_key)

lemma map_fst_lookup: "map fst (lookup g addr) = sort_key rank (lpm_matches (engine_table g) addr)"
  by (simp add: lookup_def sort_key_map o_def)

lemma sort_key_const:
  assumes "\<And>x y. x \<in> set xs \<Longrightarrow> y \<in> set xs \<Longrightarrow> k x = k y"
  shows "sort_key k xs = xs"
proof (rule sort_key_id_if_sorted)
  show "sorted (map k xs)" using assms by (induction xs) (auto simp: eq_iff)
qed

lemma best_of_sort_key:
  assumes "\<And>e e'. better_eq e e' \<Longrightarrow> better_eq e' e \<Longrightarrow> k e = k e'"
  shows "best_of (sort_key k es) = best_of es"
proof -
  have "sort_key k (filter (\<lambda>e. list_all (better_eq e) es) es) = filter (\<lambda>e. list_all (better_eq e) es) es"
    by (rule sort_key_const) (auto simp: list_all_iff intro: assms)
  then show ?thesis by (simp add: best_of_def find_filter list_all_iff filter_sort)
qed

lemma lookup_best_usable: "lookup_best g addr reachable = best_of (usable g addr reachable)"
proof -
  let ?len = "\<lambda>e. plen (re_prefix e)"
  have "lookup_best g addr reachable
          = best_of (filter reachable (lpm_matches (engine_table g) addr))"
    by (simp only: lookup_best_def map_fst_lookup find_sort_key best_of_def rank_le)
  also have "\<dots> = best_of (sort_key ?len (usable g addr reachable))"
    by (simp add: lpm_matches_def filter_sort usable_def conj_commute)
  also have "\<dots> = best_of (usable g addr reachable)"
    by (rule best_of_sort_key) (auto simp: better_eq_def)
  finally show ?thesis .
qed

lemma find_SomeD: "find P xs = Some x \<Longrightarrow> x \<in> set xs \<and> P x"
  by (induction xs) (auto split: if_splits)

lemma find_filter_kept: "find P xs = Some x \<Longrightarrow> keep x \<Longrightarrow> find P (filter keep xs) = Some x"
  by (induction xs) (auto split: if_splits)

lemma better_eq_trans: "better_eq a b \<Longrightarrow> better_eq b c \<Longrightarrow> better_eq a c"
  by (auto simp: better_eq_def)

lemma best_of_filter_kept:
  assumes best: "best_of es = Some e" and keep: "keep e"
  shows "best_of (filter keep es) = Some e"
proof -
  let ?top = "\<lambda>e. list_all (better_eq e) es" and ?top' = "\<lambda>e. list_all (better_eq e) (filter keep es)"
  have e: "e \<in> set es" "?top e" using find_SomeD [OF best [unfolded best_of_def]] by auto
  have "?top' x \<longleftrightarrow> ?top x" for x
    using e keep better_eq_trans [of x e] unfolding list_all_iff by auto
  then show ?thesis
    using find_filter_kept [OF best [unfolded best_of_def], of keep] keep by (simp add: best_of_def)
qed

lemma usable_remove_where:
  "usable (engine_remove_where g pred) addr reachable = filter (\<lambda>e. \<not> pred e) (usable g addr reachable)"
  by (simp add: usable_def engine_remove_where_def lpm_remove_where_def conj_commute)

lemma remove_dn42_route_eq:
  "snd (remove_dn42_route g p peer)
     = engine_remove_where g (\<lambda>e. re_prefix e = p \<and> re_source e = Dn42 \<and> re_via e = ViaDn42 peer)"
  by (simp add: remove_dn42_route_def lpm_remove_def engine_remove_where_def lpm_remove_where_def Let_def)

lemmas removal_defs =
  remove_mesh_node_def remove_dn42_peer_def remove_tailnet_peer_def reset_mesh_routes_def
  reset_dyn_dn42_routes_def remove_dyn_dn42_node_def remove_dn42_route_eq

definition removes_only :: "(route_engine \<Rightarrow> route_engine) \<Rightarrow> (route_entry \<Rightarrow> bool) \<Rightarrow> route_engine
    \<Rightarrow> ip_addr \<Rightarrow> (route_entry \<Rightarrow> bool) \<Rightarrow> bool" where
  "removes_only rm gone g addr reachable =
     (case lookup_best g addr reachable of
        None \<Rightarrow> lookup_best (rm g) addr reachable = None
      | Some e \<Rightarrow>
          if gone e then lookup_best (rm g) addr reachable \<noteq> Some e
          else lookup_best (rm g) addr reachable = Some e)"

lemma best_of_None: "best_of es = None \<longleftrightarrow> es = []"
  using hd_sort_key [of es rank]
  by (cases "es = []") (simp_all only: best_of_def rank_le find.simps simp_thms option.distinct)

lemma removes_only_where: "removes_only (\<lambda>g. engine_remove_where g gone) gone g addr reachable"
  unfolding removes_only_def lookup_best_usable usable_remove_where
  by (auto simp: best_of_None best_of_filter_kept split: option.split)
     (auto simp: best_of_def dest: find_SomeD)

section \<open>Properties of the engine\<close>

text \<open>
  C1: \<open>lookup_best\<close>, which sorts the matches by length, sorts again by reversed length and priority and
  takes the first reachable entry, computes the specification: of the entries that match the
  destination and are reachable, in insertion order, the first one that no other entry beats by
  prefix length or, at equal length, by source priority; and nothing when there is no such entry.
\<close>

theorem lookup_best_spec:
  "lookup_best g addr reachable = best_of (usable g addr reachable)
   \<and> (lookup_best g addr reachable = None \<longleftrightarrow> usable g addr reachable = [])"
  by (simp add: lookup_best_usable best_of_None)

text \<open>
  C24: withdrawing routes never redirects traffic that did not use them. For each of the seven removal
  operations: where there was no route there is still none, a best route that is not among the
  removed ones stays the best route, and a removed one is not returned any more.
\<close>

theorem removals_undisturbing:
  "removes_only (\<lambda>g. remove_mesh_node g n) (\<lambda>e. re_source e = Mesh \<and> re_via e = ViaMesh n) g addr reachable
   \<and> removes_only (\<lambda>g. snd (remove_dn42_route g p peer))
       (\<lambda>e. re_prefix e = p \<and> re_source e = Dn42 \<and> re_via e = ViaDn42 peer) g addr reachable
   \<and> removes_only (\<lambda>g. remove_dn42_peer g peer) (\<lambda>e. re_source e = Dn42 \<and> re_via e = ViaDn42 peer) g addr reachable
   \<and> removes_only (\<lambda>g. remove_tailnet_peer g peer)
       (\<lambda>e. re_source e = Tailnet \<and> re_via e = ViaTailnet peer) g addr reachable
   \<and> removes_only reset_mesh_routes (\<lambda>e. re_source e = Mesh) g addr reachable
   \<and> removes_only reset_dyn_dn42_routes (\<lambda>e. re_source e = DynDn42) g addr reachable
   \<and> removes_only (\<lambda>g. remove_dyn_dn42_node g n)
       (\<lambda>e. re_source e = DynDn42 \<and> re_via e = ViaMesh n) g addr reachable"
  using removes_only_where by (simp add: removal_defs [abs_def])

section \<open>Properties of the resolver\<close>

definition exit_sources :: "default_route_resolver \<Rightarrow> exit_source list" where
  "exit_sources d = filter (\<lambda>s. \<not> (s = ExitMesh \<and> self_exit d)) (preference d)"

lemma resolve_from_find:
  "resolve_from d reachable srcs
     = find reachable (concat (map (exit_candidates d) (filter (\<lambda>s. \<not> (s = ExitMesh \<and> self_exit d)) srcs)))"
  by (induction srcs) (auto simp: find_append split: option.split)

text \<open>
  C23: the default route is the first reachable exit along the preference order, each source's
  candidates in their own order, with the mesh source left out on a node that is itself a mesh exit;
  so such a node never forwards a missed packet to another mesh exit, whatever is reachable.
\<close>

theorem resolve_spec:
  "resolve d reachable = find reachable (concat (map (exit_candidates d) (exit_sources d)))
   \<and> resolve (set_mesh_exits d exits True) reachable \<noteq> Some (ViaMesh n)"
proof -
  have "ViaMesh n \<notin> set (concat (map (exit_candidates (set_mesh_exits d exits True))
          (exit_sources (set_mesh_exits d exits True))))"
  proof -
    have "ViaMesh n \<notin> set (exit_candidates d' s)" if "s \<noteq> ExitMesh" for d' s
      using that by (cases s) auto
    then show ?thesis by (auto simp: exit_sources_def set_mesh_exits_def)
  qed
  moreover have "resolve d reachable = find reachable (concat (map (exit_candidates d) (exit_sources d)))" for d
    by (simp add: resolve_def resolve_from_find exit_sources_def)
  ultimately show ?thesis by (metis find_SomeD)
qed

end
