(* ===== verification/Crypto.thy ===== *)
theory Crypto
  imports Prelude
begin

unbundle bit_operations_syntax

text \<open>
  \<^verbatim>\<open>src/rill-core/src/crypto/mod.rs\<close>: SipHash-2-4 and the route MAC built from it, the key derivations, the
  AEAD wrappers that work in a buffer, and the nonce layout. HKDF, ChaCha20-Poly1305 and X25519 are
  external crates: they are the fields of a record \<open>prims\<close> every definition that uses them takes as an
  argument, and their documented behaviour is stated in the predicates \<open>hkdf_ok\<close>, \<open>aead_ok\<close> and \<open>dh_ok\<close>.
\<close>

section \<open>The external primitives\<close>

text \<open>
  \<open>hkdf p salt ikm info n\<close> are the \<open>n\<close> bytes \<open>Hkdf::<Sha256>::new(salt, ikm).expand(info, ..)\<close> writes.
  \<open>encrypt p key nonce aad msg\<close> is \<open>encrypt_inout_detached\<close>: the tag, or nothing when it fails, and the
  buffer afterwards. \<open>decrypt p key nonce aad msg tag\<close> is \<open>decrypt_inout_detached\<close>: whether it succeeded,
  and the buffer afterwards. \<open>x25519 p scalar point\<close> is the Diffie-Hellman function
  and \<open>hmac p key msg\<close> is HMAC-SHA-256.
\<close>

record prims =
  hkdf :: "byte list option \<Rightarrow> byte list \<Rightarrow> byte list \<Rightarrow> nat \<Rightarrow> byte list"
  encrypt :: "byte list \<Rightarrow> byte list \<Rightarrow> byte list \<Rightarrow> byte list \<Rightarrow> byte list option \<times> byte list"
  decrypt :: "byte list \<Rightarrow> byte list \<Rightarrow> byte list \<Rightarrow> byte list \<Rightarrow> byte list \<Rightarrow> bool \<times> byte list"
  x25519 :: "byte list \<Rightarrow> byte list \<Rightarrow> byte list"
  hmac :: "byte list \<Rightarrow> byte list \<Rightarrow> byte list"

definition hkdf_ok :: "prims \<Rightarrow> bool" where
  "hkdf_ok p \<longleftrightarrow> (\<forall>s k i n. length (hkdf p s k i n) = n)"

text \<open>What was encrypted decrypts to itself under the same key, nonce and associated data; neither
  direction changes the length; the tag has 16 bytes; a failed decryption leaves the buffer alone.\<close>

definition aead_ok :: "prims \<Rightarrow> bool" where
  "aead_ok p \<longleftrightarrow>
     (\<forall>k n a m t c. encrypt p k n a m = (Some t, c) \<longrightarrow>
        length t = 16 \<and> length c = length m \<and> decrypt p k n a c t = (True, m))
   \<and> (\<forall>k n a c t m. decrypt p k n a c t = (True, m) \<longrightarrow> length m = length c)
   \<and> (\<forall>k n a c t m. decrypt p k n a c t = (False, m) \<longrightarrow> m = c)"

definition dh_ok :: "prims \<Rightarrow> byte list \<Rightarrow> bool" where
  "dh_ok p base \<longleftrightarrow> (\<forall>a b. x25519 p a (x25519 p b base) = x25519 p b (x25519 p a base))"

datatype aead_error = AeadError

section \<open>SipHash-2-4\<close>

type_synonym sip_state = "u64 \<times> u64 \<times> u64 \<times> u64"

fun sip_round :: "sip_state \<Rightarrow> sip_state" where
  "sip_round (v0, v1, v2, v3) =
     (let v0 = v0 + v1;
          v1 = word_rotl 13 v1;
          v1 = v1 XOR v0;
          v0 = word_rotl 32 v0;
          v2 = v2 + v3;
          v3 = word_rotl 16 v3;
          v3 = v3 XOR v2;
          v0 = v0 + v3;
          v3 = word_rotl 21 v3;
          v3 = v3 XOR v0;
          v2 = v2 + v1;
          v1 = word_rotl 17 v1;
          v1 = v1 XOR v2;
          v2 = word_rotl 32 v2
      in (v0, v1, v2, v3))"

text \<open>One message word: \<open>v3 ^= m\<close>, two rounds, \<open>v0 ^= m\<close>.\<close>

definition sip_absorb :: "u64 \<Rightarrow> sip_state \<Rightarrow> sip_state" where
  "sip_absorb m st =
     (case st of (v0, v1, v2, v3) \<Rightarrow>
      case (sip_round ^^ 2) (v0, v1, v2, v3 XOR m) of (v0, v1, v2, v3) \<Rightarrow> (v0 XOR m, v1, v2, v3))"

definition sip_init :: "byte list \<Rightarrow> sip_state" where
  "sip_init key =
     (let k0 = getle64 (slice 0 8 key); k1 = getle64 (slice 8 16 key)
      in (0x736f6d6570736575 XOR k0, 0x646f72616e646f6d XOR k1,
          0x6c7967656e657261 XOR k0, 0x7465646279746573 XOR k1))"

function sip_loop :: "byte list \<Rightarrow> nat \<Rightarrow> sip_state \<Rightarrow> nat \<times> sip_state" where
  "sip_loop data i st =
     (if i + 8 \<le> length data then sip_loop data (i + 8) (sip_absorb (getle64 (slice i (i + 8) data)) st)
      else (i, st))"
  by auto
termination by (relation "measure (\<lambda>(data, i, st). length data - i)") auto

fun sip_tail :: "nat \<Rightarrow> byte list \<Rightarrow> u64 \<Rightarrow> u64" where
  "sip_tail j [] b = b"
| "sip_tail j (x # xs) b = sip_tail (Suc j) xs (b OR push_bit (8 * j) (ucast x))"

definition sip_finish :: "sip_state \<Rightarrow> u64" where
  "sip_finish st =
     (case st of (v0, v1, v2, v3) \<Rightarrow>
      case (sip_round ^^ 4) (v0, v1, v2 XOR 0xff, v3) of (v0, v1, v2, v3) \<Rightarrow> v0 XOR v1 XOR v2 XOR v3)"

definition siphash_2_4 :: "byte list \<Rightarrow> byte list \<Rightarrow> u64" where
  "siphash_2_4 key data =
     (let b = push_bit 56 (word_of_nat (length data));
          (i, st) = sip_loop data 0 (sip_init key);
          b = sip_tail 0 (drop i data) b
      in sip_finish (sip_absorb b st))"

section \<open>Key derivation\<close>

text \<open>The ASCII codes of a byte string literal.\<close>

definition ascii :: "string \<Rightarrow> byte list" where
  "ascii s = map (\<lambda>c. word_of_nat (of_char c)) s"

definition key_dst_info :: "u32 \<Rightarrow> byte list" where
  "key_dst_info to_node_id = ascii ''key_dst'' @ be32 to_node_id"

definition derive_key_dst :: "prims \<Rightarrow> byte list \<Rightarrow> u32 \<Rightarrow> byte list" where
  "derive_key_dst p master_key to_node_id = hkdf p None master_key (key_dst_info to_node_id) 32"

definition key_path_info :: "u64 \<Rightarrow> u32 \<Rightarrow> byte list" where
  "key_path_info path_id path_epoch = ascii ''key_path'' @ be64 path_id @ be32 path_epoch"

definition derive_key_path :: "prims \<Rightarrow> byte list \<Rightarrow> u64 \<Rightarrow> u32 \<Rightarrow> byte list" where
  "derive_key_path p master_key path_id path_epoch =
     hkdf p None master_key (key_path_info path_id path_epoch) 32"

definition derive_sip_key :: "prims \<Rightarrow> byte list \<Rightarrow> u8 \<Rightarrow> byte list" where
  "derive_sip_key p key_dst index = slice 0 16 (hkdf p None key_dst (ascii ''sipkey'' @ [index]) 32)"

definition route_mac :: "prims \<Rightarrow> byte list \<Rightarrow> byte list \<Rightarrow> byte list" where
  "route_mac p key_dst auth_input =
     (let k1 = derive_sip_key p key_dst 0; k2 = derive_sip_key p key_dst 1
      in le64 (siphash_2_4 k1 auth_input) @ le64 (siphash_2_4 k2 auth_input))"

definition derive_challenge_key :: "prims \<Rightarrow> byte list \<Rightarrow> byte list \<Rightarrow> byte list" where
  "derive_challenge_key p shared_secret nonce_bytes = hkdf p (Some nonce_bytes) shared_secret [] 32"

definition x25519_shared :: "prims \<Rightarrow> byte list \<Rightarrow> byte list \<Rightarrow> byte list" where
  "x25519_shared p static_priv peer_pub = x25519 p static_priv peer_pub"

section \<open>AEAD in a buffer\<close>

definition nonce :: "u32 \<Rightarrow> u64 \<Rightarrow> byte list" where
  "nonce salt counter = be32 salt @ be64 counter"

text \<open>The buffer is returned with the result, since the caller sees it after an error too.\<close>

definition seal_in_place :: "prims \<Rightarrow> byte list \<Rightarrow> u32 \<Rightarrow> u64 \<Rightarrow> byte list \<Rightarrow> byte list \<Rightarrow> nat
    \<Rightarrow> (aead_error, nat) outcome \<times> byte list" where
  "seal_in_place p key salt counter aad buf pt_len =
     (if length buf < pt_len \<or> length buf - pt_len < 16 then (Err AeadError, buf)
      else case encrypt p key (nonce salt counter) aad (take pt_len buf) of
        (None, msg) \<Rightarrow> (Err AeadError, msg @ drop pt_len buf)
      | (Some tag, msg) \<Rightarrow> (Ok (pt_len + 16), msg @ tag @ drop (pt_len + 16) buf))"

definition open_in_place :: "prims \<Rightarrow> byte list \<Rightarrow> u32 \<Rightarrow> u64 \<Rightarrow> byte list \<Rightarrow> byte list \<Rightarrow> nat
    \<Rightarrow> (aead_error, nat) outcome \<times> byte list" where
  "open_in_place p key salt counter aad buf ct_len =
     (if length buf < ct_len \<or> ct_len < 16 then (Err AeadError, buf)
      else let pt_len = ct_len - 16; tag = slice pt_len (pt_len + 16) buf in
        case decrypt p key (nonce salt counter) aad (take pt_len buf) tag of
          (False, msg) \<Rightarrow> (Err AeadError, msg @ drop pt_len buf)
        | (True, msg) \<Rightarrow> (Ok pt_len, msg @ drop pt_len buf))"

definition seal :: "prims \<Rightarrow> byte list \<Rightarrow> u32 \<Rightarrow> u64 \<Rightarrow> byte list \<Rightarrow> byte list
    \<Rightarrow> (aead_error, byte list) outcome" where
  "seal p key salt counter aad plaintext =
     (case seal_in_place p key salt counter aad (plaintext @ replicate 16 0) (length plaintext) of
        (r, out) \<Rightarrow> obind r (\<lambda>_. Ok out))"

definition aead_open :: "prims \<Rightarrow> byte list \<Rightarrow> u32 \<Rightarrow> u64 \<Rightarrow> byte list \<Rightarrow> byte list
    \<Rightarrow> (aead_error, byte list) outcome" where
  "aead_open p key salt counter aad ciphertext =
     (case open_in_place p key salt counter aad ciphertext (length ciphertext) of
        (r, out) \<Rightarrow> obind r (\<lambda>n. Ok (take n out)))"

section \<open>A concrete instance\<close>

text \<open>
  An instance of the primitives, with a one-byte checksum for every keyed function: it satisfies the
  documented behaviour, so the hypotheses stated with it are satisfiable. It is used in examples only.
\<close>

definition toy_tag :: "byte list \<Rightarrow> byte list" where
  "toy_tag bs = replicate 16 (sum_list bs)"

definition toy_prims :: prims where
  "toy_prims =
     \<lparr>hkdf = (\<lambda>s k i n. replicate n (sum_list (case s of None \<Rightarrow> [] | Some b \<Rightarrow> b) + sum_list k + 3 * sum_list i)),
      encrypt = (\<lambda>k n a m. (Some (toy_tag (k @ n @ a @ m)), m)),
      decrypt = (\<lambda>k n a c t. (t = toy_tag (k @ n @ a @ c), c)),
      x25519 = (\<lambda>a b. replicate 32 (sum_list a * hd (b @ [0]))),
      hmac = (\<lambda>k m. replicate 32 (sum_list k + sum_list m))\<rparr>"

lemma toy_hkdf_ok: "hkdf_ok toy_prims"
  by (simp add: hkdf_ok_def toy_prims_def)

lemma toy_aead_ok: "aead_ok toy_prims"
  by (auto simp: aead_ok_def toy_prims_def toy_tag_def)

lemma toy_dh_ok: "dh_ok toy_prims base"
  by (auto simp: dh_ok_def toy_prims_def mult.left_commute)

section \<open>SipHash against its definition\<close>

text \<open>Little-endian reads as disjunctions of shifted bytes.\<close>

lemma add_eq_or_byte: "unat (x :: byte) + 256 * q = unat x OR push_bit 8 q"
proof -
  have "unat x AND push_bit 8 q = 0"
    by (rule bit_eqI) (auto simp: bit_and_iff bit_push_bit_iff bit_simps dest: bit_imp_le_length)
  from disjunctive_add_eq_or [OF this] show ?thesis by (simp add: push_bit_eq_mult mult.commute)
qed

lemma word_of_nat_or: "(word_of_nat (a OR b) :: 'a::len word) = word_of_nat a OR word_of_nat b"
  by (rule bit_word_eqI) (simp add: bit_simps)

lemma word_of_nat_push: "(word_of_nat (push_bit n a) :: 'a::len word) = push_bit n (word_of_nat a)"
  by (rule bit_word_eqI) (auto simp: bit_simps)

lemma word_of_nat_unat_ucast: "(word_of_nat (unat (x :: 'b :: len word)) :: 'a::len word) = ucast x"
  by (rule bit_word_eqI) (auto simp: bit_simps)

lemma getle64_append:
  "getle64 (xs @ ys) = getle64 xs OR push_bit (8 * length xs) (getle64 ys)"
proof (induction xs)
  case Nil then show ?case by (simp add: getle64_def)
next
  case (Cons x xs)
  have "getle64 (x # zs) = ucast x OR push_bit 8 (getle64 zs)" for zs
    by (simp add: getle64_def add_eq_or_byte word_of_nat_or word_of_nat_push word_of_nat_unat_ucast del: of_nat_add of_nat_mult)
  with Cons show ?case by (simp add: push_bit_or or.assoc)
qed

lemma sip_tail_getle64: "sip_tail j xs b = b OR push_bit (8 * j) (getle64 xs)"
proof (induction xs arbitrary: j b)
  case Nil then show ?case by (simp add: getle64_def)
next
  case (Cons x xs)
  have "getle64 [x] = ucast x" by (simp add: getle64_def word_of_nat_unat_ucast)
  then show ?case using Cons getle64_append [of "[x]" xs] by (simp add: push_bit_or or.assoc add.commute)
qed

lemma getle64_replicate_zero: "getle64 (replicate n 0) = 0"
  by (simp add: getle64_def flip: to_le_zero) (simp add: of_le_to_le)

text \<open>
  The definition of SipHash: the message is padded with zeros and its length modulo 256 to a multiple
  of eight bytes and absorbed word by word.
\<close>

fun chunks :: "byte list \<Rightarrow> byte list list" where
  "chunks (a # b # c # d # e # f # g # h # rest) = [a, b, c, d, e, f, g, h] # chunks rest"
| "chunks _ = []"

definition sip_padded :: "byte list \<Rightarrow> byte list" where
  "sip_padded data = data @ replicate (7 - length data mod 8) 0 @ [word_of_nat (length data)]"

definition siphash_ref :: "byte list \<Rightarrow> byte list \<Rightarrow> u64" where
  "siphash_ref key data =
     sip_finish (fold (\<lambda>blk. sip_absorb (getle64 blk)) (chunks (sip_padded data)) (sip_init key))"

lemma chunks_append: "length xs = 8 \<Longrightarrow> chunks (xs @ ys) = xs # chunks ys"
  by (auto simp: eval_nat_numeral length_Suc_conv)

declare sip_loop.simps [simp del]

lemma sip_loop_fold:
  assumes "sip_loop data i st = (j, st')" and "i \<le> length data"
  shows "j \<le> length data \<and> length data - j = (length data - i) mod 8 \<and>
     fold (\<lambda>blk. sip_absorb (getle64 blk)) (chunks (drop i data @ z)) st
       = fold (\<lambda>blk. sip_absorb (getle64 blk)) (chunks (drop j data @ z)) st'"
  using assms
proof (induction data i st rule: sip_loop.induct)
  case (1 data i st)
  show ?case
  proof (cases "i + 8 \<le> length data")
    case True
    let ?m = "slice i (i + 8) data"
    have d: "drop i data = ?m @ drop (i + 8) data"
      using append_take_drop_id [of 8 "drop i data"] by (simp add: slice_def add.commute)
    have "length ?m = 8" using True by simp
    then have "chunks (drop i data @ z) = ?m # chunks (drop (i + 8) data @ z)"
      by (simp only: d append_assoc chunks_append)
    moreover have "(length data - i) mod 8 = (length data - (i + 8)) mod 8"
      using True mod_add_self2 [of "length data - (i + 8)" 8] by simp
    moreover have "sip_loop data (i + 8) (sip_absorb (getle64 ?m) st) = (j, st')"
      using 1 True by (subst (asm) sip_loop.simps) simp
    ultimately show ?thesis using 1(1) [OF True] True by simp
  next
    case False
    then show ?thesis using 1 by (subst (asm) sip_loop.simps) simp
  qed
qed


section \<open>Domain separation and the AEAD wrappers\<close>

lemma nonce_inject: "nonce s c = nonce s' c' \<longleftrightarrow> s = s' \<and> c = c'"
  by (auto simp: nonce_def)

lemma length_ascii [simp]: "length (ascii s) = length s"
  by (simp add: ascii_def)

lemma key_info_inject:
  "key_dst_info n = key_dst_info n' \<longleftrightarrow> n = n'"
  "key_path_info i e = key_path_info i' e' \<longleftrightarrow> i = i' \<and> e = e'"
  by (auto simp: key_dst_info_def key_path_info_def)

lemma key_info_disjoint: "key_dst_info n \<noteq> key_path_info i e"
proof
  assume "key_dst_info n = key_path_info i e"
  then have "length (key_dst_info n) = length (key_path_info i e)" by simp
  then show False by (simp add: key_dst_info_def key_path_info_def)
qed

lemma length_route_mac [simp]: "length (route_mac p k a) = 16"
  by (simp add: route_mac_def Let_def)

lemma aead_okD:
  assumes "aead_ok p"
  shows "encrypt p k n a m = (Some t, c) \<Longrightarrow> length t = 16 \<and> length c = length m \<and> decrypt p k n a c t = (True, m)"
    and "decrypt p k n a c t = (True, m) \<Longrightarrow> length m = length c"
    and "decrypt p k n a c t = (False, m) \<Longrightarrow> m = c"
  using assms unfolding aead_ok_def by blast+

lemma aead_open_eq:
  "aead_open p k s n a ct =
     (if length ct < 16 then Err AeadError
      else case decrypt p k (nonce s n) a (take (length ct - 16) ct) (drop (length ct - 16) ct) of
        (False, _) \<Rightarrow> Err AeadError
      | (True, msg) \<Rightarrow> Ok (take (length ct - 16) (msg @ drop (length ct - 16) ct)))"
  by (simp add: aead_open_def open_in_place_def slice_def Let_def split: prod.splits bool.splits)

lemma seal_eq:
  "seal p k s n a m =
     (case encrypt p k (nonce s n) a m of (None, _) \<Rightarrow> Err AeadError | (Some t, c) \<Rightarrow> Ok (c @ t))"
  by (simp add: seal_def seal_in_place_def split: prod.splits option.splits)

lemma open_seal:
  assumes "aead_ok p" and "seal p k s n a m = Ok ct"
  shows "length ct = length m + 16 \<and> aead_open p k s n a ct = Ok m"
  using assms(2) aead_okD [OF assms(1)]
  by (auto simp: seal_eq aead_open_eq split: prod.splits option.splits bool.splits)

lemma open_in_place_open:
  assumes "aead_ok p" and "open_in_place p k s n a buf (length buf) = (r, buf')"
  shows "length buf' = length buf
    \<and> (case r of Ok m \<Rightarrow> m + 16 = length buf \<and> aead_open p k s n a buf = Ok (take m buf')
       | Err e \<Rightarrow> aead_open p k s n a buf = Err AeadError \<and> buf' = buf
       | Panic \<Rightarrow> False)"
proof -
  obtain ok msg where d: "decrypt p k (nonce s n) a (take (length buf - 16) buf) (drop (length buf - 16) buf) = (ok, msg)"
    by (meson surj_pair)
  then have "ok \<Longrightarrow> length msg = length buf - 16" "\<not> ok \<Longrightarrow> msg = take (length buf - 16) buf"
    using aead_okD(2,3) [OF assms(1)] by fastforce+
  then show ?thesis
    using assms(2) d by (cases ok) (auto simp: open_in_place_def aead_open_eq slice_def Let_def split: if_splits)
qed

end
