(* ===== verification/Frame.thy ===== *)
theory Frame
  imports Crypto
begin

unbundle bit_operations_syntax

text \<open>
  The 42-byte mesh frame of \<^verbatim>\<open>src/rill-core/src/frame/mod.rs\<close> and \<^verbatim>\<open>frame/wire.rs\<close>: header layout, the authenticated
  part of the header, sealed and unsealed frames, forwarding, and the two ways to open a frame (into a
  new buffer or in place). The replay window of the same file is in \<open>Replay_Window\<close>.
\<close>

section \<open>Header\<close>

abbreviation (input) HEADER_LEN :: nat where "HEADER_LEN \<equiv> 42"
abbreviation (input) TAG_LEN :: nat where "TAG_LEN \<equiv> 16"
abbreviation (input) FRAME_VERSION :: u8 where "FRAME_VERSION \<equiv> 1"
abbreviation (input) AUTH_INPUT_LEN :: nat where "AUTH_INPUT_LEN \<equiv> 26"

abbreviation (input) PT_UNICAST :: u8 where "PT_UNICAST \<equiv> 1"
abbreviation (input) PT_HANDSHAKE :: u8 where "PT_HANDSHAKE \<equiv> 2"

datatype decode_error = Truncated
datatype open_error = ODecode decode_error | OVersion | ORouteMac | OTruncatedPayload | OAead aead_error

record mesh_frame_header =
  h_version :: u8
  h_packet_type :: u8
  h_flags :: u8
  h_ttl :: u8
  h_to_node_id :: u32
  h_from_node_id :: u32
  h_seq :: u32
  h_len :: u16
  h_path_id :: u64
  h_route_mac :: "byte list"

definition header_default :: mesh_frame_header where
  "header_default =
     \<lparr>h_version = FRAME_VERSION, h_packet_type = PT_UNICAST, h_flags = 0, h_ttl = 64, h_to_node_id = 0,
      h_from_node_id = 0, h_seq = 0, h_len = 0, h_path_id = 0, h_route_mac = replicate 16 0\<rparr>"

text \<open>The bytes of the packed \<open>WireHeader\<close> built from a header, and the view of a buffer's prefix.\<close>

definition wire_bytes :: "mesh_frame_header \<Rightarrow> byte list" where
  "wire_bytes h =
     [h_version h, h_packet_type h, h_flags h, h_ttl h] @ be32 (h_to_node_id h) @ be32 (h_from_node_id h)
     @ be32 (h_seq h) @ be16 (h_len h) @ be64 (h_path_id h) @ h_route_mac h"

definition wire_parse :: "byte list \<Rightarrow> (decode_error, mesh_frame_header) outcome" where
  "wire_parse buf =
     (if length buf < HEADER_LEN then Err Truncated
      else Ok \<lparr>h_version = buf ! 0, h_packet_type = buf ! 1, h_flags = buf ! 2, h_ttl = buf ! 3,
               h_to_node_id = get32 (slice 4 8 buf), h_from_node_id = get32 (slice 8 12 buf),
               h_seq = get32 (slice 12 16 buf), h_len = get16 (slice 16 18 buf),
               h_path_id = get64 (slice 18 26 buf), h_route_mac = slice 26 42 buf\<rparr>)"

definition header_encode :: "mesh_frame_header \<Rightarrow> byte list \<Rightarrow> ('e, byte list) outcome" where
  "header_encode h out = (if length out < HEADER_LEN then Panic else Ok (wire_bytes h @ drop HEADER_LEN out))"

definition header_decode :: "byte list \<Rightarrow> (decode_error, mesh_frame_header) outcome" where
  "header_decode buf = wire_parse buf"

definition auth_input :: "mesh_frame_header \<Rightarrow> byte list" where
  "auth_input h = (take AUTH_INPUT_LEN (wire_bytes h))[3 := 0]"

section \<open>Frames\<close>

definition build_frame :: "prims \<Rightarrow> mesh_frame_header \<Rightarrow> byte list \<Rightarrow> byte list \<Rightarrow> u32 \<Rightarrow> byte list
    \<Rightarrow> (aead_error, byte list) outcome" where
  "build_frame p header key_dst session_key salt payload =
     (let h = header\<lparr>h_len := word_of_nat (length payload + TAG_LEN)\<rparr>;
          ai = auth_input h;
          h = h\<lparr>h_route_mac := route_mac p key_dst ai\<rparr>;
          out = replicate (HEADER_LEN + length payload + TAG_LEN) 0
      in obind (header_encode h out) (\<lambda>out.
           let out = take HEADER_LEN out @ payload @ drop (HEADER_LEN + length payload) out in
           case seal_in_place p session_key salt (ucast (h_seq h)) ai (drop HEADER_LEN out) (length payload) of
             (r, buf) \<Rightarrow> obind r (\<lambda>_. Ok (take HEADER_LEN out @ buf))))"

definition build_unsealed_frame :: "prims \<Rightarrow> mesh_frame_header \<Rightarrow> byte list \<Rightarrow> byte list
    \<Rightarrow> ('e, byte list) outcome" where
  "build_unsealed_frame p header route_key payload =
     (let h = header\<lparr>h_len := word_of_nat (length payload)\<rparr>;
          ai = auth_input h;
          h = h\<lparr>h_route_mac := route_mac p route_key ai\<rparr>;
          out = replicate (HEADER_LEN + length payload) 0
      in obind (header_encode h out) (\<lambda>out. Ok (take HEADER_LEN out @ payload)))"

definition build_handshake_frame :: "prims \<Rightarrow> mesh_frame_header \<Rightarrow> byte list \<Rightarrow> byte list
    \<Rightarrow> ('e, byte list) outcome" where
  "build_handshake_frame p header key_dst payload =
     build_unsealed_frame p (header\<lparr>h_path_id := 0, h_packet_type := PT_HANDSHAKE\<rparr>) key_dst payload"

definition frame_payload :: "byte list \<Rightarrow> byte list option" where
  "frame_payload frame =
     (case wire_parse frame of
        Ok h \<Rightarrow> get_range 0 (unat (h_len h)) (drop HEADER_LEN frame)
      | _ \<Rightarrow> None)"

definition decrement_ttl :: "byte list \<Rightarrow> byte list" where
  "decrement_ttl frame = (if length frame < HEADER_LEN then frame else frame[3 := frame ! 3 - 1])"

definition validate_frame :: "prims \<Rightarrow> byte list \<Rightarrow> byte list
    \<Rightarrow> (open_error, mesh_frame_header \<times> nat \<times> nat) outcome" where
  "validate_frame p frame key_dst =
     obind (omap_err ODecode (wire_parse frame)) (\<lambda>w.
       if h_version w \<noteq> FRAME_VERSION then Err OVersion
       else let ai = auth_input w in
         if route_mac p key_dst ai \<noteq> h_route_mac w then Err ORouteMac
         else let fin = HEADER_LEN + unat (h_len w) in
           if length frame < fin then Err OTruncatedPayload
           else Ok (w, HEADER_LEN, fin))"

text \<open>\<open>open_frame_in_place\<close> also returns the frame buffer as it is afterwards.\<close>

definition open_frame_in_place :: "prims \<Rightarrow> byte list \<Rightarrow> byte list \<Rightarrow> byte list \<Rightarrow> u32
    \<Rightarrow> (open_error, mesh_frame_header \<times> byte list) outcome \<times> byte list" where
  "open_frame_in_place p frame key_dst session_key salt =
     (case validate_frame p frame key_dst of
        Ok (header, hlen, fin) \<Rightarrow>
          let ai = auth_input header in
          (case open_in_place p session_key salt (ucast (h_seq header)) ai (slice hlen fin frame) (fin - hlen) of
             (r, buf) \<Rightarrow>
               let frame = take hlen frame @ buf @ drop fin frame in
               (obind (omap_err OAead r) (\<lambda>pt_len. Ok (header, slice hlen (hlen + pt_len) frame)), frame))
      | Err e \<Rightarrow> (Err e, frame)
      | Panic \<Rightarrow> (Panic, frame))"

definition open_frame :: "prims \<Rightarrow> byte list \<Rightarrow> byte list \<Rightarrow> byte list \<Rightarrow> u32
    \<Rightarrow> (open_error, mesh_frame_header \<times> byte list) outcome" where
  "open_frame p frame key_dst session_key salt =
     obind (validate_frame p frame key_dst) (\<lambda>(header, hlen, fin).
       let ai = auth_input header in
       obind (omap_err OAead (aead_open p session_key salt (ucast (h_seq header)) ai (slice hlen fin frame)))
         (\<lambda>payload. Ok (header, payload)))"

section \<open>Path probes\<close>

record path_probe_payload =
  pp_nonce :: u32
  pp_sent_ms :: u64
  pp_response :: bool

definition path_probe_encode :: "path_probe_payload \<Rightarrow> byte list" where
  "path_probe_encode q = be32 (pp_nonce q) @ be64 (pp_sent_ms q) @ [if pp_response q then 1 else 0]"

definition path_probe_decode :: "byte list \<Rightarrow> path_probe_payload option" where
  "path_probe_decode buf =
     (if length buf \<noteq> 13 then None
      else Some \<lparr>pp_nonce = get32 (slice 0 4 buf), pp_sent_ms = get64 (slice 4 12 buf),
                 pp_response = (buf ! 12 AND 1 = 1)\<rparr>)"

section \<open>Header lemmas\<close>

abbreviation mac_ok :: "mesh_frame_header \<Rightarrow> bool" where
  "mac_ok h \<equiv> length (h_route_mac h) = 16"

lemma length_wire_bytes: "length (wire_bytes h) = 26 + length (h_route_mac h)"
  by (simp add: wire_bytes_def)

lemma wire_parse_wire_bytes:
  assumes "mac_ok h"
  shows "wire_parse (wire_bytes h @ rest) = Ok h"
  using assms
  by (simp add: wire_parse_def wire_bytes_def slice_append_left slice_append_right slice_prefix slice_def nth_append)

lemma slice4: "4 \<le> length xs \<Longrightarrow> slice 0 4 xs = [xs ! 0, xs ! 1, xs ! 2, xs ! 3]"
proof -
  assume "4 \<le> length xs"
  then obtain a b c d ys where "xs = a # b # c # d # ys"
    by (auto simp: eval_nat_numeral Suc_le_length_iff)
  then show ?thesis by (simp add: slice_def)
qed

lemma wire_bytes_wire_parse:
  assumes "wire_parse buf = Ok h"
  shows "42 \<le> length buf \<and> mac_ok h \<and> wire_bytes h = take 42 buf"
proof -
  have l: "42 \<le> length buf" using assms by (auto simp: wire_parse_def split: if_splits)
  have "[buf ! 0, buf ! 1, buf ! 2, buf ! 3] = slice 0 4 buf"
    using l slice4 [of buf] by simp
  then have "wire_bytes h = slice 0 4 buf @ slice 4 8 buf @ slice 8 12 buf @ slice 12 16 buf @ slice 16 18 buf
      @ slice 18 26 buf @ slice 26 42 buf"
    using assms l by (auto simp: wire_parse_def wire_bytes_def be_get32 be_get16 be_get64)
  also have "\<dots> = slice 0 42 buf" by (simp add: slice_join)
  finally show ?thesis using assms l by (auto simp: wire_parse_def slice_def)
qed

interpretation hdr: fixed_codec wire_bytes "\<lambda>b. case wire_parse b of Ok h \<Rightarrow> Some h | _ \<Rightarrow> None" 42 mac_ok
proof
  show "mac_ok h \<Longrightarrow> length (wire_bytes h) = 42" for h by (simp add: length_wire_bytes)
  show "mac_ok h \<Longrightarrow> (case wire_parse (wire_bytes h @ rest) of Ok h \<Rightarrow> Some h | _ \<Rightarrow> None) = Some h" for h rest
    by (simp add: wire_parse_wire_bytes)
  show "length bs < 42 \<Longrightarrow> (case wire_parse bs of Ok h \<Rightarrow> Some h | _ \<Rightarrow> None) = None" for bs
    by (simp add: wire_parse_def)
  show "(case wire_parse bs of Ok h \<Rightarrow> Some h | _ \<Rightarrow> None) = Some h \<Longrightarrow> mac_ok h \<and> wire_bytes h = take 42 bs" for bs h
    using wire_bytes_wire_parse [of bs h] by (auto split: outcome.splits)
qed

lemma auth_input_eq:
  "auth_input h = [h_version h, h_packet_type h, h_flags h, 0] @ be32 (h_to_node_id h) @ be32 (h_from_node_id h)
     @ be32 (h_seq h) @ be16 (h_len h) @ be64 (h_path_id h)"
  by (simp add: auth_input_def wire_bytes_def)

lemma auth_input_update [simp]:
  "auth_input (h\<lparr>h_ttl := t\<rparr>) = auth_input h" "auth_input (h\<lparr>h_route_mac := m\<rparr>) = auth_input h"
  by (simp_all add: auth_input_eq)

lemma auth_input_inject:
  "auth_input h = auth_input h' \<longleftrightarrow>
     h_version h = h_version h' \<and> h_packet_type h = h_packet_type h' \<and> h_flags h = h_flags h'
     \<and> h_to_node_id h = h_to_node_id h' \<and> h_from_node_id h = h_from_node_id h' \<and> h_seq h = h_seq h'
     \<and> h_len h = h_len h' \<and> h_path_id h = h_path_id h'"
  by (auto simp: auth_input_eq)

lemma decrement_ttl_wire:
  assumes "mac_ok h"
  shows "decrement_ttl (wire_bytes h @ body) = wire_bytes (h\<lparr>h_ttl := h_ttl h - 1\<rparr>) @ body"
  using assms by (simp add: decrement_ttl_def length_wire_bytes) (simp add: wire_bytes_def)

lemma decrement_ttl_wire_iter:
  assumes "mac_ok h"
  shows "(decrement_ttl ^^ n) (wire_bytes h @ body) = wire_bytes (h\<lparr>h_ttl := h_ttl h - word_of_nat n\<rparr>) @ body"
  using assms by (induction n) (simp_all add: decrement_ttl_wire diff_diff_eq add.commute)

section \<open>Building and opening\<close>

definition sealed_header :: "prims \<Rightarrow> mesh_frame_header \<Rightarrow> byte list \<Rightarrow> nat \<Rightarrow> mesh_frame_header" where
  "sealed_header p h route_key n =
     (let h = h\<lparr>h_len := word_of_nat n\<rparr> in h\<lparr>h_route_mac := route_mac p route_key (auth_input h)\<rparr>)"

lemma mac_ok_sealed_header [simp]: "mac_ok (sealed_header p h k n)"
  by (simp add: sealed_header_def Let_def)

lemma sealed_header_fields:
  "h_ttl (sealed_header p h k n) = h_ttl h" "h_version (sealed_header p h k n) = h_version h"
  "h_seq (sealed_header p h k n) = h_seq h"
  "h_route_mac (sealed_header p h k n) = route_mac p k (auth_input (sealed_header p h k n))"
  "n < 2 ^ 16 \<Longrightarrow> unat (h_len (sealed_header p h k n)) = n"
  by (simp_all add: sealed_header_def Let_def unat_of_nat)

lemma build_frame_eq:
  "build_frame p h key_dst session_key salt payload =
     (let h' = sealed_header p h key_dst (length payload + 16) in
      obind (seal p session_key salt (ucast (h_seq h')) (auth_input h') payload)
        (\<lambda>ct. Ok (wire_bytes h' @ ct)))"
  by (auto simp: build_frame_def seal_def sealed_header_def header_encode_def length_wire_bytes Let_def
      obind_assoc split: prod.splits)

lemma build_unsealed_frame_eq:
  "build_unsealed_frame p h route_key payload = Ok (wire_bytes (sealed_header p h route_key (length payload)) @ payload)"
  by (simp add: build_unsealed_frame_def sealed_header_def header_encode_def length_wire_bytes Let_def)

lemma validate_frame_wire:
  assumes "mac_ok h"
  shows "validate_frame p (wire_bytes h @ body) key_dst =
     (if h_version h \<noteq> 1 then Err OVersion
      else if route_mac p key_dst (auth_input h) \<noteq> h_route_mac h then Err ORouteMac
      else if length body < unat (h_len h) then Err OTruncatedPayload
      else Ok (h, 42, 42 + unat (h_len h)))"
  using assms by (simp add: validate_frame_def wire_parse_wire_bytes length_wire_bytes Let_def)

lemma open_frame_wire:
  assumes "mac_ok h" and "h_version h = 1" and "h_route_mac h = route_mac p key_dst (auth_input h)"
    and "unat (h_len h) = length ct"
  shows "open_frame p (wire_bytes h @ ct @ rest) key_dst session_key salt =
     obind (omap_err OAead (aead_open p session_key salt (ucast (h_seq h)) (auth_input h) ct)) (\<lambda>m. Ok (h, m))"
  using assms
  by (simp add: open_frame_def validate_frame_wire slice_append_right slice_prefix length_wire_bytes)

lemma validate_frame_not_Panic [simp]: "validate_frame p f key_dst \<noteq> Panic"
  by (auto simp: validate_frame_def wire_parse_def outcome_simps Let_def split: if_splits)

lemma open_frame_in_place_open_frame:
  assumes "aead_ok p" and "open_frame_in_place p f key_dst session_key salt = (r, f')"
  shows "r = open_frame p f key_dst session_key salt \<and> length f' = length f \<and> take 42 f' = take 42 f
     \<and> (\<not> is_ok r \<longrightarrow> f' = f)"
proof (cases "validate_frame p f key_dst")
  case (Ok x)
  obtain h a b where x: "x = (h, a, b)" by (cases x)
  have v: "a = 42" "b = 42 + unat (h_len h)" "b \<le> length f"
    using Ok x by (auto simp: validate_frame_def outcome_simps Let_def split: if_splits)
  obtain q buf where o: "open_in_place p session_key salt (ucast (h_seq h)) (auth_input h) (slice 42 b f) (b - 42) = (q, buf)"
    by (meson surj_pair)
  have s: "length (slice 42 b f) = b - 42" using v by simp
  note op = open_in_place_open [OF assms(1) o [folded s]]
  have f: "f = take 42 f @ slice 42 b f @ drop b f"
    using v append_take_drop_id [of 42 f] append_take_drop_id [of "b - 42" "drop 42 f"] by (simp add: slice_def add.commute)
  show ?thesis
    using assms(2) Ok x v o op f
    by (cases q) (auto simp: open_frame_in_place_def open_frame_def Let_def slice_def intro: aead_error.exhaust)
qed (use assms in \<open>auto simp: open_frame_in_place_def open_frame_def\<close>)

lemma open_frame_in_place_payload:
  assumes "aead_ok p" and "open_frame_in_place p f key_dst session_key salt = (Ok (h, pl), f')"
  shows "slice 42 (42 + length pl) f' = pl"
proof -
  have sl: "length (slice 42 (42 + n) xs) \<le> n \<and> slice 42 (42 + length (slice 42 (42 + n) xs)) xs = slice 42 (42 + n) xs"
    for n and xs :: "byte list"
    by (simp add: slice_def min_def)
  obtain x where v: "validate_frame p f key_dst = Ok x"
    using assms(2) by (cases "validate_frame p f key_dst") (auto simp: open_frame_in_place_def)
  obtain h' a b where x: "x = (h', a, b)" by (cases x)
  have a: "a = 42" using v x by (auto simp: validate_frame_def outcome_simps Let_def split: if_splits)
  obtain q buf where o: "open_in_place p session_key salt (ucast (h_seq h')) (auth_input h') (slice a b f) (b - a) = (q, buf)"
    by (meson surj_pair)
  obtain n where "q = Ok n" and "pl = slice 42 (42 + n) f'"
    using assms(2) by (cases q) (auto simp: open_frame_in_place_def v x o a [symmetric] Let_def)
  then show ?thesis using sl by simp
qed

lemma toy_build_frame: "\<exists>f. build_frame toy_prims h key_dst session_key salt payload = Ok f"
  by (simp add: build_frame_eq seal_eq toy_prims_def Let_def)

lemma validate_frame_iff:
  "validate_frame p f key_dst = Ok (h, a, b) \<longleftrightarrow>
     a = 42 \<and> b = 42 + unat (h_len h) \<and> b \<le> length f \<and> mac_ok h \<and> take 42 f = wire_bytes h
     \<and> h_version h = 1 \<and> h_route_mac h = route_mac p key_dst (auth_input h)"
    (is "?l \<longleftrightarrow> ?r")
proof
  assume ?l
  then have "wire_parse f = Ok h"
    by (auto simp: validate_frame_def outcome_simps Let_def split: if_splits)
  with \<open>?l\<close> wire_bytes_wire_parse [OF this] show ?r
    by (auto simp: validate_frame_def Let_def split: if_splits)
next
  assume r: ?r
  then have "f = wire_bytes h @ drop 42 f" by (metis append_take_drop_id)
  with r show ?l using validate_frame_wire [of h p "drop 42 f" key_dst] by auto
qed

lemma forwarded_open:
  assumes "aead_ok p" and "h_version h = 1" and "length payload + 16 < 2 ^ 16"
    and "build_frame p h key_dst session_key salt payload = Ok f"
  shows "open_frame p ((decrement_ttl ^^ n) f) key_dst session_key salt =
     Ok ((sealed_header p h key_dst (length payload + 16))\<lparr>h_ttl := h_ttl h - word_of_nat n\<rparr>, payload)"
proof -
  let ?h = "sealed_header p h key_dst (length payload + 16)"
  obtain ct where ct: "seal p session_key salt (ucast (h_seq ?h)) (auth_input ?h) payload = Ok ct"
    and f: "f = wire_bytes ?h @ ct"
    using assms(4) by (auto simp: build_frame_eq outcome_simps Let_def)
  note os = open_seal [OF assms(1) ct]
  let ?h' = "?h\<lparr>h_ttl := h_ttl h - word_of_nat n\<rparr>"
  have "h_ttl ?h = h_ttl h" "h_version ?h = 1" "h_route_mac ?h = route_mac p key_dst (auth_input ?h)"
    "unat (h_len ?h) = length payload + 16"
    using sealed_header_fields assms(2,3) by simp_all
  then show ?thesis
    using os open_frame_wire [of ?h' p key_dst ct "[]" session_key salt]
    by (simp add: f decrement_ttl_wire_iter)
qed

lemma sealed_frame_opens:
  assumes "aead_ok p" and "h_version h = 1" and "length payload + 16 < 2 ^ 16"
    and "build_frame p h key_dst session_key salt payload = Ok f"
  shows "open_frame p f key_dst session_key salt = Ok (sealed_header p h key_dst (length payload + 16), payload)"
  using forwarded_open [OF assms, of 0] by (simp add: sealed_header_def Let_def)

lemma toy_wrong_key:
  assumes "build_frame toy_prims h key_dst k salt pl = Ok f" and "h_version h = 1" and "length pl + 16 < 2 ^ 16"
    and "sum_list k' \<noteq> sum_list k"
  shows "open_frame toy_prims f key_dst k' salt = Err (OAead AeadError)"
proof -
  let ?h = "sealed_header toy_prims h key_dst (length pl + 16)"
  obtain ct where ct: "seal toy_prims k salt (ucast (h_seq ?h)) (auth_input ?h) pl = Ok ct" and f: "f = wire_bytes ?h @ ct"
    using assms(1) by (auto simp: build_frame_eq outcome_simps Let_def)
  have "aead_open toy_prims k' salt (ucast (h_seq ?h)) (auth_input ?h) ct = Err AeadError"
    using ct assms(4) by (auto simp: seal_eq aead_open_eq toy_prims_def toy_tag_def)
  moreover have "unat (h_len ?h) = length ct"
    using open_seal [OF toy_aead_ok ct] sealed_header_fields(5) [OF assms(3)] by simp
  ultimately show ?thesis
    using open_frame_wire [OF mac_ok_sealed_header _ sealed_header_fields(4), of toy_prims h key_dst "length pl + 16" ct "[]" k' salt]
      assms(2) by (simp add: f sealed_header_fields(2))
qed

section \<open>Properties\<close>

text \<open>
  C5: a sealed frame opens to its payload at the receiver after any number of forwarding hops: opening
  what \<open>build_frame\<close> built, with its TTL decremented any number of times on the way, gives the payload back
  and the header as it was sent, with the length and the route MAC filled in and the TTL reduced. The
  frame must carry the protocol version and its length must fit the 16-bit field.
\<close>

theorem forwarded_frame_opens:
  assumes "aead_ok p" and "h_version h = 1" and "length payload + 16 < 2 ^ 16"
    and "build_frame p h key_dst session_key salt payload = Ok f"
  shows "open_frame p ((decrement_ttl ^^ n) f) key_dst session_key salt =
     Ok ((sealed_header p h key_dst (length payload + 16))\<lparr>h_ttl := h_ttl h - word_of_nat n\<rparr>, payload)"
  using assms by (rule forwarded_open)

theorem forwarded_frame_opens_witness:
  "\<exists>f. build_frame toy_prims header_default [1, 2] [3, 4] 7 [10, 20, 30] = Ok f
     \<and> open_frame toy_prims ((decrement_ttl ^^ 2) f) [1, 2] [3, 4] 7
         = Ok ((sealed_header toy_prims header_default [1, 2] 19)\<lparr>h_ttl := 62\<rparr>, [10, 20, 30])"
proof -
  obtain f where f: "build_frame toy_prims header_default [1, 2] [3, 4] 7 [10, 20, 30] = Ok f"
    using toy_build_frame by blast
  then show ?thesis
    using forwarded_frame_opens [OF toy_aead_ok _ _ f, of 2] by (simp add: header_default_def)
qed

text \<open>
  C26: what a receiver accepts. Validation accepts a buffer exactly when it starts with the encoding of
  a header of the current version whose MAC is the route MAC of its authenticated input, and holds at
  least the announced payload; and the authenticated input fixes every field of the header but the
  TTL, which forwarding changes, and the MAC itself.
\<close>

theorem validate_frame_accepts:
  "(validate_frame p f key_dst = Ok (h, a, b) \<longleftrightarrow>
      a = 42 \<and> b = 42 + unat (h_len h) \<and> b \<le> length f \<and> mac_ok h \<and> take 42 f = wire_bytes h
      \<and> h_version h = 1 \<and> h_route_mac h = route_mac p key_dst (auth_input h))
   \<and> (auth_input h = auth_input h' \<longleftrightarrow> h = h'\<lparr>h_ttl := h_ttl h, h_route_mac := h_route_mac h\<rparr>)"
  unfolding validate_frame_iff auth_input_inject by (cases h, cases h') auto

text \<open>
  opening in place agrees with opening into a fresh buffer: same header, same plaintext or same
  error, never a panic; it never touches the header bytes and keeps the length, and when it fails the
  buffer is exactly the frame that came in, so a second key can be tried on it.
\<close>

theorem open_in_place_agrees:
  assumes "aead_ok p"
  shows "case open_frame_in_place p f key_dst session_key salt of (r, f') \<Rightarrow>
     r = open_frame p f key_dst session_key salt \<and> r \<noteq> Panic
     \<and> length f' = length f \<and> take 42 f' = take 42 f \<and> (is_ok r \<or> f' = f)"
proof -
  obtain r f' where o: "open_frame_in_place p f key_dst session_key salt = (r, f')" by (meson surj_pair)
  have "open_frame p f key_dst session_key salt \<noteq> Panic"
    by (auto simp: open_frame_def aead_open_eq outcome_simps Let_def split: prod.splits bool.splits if_splits)
  then show ?thesis using open_frame_in_place_open_frame [OF assms o] o by auto
qed

theorem open_in_place_agrees_witness:
  "case open_frame_in_place toy_prims (replicate 50 1) [1] [2] 3 of (r, f') \<Rightarrow>
     r = open_frame toy_prims (replicate 50 1) [1] [2] 3 \<and> r \<noteq> Panic
     \<and> length f' = length (replicate 50 (1 :: byte)) \<and> take 42 f' = take 42 (replicate 50 1)
     \<and> (is_ok r \<or> f' = replicate 50 1)"
  by (rule open_in_place_agrees [OF toy_aead_ok])

text \<open>
  unsealed frames (handshakes and path probes) deliver their payload: the receiver with the same
  route key validates the frame and \<open>frame_payload\<close> returns exactly the bytes that were sent, for every
  payload that fits the 16-bit length; and a path-probe payload decodes to what was encoded.
\<close>

theorem unsealed_frame_delivers:
  assumes "length payload < 2 ^ 16" and "h_version h = 1"
  shows "\<exists>f. build_unsealed_frame p h route_key payload = (Ok f :: (decode_error, byte list) outcome)
     \<and> validate_frame p f route_key = Ok (sealed_header p h route_key (length payload), 42, 42 + length payload)
     \<and> frame_payload f = Some payload
     \<and> path_probe_decode (path_probe_encode q) = Some q"
proof -
  let ?h = "sealed_header p h route_key (length payload)"
  have l: "unat (h_len ?h) = length payload" using sealed_header_fields(5) assms(1) .
  have "path_probe_decode (path_probe_encode q) = Some q"
    by (simp add: path_probe_decode_def path_probe_encode_def slice_append_left slice_append_right slice_all nth_append)
  moreover have "frame_payload (wire_bytes ?h @ payload) = Some payload"
    by (simp add: frame_payload_def wire_parse_wire_bytes get_range_def slice_all length_wire_bytes l)
  ultimately show ?thesis
    using assms(2) l by (simp add: build_unsealed_frame_eq validate_frame_wire sealed_header_fields(2,4) flip: sealed_header_fields(4))
qed

theorem unsealed_frame_delivers_witness:
  "\<exists>f. build_unsealed_frame toy_prims header_default [9] [1, 2, 3] = (Ok f :: (decode_error, byte list) outcome)
     \<and> validate_frame toy_prims f [9] = Ok (sealed_header toy_prims header_default [9] 3, 42, 45)
     \<and> frame_payload f = Some [1, 2, 3]
     \<and> path_probe_decode (path_probe_encode \<lparr>pp_nonce = 5, pp_sent_ms = 6, pp_response = True\<rparr>)
         = Some \<lparr>pp_nonce = 5, pp_sent_ms = 6, pp_response = True\<rparr>"
  using unsealed_frame_delivers [of "[1, 2, 3]" header_default toy_prims "[9]" "\<lparr>pp_nonce = 5, pp_sent_ms = 6, pp_response = True\<rparr>"]
  by (simp add: header_default_def numeral_3_eq_3)

end
