(* ===== verification/Replay_Window.thy ===== *)
theory Replay_Window
  imports Prelude
begin

unbundle bit_operations_syntax

text \<open>
  \<open>ReplayWindow\<close> of \<^verbatim>\<open>src/rill-core/src/frame/mod.rs\<close>: a 1024-slot bitmap over the sequence numbers from \<open>base\<close> on.
  The bitmap is refined to an abstract window, a base and the set of accepted numbers; the interface
  \<open>replay_filter\<close> states what a session needs of it. When the window moves, the code clears the whole
  bitmap, so a number that was accepted before the move and is still inside the window is accepted a
  second time; this is stated as a property below.
\<close>

section \<open>Model\<close>

record replay_window =
  rw_base :: u64
  rw_bitmap :: "u64 list"

definition window_new :: replay_window where
  "window_new = \<lparr>rw_base = 0, rw_bitmap = replicate 16 0\<rparr>"

definition check_and_mark :: "replay_window \<Rightarrow> u32 \<Rightarrow> (unit, bool \<times> replay_window) outcome" where
  "check_and_mark w seq0 =
     (let seq = ucast seq0 :: u64 in
      if seq < rw_base w then Ok (False, w)
      else
        let w = (if rw_base w + 1024 \<le> seq
                 then let advance = (seq - rw_base w + 1) - 1024
                      in \<lparr>rw_base = rw_base w + advance, rw_bitmap = replicate 16 0\<rparr>
                 else w);
            slot = unat (seq - rw_base w);
            word = slot div 64;
            mask = push_bit (slot mod 64) 1
        in if length (rw_bitmap w) \<le> word then Panic
           else if rw_bitmap w ! word AND mask \<noteq> 0 then Ok (False, w)
           else Ok (True, w\<lparr>rw_bitmap := (rw_bitmap w)[word := rw_bitmap w ! word OR mask]\<rparr>))"

section \<open>The abstract window\<close>

definition rw_ok :: "replay_window \<Rightarrow> bool" where
  "rw_ok w \<longleftrightarrow> length (rw_bitmap w) = 16 \<and> unat (rw_base w) < 2 ^ 32"

definition marked :: "u64 list \<Rightarrow> nat \<Rightarrow> bool" where
  "marked bm slot \<longleftrightarrow> slot < 1024 \<and> bit (bm ! (slot div 64)) (slot mod 64)"

definition abs_window :: "replay_window \<Rightarrow> nat \<times> nat set" where
  "abs_window w = (unat (rw_base w), {x. unat (rw_base w) \<le> x \<and> marked (rw_bitmap w) (x - unat (rw_base w))})"

fun window_step :: "nat \<times> nat set \<Rightarrow> nat \<Rightarrow> bool \<times> nat \<times> nat set" where
  "window_step (base, S) s =
     (if s < base then (False, base, S)
      else let (base, S) = (if base + 1024 \<le> s then (s - 1023, {}) else (base, S))
           in (s \<notin> S, base, insert s S))"

lemma and_mask_zero: "x AND 2 ^ k = 0 \<longleftrightarrow> \<not> bit x k" for x :: u64
  using bit_iff_and_push_bit_not_eq_0 [of x k] by simp

lemma marked_replicate [simp]: "\<not> marked (replicate 16 0) slot"
  by (auto simp: marked_def)

lemma marked_update:
  assumes "length bm = 16" and "s < 1024"
  shows "marked (bm[s div 64 := bm ! (s div 64) OR 2 ^ (s mod 64)]) t \<longleftrightarrow> marked bm t \<or> t = s"
proof -
  have "t = s \<longleftrightarrow> t div 64 = s div 64 \<and> t mod 64 = s mod 64"
    by (metis div_mult_mod_eq)
  moreover have "bit (2 ^ (s mod 64) :: u64) (t mod 64) \<longleftrightarrow> t mod 64 = s mod 64"
    by (auto simp: bit_simps)
  ultimately show ?thesis
    using assms by (auto simp: marked_def nth_list_update bit_or_iff)
qed

lemma unat_ucast_seq: "unat (ucast (s :: u32) :: u64) = unat s"
  using unsigned_less [of s, where ?'a = nat] by (simp add: unsigned_ucast_eq take_bit_nat_eq_self)

lemma unat_seq_less: "unat (s :: u32) < 2 ^ 32"
  using unsigned_less [of s, where ?'a = nat] by simp

lemma unat_base_add:
  assumes "rw_ok w"
  shows "unat (rw_base w + 1024) = unat (rw_base w) + 1024"
  using assms by (subst unat_add_lem [THEN iffD1]) (simp_all add: rw_ok_def)

lemmas word_order = word_less_nat_alt word_le_nat_alt

lemma mark_below: "unat s < unat (rw_base w) \<Longrightarrow> check_and_mark w s = Ok (False, w)"
  by (simp add: check_and_mark_def word_order unat_ucast_seq)

lemma mark_inside:
  assumes "rw_ok w" and "unat (rw_base w) \<le> unat s" and "unat s < unat (rw_base w) + 1024"
  defines "slot \<equiv> unat s - unat (rw_base w)"
  shows "check_and_mark w s =
     (if marked (rw_bitmap w) slot then Ok (False, w)
      else Ok (True, w\<lparr>rw_bitmap := (rw_bitmap w)[slot div 64 := rw_bitmap w ! (slot div 64) OR push_bit (slot mod 64) 1]\<rparr>))"
proof -
  have "unat (ucast s - rw_base w :: u64) = slot"
    using assms(2) by (simp add: unat_sub word_order unat_ucast_seq slot_def)
  moreover have "slot < 1024" using assms(2,3) by (simp add: slot_def)
  ultimately show ?thesis
    using assms(1-3) unat_base_add [OF assms(1)]
    by (simp add: check_and_mark_def Let_def word_order unat_ucast_seq and_mask_zero marked_def rw_ok_def)
qed

lemma mark_ahead:
  assumes "rw_ok w" and "unat (rw_base w) + 1024 \<le> unat s"
  shows "\<exists>b. unat b = unat s - 1023 \<and> check_and_mark w s = Ok (True, \<lparr>rw_base = b,
     rw_bitmap = (replicate 16 0)[1023 div 64 := replicate 16 0 ! (1023 div 64) OR push_bit (1023 mod 64) 1]\<rparr>)"
proof -
  let ?s = "ucast s :: u64" and ?b = "rw_base w"
  have "unat (?s - ?b) = unat s - unat ?b"
    using assms(2) by (simp add: unat_sub word_order unat_ucast_seq)
  then have "unat (?s - ?b + 1) = unat s - unat ?b + 1"
    using unat_seq_less [of s] by (subst unat_add_lem [THEN iffD1]) simp_all
  then have "unat (?s - ?b + 1 - 1024) = unat s - unat ?b + 1 - 1024"
    using assms(2) by (subst unat_sub) (simp_all add: word_order)
  then have nb: "unat (?b + (?s - ?b + 1 - 1024)) = unat s - 1023"
    using assms(2) unat_seq_less [of s] by (subst unat_add_lem [THEN iffD1]) simp_all
  have "?s - (?b + (?s - ?b + 1 - 1024)) = 1023" by (simp add: algebra_simps)
  then have slot: "unat (?s - (?b + (?s - ?b + 1 - 1024))) = 1023" by simp
  have "check_and_mark w s = Ok (True, \<lparr>rw_base = ?b + (?s - ?b + 1 - 1024),
     rw_bitmap = (replicate 16 0)[1023 div 64 := replicate 16 0 ! (1023 div 64) OR push_bit (1023 mod 64) 1]\<rparr>)"
    using assms(2) unat_base_add [OF assms(1)] unfolding check_and_mark_def Let_def
    by (simp add: word_order unat_ucast_seq slot)
  with nb show ?thesis by blast
qed

lemma check_and_mark_refines:
  assumes "rw_ok w"
  shows "\<exists>r w'. check_and_mark w s = Ok (r, w') \<and> rw_ok w' \<and> (r, abs_window w') = window_step (abs_window w) (unat s)"
proof -
  consider "unat s < unat (rw_base w)" | "unat (rw_base w) \<le> unat s" "unat s < unat (rw_base w) + 1024"
    | "unat (rw_base w) + 1024 \<le> unat s" by linarith
  then show ?thesis
  proof cases
    case 1
    then show ?thesis using assms by (auto simp: mark_below abs_window_def)
  next
    case 2
    then show ?thesis
      using assms by (auto simp: mark_inside abs_window_def rw_ok_def marked_update)
  next
    case 3
    let ?bm = "(replicate 16 0)[15 := 9223372036854775808] :: u64 list"
    obtain b where b: "unat b = unat s - 1023"
      and c: "check_and_mark w s = Ok (True, \<lparr>rw_base = b, rw_bitmap = ?bm\<rparr>)"
      using mark_ahead [OF assms 3] by auto
    have m: "marked ?bm t \<longleftrightarrow> t = 1023" for t
      using marked_update [of "replicate 16 0" 1023 t] by simp
    have "{x. unat s - 1023 \<le> x \<and> x - (unat s - 1023) = 1023} = {unat s}"
      using 3 by auto
    then show ?thesis
      using b c 3 unat_seq_less [of s]
      by (intro exI [of _ True] exI [of _ "\<lparr>rw_base = b, rw_bitmap = ?bm\<rparr>"]) (simp add: abs_window_def rw_ok_def m)
  qed
qed

section \<open>Interface of a replay filter\<close>

text \<open>
  What the receiver of a session relies on: marking a number always answers, an accepted number is
  known afterwards, known numbers are refused, and they stay known as long as the window does not move.
\<close>

locale replay_filter =
  fixes mark :: "'w \<Rightarrow> u32 \<Rightarrow> (unit, bool \<times> 'w) outcome"
    and inv :: "'w \<Rightarrow> bool"
    and known :: "'w \<Rightarrow> u32 \<Rightarrow> bool"
    and moves :: "'w \<Rightarrow> u32 \<Rightarrow> bool"
  assumes mark_total: "inv w \<Longrightarrow> \<exists>r w'. mark w s = Ok (r, w') \<and> inv w'"
    and accepted_known: "inv w \<Longrightarrow> mark w s = Ok (True, w') \<Longrightarrow> known w' s"
    and known_refused: "inv w \<Longrightarrow> known w s \<Longrightarrow> mark w s = Ok (r, w') \<Longrightarrow> \<not> r"
    and known_kept: "inv w \<Longrightarrow> known w s \<Longrightarrow> \<not> moves w t \<Longrightarrow> mark w t = Ok (r, w') \<Longrightarrow> known w' s"
begin

fun marks :: "'w \<Rightarrow> u32 list \<Rightarrow> 'w" where
  "marks w [] = w"
| "marks w (t # ts) = (case mark w t of Ok (_, w') \<Rightarrow> marks w' ts | _ \<Rightarrow> w)"

fun still :: "'w \<Rightarrow> u32 list \<Rightarrow> bool" where
  "still w [] = True"
| "still w (t # ts) = (\<not> moves w t \<and> (case mark w t of Ok (_, w') \<Rightarrow> still w' ts | _ \<Rightarrow> True))"

lemma marks_known: "inv w \<Longrightarrow> known w s \<Longrightarrow> still w ts \<Longrightarrow> inv (marks w ts) \<and> known (marks w ts) s"
proof (induction ts arbitrary: w)
  case (Cons t ts)
  obtain r w' where "mark w t = Ok (r, w')" "inv w'" using mark_total [OF Cons.prems(1)] by blast
  then show ?case using Cons known_kept [of w s t r w'] by simp
qed simp

lemma no_replay_while_still:
  assumes "inv w" and "mark w s = Ok (True, w')" and "still w' ts" and "mark (marks w' ts) s = Ok (r, w'')"
  shows "\<not> r"
proof -
  have "inv w'" using mark_total [OF assms(1), of s] assms(2) by auto
  then show ?thesis
    using marks_known [OF _ accepted_known [OF assms(1,2)] assms(3)] known_refused assms(4) by blast
qed

lemma no_immediate_replay:
  assumes "inv w" and "mark w s = Ok (True, w')"
  shows "\<exists>w''. mark w' s = Ok (False, w'') \<and> inv w''"
proof -
  have "inv w'" using mark_total [OF assms(1), of s] assms(2) by auto
  then obtain r w'' where "mark w' s = Ok (r, w'')" "inv w''" using mark_total by blast
  with no_replay_while_still [OF assms, of "[]" r w''] show ?thesis by auto
qed

end

definition rw_known :: "replay_window \<Rightarrow> u32 \<Rightarrow> bool" where
  "rw_known w s \<longleftrightarrow> unat s < fst (abs_window w) \<or> unat s \<in> snd (abs_window w)"

definition rw_moves :: "replay_window \<Rightarrow> u32 \<Rightarrow> bool" where
  "rw_moves w s \<longleftrightarrow> unat (rw_base w) + 1024 \<le> unat s"

lemma check_and_mark_step:
  assumes "rw_ok w" and "check_and_mark w s = Ok (r, w')"
  shows "rw_ok w' \<and> (r, abs_window w') = window_step (abs_window w) (unat s)"
  using check_and_mark_refines [OF assms(1), of s] assms(2) by auto

lemma abs_window_bounded: "x \<in> snd (abs_window w) \<Longrightarrow> x < fst (abs_window w) + 1024"
  by (auto simp: abs_window_def marked_def)

lemma rw_moves_abs: "rw_moves w s \<longleftrightarrow> fst (abs_window w) + 1024 \<le> unat s"
  by (simp add: rw_moves_def abs_window_def)

interpretation rw: replay_filter check_and_mark rw_ok rw_known rw_moves
proof
  fix w w' :: replay_window and s t :: u32 and r :: bool
  assume w: "rw_ok w"
  obtain b S b' S' where a: "abs_window w = (b, S)" "abs_window w' = (b', S')" by (meson surj_pair)
  note step = check_and_mark_step [OF w, of _ _ w', unfolded a]
  show "\<exists>r w'. check_and_mark w s = Ok (r, w') \<and> rw_ok w'"
    using check_and_mark_refines [OF w] by blast
  show "rw_known w' s" if "check_and_mark w s = Ok (True, w')"
    using step [OF that] by (auto simp: rw_known_def a split: if_splits)
  show "\<not> r" if "rw_known w s" "check_and_mark w s = Ok (r, w')"
    using step [OF that(2)] that(1) abs_window_bounded [of "unat s" w]
    by (auto simp: rw_known_def a split: if_splits)
  show "rw_known w' s" if "rw_known w s" "\<not> rw_moves w t" "check_and_mark w t = Ok (r, w')"
    using step [OF that(3)] that(1,2) by (auto simp: rw_known_def rw_moves_abs a split: if_splits)
qed

lemma base_stands: "rw_ok w \<Longrightarrow> check_and_mark w t = Ok (r, w') \<Longrightarrow> \<not> rw_moves w t \<Longrightarrow> rw_base w' = rw_base w"
  using mark_below [of t w] mark_inside [of w t]
  by (cases "unat t < unat (rw_base w)") (auto simp: rw_moves_def split: if_splits)

abbreviation mark_all :: "replay_window \<Rightarrow> u32 list \<Rightarrow> replay_window" where
  "mark_all \<equiv> rw.marks"

lemma still_below: "rw_ok w \<Longrightarrow> list_all (\<lambda>t. unat t < unat (rw_base w) + 1024) ts \<Longrightarrow> rw.still w ts"
proof (induction ts arbitrary: w)
  case (Cons t ts)
  obtain r w' where "check_and_mark w t = Ok (r, w')" "rw_ok w'"
    using check_and_mark_refines [OF Cons.prems(1)] by blast
  moreover have "\<not> rw_moves w t" using Cons.prems(2) by (simp add: rw_moves_def)
  ultimately show ?case using Cons base_stands [OF Cons.prems(1), of t r w'] by simp
qed simp

section \<open>Properties\<close>


lemma rw_ok_new: "rw_ok window_new"
  by (simp add: rw_ok_def window_new_def)


text \<open>
  no replay while the window stands: once a number was accepted it is refused after any further
  numbers, as long as none of them lies 1024 or more above the base and so moves the window.
\<close>

theorem no_replay_in_standing_window:
  assumes "rw_ok w" and "check_and_mark w s = Ok (True, w')"
    and "list_all (\<lambda>t. unat t < unat (rw_base w') + 1024) ts"
  shows "\<exists>w''. check_and_mark (mark_all w' ts) s = Ok (False, w'')"
proof -
  have w': "rw_ok w'" using check_and_mark_step [OF assms(1,2)] by simp
  note s = still_below [OF w' assms(3)]
  have "rw_ok (mark_all w' ts)"
    using rw.marks_known [OF w' rw.accepted_known [OF assms(1,2)] s] by simp
  then obtain r w'' where m: "check_and_mark (mark_all w' ts) s = Ok (r, w'')"
    using check_and_mark_refines by blast
  with rw.no_replay_while_still [OF assms(1,2) s m] show ?thesis by auto
qed

theorem no_replay_in_standing_window_witness:
  "\<exists>w' w''. check_and_mark window_new 5 = Ok (True, w') \<and> check_and_mark (mark_all w' [1023, 7, 0]) 5 = Ok (False, w'')"
proof -
  obtain w' where w': "check_and_mark window_new 5 = Ok (True, w')" "rw_base w' = 0"
    using mark_inside [OF rw_ok_new, of 5] by (simp add: window_new_def marked_def)
  then show ?thesis using no_replay_in_standing_window [OF rw_ok_new w'(1), of "[1023, 7, 0]"] by auto
qed

text \<open>
  the window forgets when it moves. If a number inside the window was accepted and then a number
  1024 or more above the base arrives, the bitmap is cleared, and every earlier number that is still
  inside the moved window is accepted again, however often it was accepted before.
\<close>

theorem replay_after_move:
  assumes "rw_ok w" and "check_and_mark w s = Ok (True, w1)"
    and "unat (rw_base w1) + 1024 \<le> unat t" and "unat t < unat s + 1024" and "unat s < unat t"
  shows "\<exists>w2 w3. check_and_mark w1 t = Ok (True, w2) \<and> check_and_mark w2 s = Ok (True, w3)"
proof -
  have w1: "rw_ok w1" using check_and_mark_step [OF assms(1,2)] by simp
  obtain r w2 where w2: "check_and_mark w1 t = Ok (r, w2)" "rw_ok w2"
      "(r, abs_window w2) = window_step (abs_window w1) (unat t)"
    using check_and_mark_refines [OF w1] by blast
  obtain r' w3 where w3: "check_and_mark w2 s = Ok (r', w3)"
      "(r', abs_window w3) = window_step (abs_window w2) (unat s)"
    using check_and_mark_refines [OF w2(2)] by blast
  obtain S where "abs_window w1 = (unat (rw_base w1), S)" by (simp add: abs_window_def)
  then have "r" "abs_window w2 = (unat t - 1023, {unat t})" using w2(3) assms(3) by auto
  moreover from this have "r'" using w3(2) assms(4,5) by (auto split: if_splits)
  ultimately show ?thesis using w2(1) w3(1) by auto
qed

theorem replay_after_move_witness:
  "\<exists>w1 w2 w3. check_and_mark window_new 5 = Ok (True, w1) \<and> check_and_mark w1 1024 = Ok (True, w2)
     \<and> check_and_mark w2 5 = Ok (True, w3)"
proof -
  obtain w1 where w1: "check_and_mark window_new 5 = Ok (True, w1)" "rw_base w1 = 0"
    using mark_inside [OF rw_ok_new, of 5] by (simp add: window_new_def marked_def)
  then show ?thesis using replay_after_move [OF rw_ok_new w1(1), of 1024] by auto
qed

end
