(* ===== verification/Handshake.thy ===== *)
theory Handshake
  imports Frame Replay_Window
begin

text \<open>
  The Noise_XX handshake of \<^verbatim>\<open>src/rill-core/src/handshake/mod.rs\<close> and \<^verbatim>\<open>handshake/wire.rs\<close>: the initiator's and the
  responder's state machines with the payload framing around the Noise messages, and the session
  keys both derive. The Noise implementation (the \<open>snow\<close> crate) is a parameter: the fields of the
  record \<open>noise\<close> over an opaque handshake state. The errors of \<open>snow\<close> are carried as \<open>HNoise\<close> without
  their content, which the code never inspects.
\<close>

section \<open>Noise as a parameter\<close>

text \<open>
  \<open>ns_build N initiator prologue static\<close> builds a state; \<open>ns_write N st n\<close> is \<open>write_message\<close> of an empty
  payload into a buffer of \<open>n\<close> bytes, \<open>ns_read\<close> is \<open>read_message\<close>; \<open>ns_split\<close> is the raw split.
\<close>

record 'n noise =
  ns_build :: "bool \<Rightarrow> byte list \<Rightarrow> byte list \<Rightarrow> 'n option"
  ns_write :: "'n \<Rightarrow> nat \<Rightarrow> 'n \<times> byte list option"
  ns_read :: "'n \<Rightarrow> byte list \<Rightarrow> 'n \<times> bool"
  ns_remote_static :: "'n \<Rightarrow> byte list option"
  ns_hash :: "'n \<Rightarrow> byte list"
  ns_split :: "'n \<Rightarrow> byte list \<times> byte list"

text \<open>
  The Noise protocol's promise for the XX pattern: when the messages of two states built with the same
  prologue are passed between them unchanged, every step succeeds, the messages have the lengths of
  the pattern, each side learns the other's public static key, and hash and split agree.
\<close>

definition noise_xx_ok :: "'n noise \<Rightarrow> (byte list \<Rightarrow> byte list) \<Rightarrow> bool" where
  "noise_xx_ok N pub \<longleftrightarrow>
     (\<forall>pro si sr i0 r0. ns_build N True pro si = Some i0 \<and> ns_build N False pro sr = Some r0 \<longrightarrow>
       (\<exists>i1 m1 r1 r2 m2 i2 i3 m3 r3.
          ns_write N i0 48 = (i1, Some m1) \<and> length m1 = 32 \<and> ns_read N r0 m1 = (r1, True)
        \<and> ns_write N r1 112 = (r2, Some m2) \<and> length m2 = 96 \<and> ns_read N i1 m2 = (i2, True)
        \<and> ns_write N i2 80 = (i3, Some m3) \<and> length m3 = 64 \<and> ns_read N r2 m3 = (r3, True)
        \<and> ns_remote_static N i3 = Some (pub sr) \<and> ns_remote_static N r3 = Some (pub si)
        \<and> length (pub si) = 32 \<and> length (pub sr) = 32
        \<and> ns_hash N i3 = ns_hash N r3 \<and> ns_split N i3 = ns_split N r3))"

section \<open>Model\<close>

datatype handshake_error =
  HNoise | HMalformedPayload | HWrongTarget | HBadBinding | HPeerStaticMismatch | HWrongStep | HCollision

definition prologue :: "u32 \<Rightarrow> u8 \<Rightarrow> byte list" where
  "prologue network_id version = be32 network_id @ [version]"

definition bind_transcript :: "prims \<Rightarrow> byte list \<Rightarrow> byte list \<Rightarrow> byte list" where
  "bind_transcript p split_key handshake_hash =
     hkdf p (Some handshake_hash) split_key (ascii ''mesh-session-v1'') 32"

definition peer_static :: "'n noise \<Rightarrow> 'n \<Rightarrow> handshake_error \<Rightarrow> (handshake_error, byte list) outcome" where
  "peer_static N state err =
     (case ns_remote_static N state of
        Some rs \<Rightarrow> if length rs = 32 then Ok rs else Err err
      | None \<Rightarrow> Err err)"

record session_keys =
  sk_salt :: u32
  sk_tx_key :: "byte list"
  sk_rx_key :: "byte list"

record 'n initiator =
  hi_state :: 'n
  hi_target_node_id :: u32
  hi_identity_binding :: "byte list"
  hi_binding_issuance :: "u64 \<times> u64"
  hi_salt :: u32
  hi_expected_peer_static :: "byte list"
  hi_sent_msg1 :: bool
  hi_sent_msg3 :: bool

definition initiator_new :: "'n noise \<Rightarrow> byte list \<Rightarrow> u32 \<Rightarrow> u8 \<Rightarrow> u32 \<Rightarrow> byte list \<Rightarrow> u64 \<times> u64 \<Rightarrow> u32
    \<Rightarrow> byte list \<Rightarrow> (handshake_error, 'n initiator) outcome" where
  "initiator_new N local_static network_id version target binding issuance salt expected =
     (if length binding \<noteq> 64 then Err HMalformedPayload
      else case ns_build N True (prologue network_id version) local_static of
        None \<Rightarrow> Err HNoise
      | Some st \<Rightarrow> Ok \<lparr>hi_state = st, hi_target_node_id = target, hi_identity_binding = binding,
          hi_binding_issuance = issuance, hi_salt = salt, hi_expected_peer_static = expected,
          hi_sent_msg1 = False, hi_sent_msg3 = False\<rparr>)"

definition write_msg1 :: "'n noise \<Rightarrow> 'n initiator \<Rightarrow> (handshake_error, byte list) outcome \<times> 'n initiator" where
  "write_msg1 N i =
     (if hi_sent_msg1 i then (Err HWrongStep, i)
      else case ns_write N (hi_state i) 48 of
        (st, None) \<Rightarrow> (Err HNoise, i\<lparr>hi_state := st\<rparr>)
      | (st, Some body) \<Rightarrow>
          (Ok (be32 (hi_target_node_id i) @ body), i\<lparr>hi_state := st, hi_sent_msg1 := True\<rparr>))"

definition read_msg2 :: "'n noise \<Rightarrow> 'n initiator \<Rightarrow> byte list
    \<Rightarrow> (handshake_error, byte list) outcome \<times> 'n initiator" where
  "read_msg2 N i payload =
     (if \<not> hi_sent_msg1 i \<or> hi_sent_msg3 i then (Err HWrongStep, i)
      else if length payload \<noteq> 96 then (Err HMalformedPayload, i)
      else case ns_read N (hi_state i) payload of
        (st, False) \<Rightarrow> (Err HNoise, i\<lparr>hi_state := st\<rparr>)
      | (st, True) \<Rightarrow>
          (case ns_write N st 80 of
             (st, None) \<Rightarrow> (Err HNoise, i\<lparr>hi_state := st\<rparr>)
           | (st, Some body) \<Rightarrow>
               (Ok (hi_identity_binding i @ be64 (fst (hi_binding_issuance i))
                    @ be64 (snd (hi_binding_issuance i)) @ be32 (hi_salt i) @ body),
                i\<lparr>hi_state := st, hi_sent_msg3 := True\<rparr>)))"

definition initiator_finish :: "prims \<Rightarrow> 'n noise \<Rightarrow> 'n initiator \<Rightarrow> (handshake_error, session_keys) outcome" where
  "initiator_finish p N i =
     (if \<not> hi_sent_msg3 i then Err HWrongStep
      else obind (peer_static N (hi_state i) HPeerStaticMismatch) (\<lambda>remote_static.
        if remote_static \<noteq> hi_expected_peer_static i then Err HPeerStaticMismatch
        else let h = ns_hash N (hi_state i); (k1, k2) = ns_split N (hi_state i)
          in Ok \<lparr>sk_salt = hi_salt i, sk_tx_key = bind_transcript p k1 h, sk_rx_key = bind_transcript p k2 h\<rparr>))"

record 'n responder =
  hr_state :: 'n
  hr_self_node_id :: u32
  hr_read_msg1 :: bool
  hr_sent_msg2 :: bool

definition responder_new :: "'n noise \<Rightarrow> byte list \<Rightarrow> u32 \<Rightarrow> u8 \<Rightarrow> u32 \<Rightarrow> (handshake_error, 'n responder) outcome" where
  "responder_new N local_static network_id version self_node_id =
     (case ns_build N False (prologue network_id version) local_static of
        None \<Rightarrow> Err HNoise
      | Some st \<Rightarrow> Ok \<lparr>hr_state = st, hr_self_node_id = self_node_id, hr_read_msg1 = False, hr_sent_msg2 = False\<rparr>)"

record wire_msg1 =
  w1_target :: u32
  w1_body :: "byte list"

definition wire_msg1_parse :: "byte list \<Rightarrow> (handshake_error, wire_msg1) outcome" where
  "wire_msg1_parse buf =
     (if length buf \<noteq> 36 then Err HMalformedPayload
      else Ok \<lparr>w1_target = get32 (slice 0 4 buf), w1_body = slice 4 36 buf\<rparr>)"

record wire_msg3 =
  w3_binding :: "byte list"
  w3_issuance :: "byte list"
  w3_salt :: u32
  w3_body :: "byte list"

definition wire_msg3_parse :: "byte list \<Rightarrow> (handshake_error, wire_msg3) outcome" where
  "wire_msg3_parse buf =
     (if length buf \<noteq> 148 then Err HMalformedPayload
      else Ok \<lparr>w3_binding = slice 0 64 buf, w3_issuance = slice 64 80 buf,
               w3_salt = get32 (slice 80 84 buf), w3_body = slice 84 148 buf\<rparr>)"

definition read_msg1 :: "'n noise \<Rightarrow> 'n responder \<Rightarrow> byte list \<Rightarrow> (handshake_error, unit) outcome \<times> 'n responder" where
  "read_msg1 N r payload =
     (if hr_read_msg1 r then (Err HWrongStep, r)
      else case wire_msg1_parse payload of
        Ok w \<Rightarrow>
          if w1_target w \<noteq> hr_self_node_id r then (Err HWrongTarget, r)
          else (case ns_read N (hr_state r) (w1_body w) of
                  (st, False) \<Rightarrow> (Err HNoise, r\<lparr>hr_state := st\<rparr>)
                | (st, True) \<Rightarrow> (Ok (), r\<lparr>hr_state := st, hr_read_msg1 := True\<rparr>))
      | Err e \<Rightarrow> (Err e, r)
      | Panic \<Rightarrow> (Panic, r))"

definition write_msg2 :: "'n noise \<Rightarrow> 'n responder \<Rightarrow> (handshake_error, byte list) outcome \<times> 'n responder" where
  "write_msg2 N r =
     (if \<not> hr_read_msg1 r \<or> hr_sent_msg2 r then (Err HWrongStep, r)
      else case ns_write N (hr_state r) 112 of
        (st, None) \<Rightarrow> (Err HNoise, r\<lparr>hr_state := st\<rparr>)
      | (st, Some body) \<Rightarrow> (Ok body, r\<lparr>hr_state := st, hr_sent_msg2 := True\<rparr>))"

definition read_msg3 :: "prims \<Rightarrow> 'n noise \<Rightarrow> 'n responder \<Rightarrow> byte list \<Rightarrow> u32
    \<Rightarrow> (u32 \<Rightarrow> byte list \<Rightarrow> byte list \<Rightarrow> u64 \<Rightarrow> u64 \<Rightarrow> bool)
    \<Rightarrow> (handshake_error, session_keys) outcome \<times> 'n responder" where
  "read_msg3 p N r payload claimed_node_id verify =
     (if \<not> hr_sent_msg2 r then (Err HWrongStep, r)
      else case wire_msg3_parse payload of
        Ok w \<Rightarrow>
          (case ns_read N (hr_state r) (w3_body w) of
             (st, False) \<Rightarrow> (Err HNoise, r\<lparr>hr_state := st\<rparr>)
           | (st, True) \<Rightarrow>
               (obind (peer_static N st HBadBinding) (\<lambda>remote_static.
                  let log_index = get64 (slice 0 8 (w3_issuance w)); term_no = get64 (drop 8 (w3_issuance w)) in
                  if \<not> verify claimed_node_id remote_static (w3_binding w) log_index term_no then Err HBadBinding
                  else let h = ns_hash N st; (k1, k2) = ns_split N st
                    in Ok \<lparr>sk_salt = w3_salt w, sk_tx_key = bind_transcript p k2 h, sk_rx_key = bind_transcript p k1 h\<rparr>),
                r\<lparr>hr_state := st\<rparr>))
      | Err e \<Rightarrow> (Err e, r)
      | Panic \<Rightarrow> (Panic, r))"

section \<open>Runs of the responder\<close>

text \<open>
  Whatever order its operations are called in: the trace records the operations, and the invariant
  ties the responder's flags to it.
\<close>

datatype responder_op = ReadMsg1 "byte list" | WriteMsg2 | ReadMsg3 "byte list" u32

fun responder_step :: "prims \<Rightarrow> 'n noise \<Rightarrow> (u32 \<Rightarrow> byte list \<Rightarrow> byte list \<Rightarrow> u64 \<Rightarrow> u64 \<Rightarrow> bool)
    \<Rightarrow> responder_op list \<times> 'n responder \<Rightarrow> responder_op \<Rightarrow> responder_op list \<times> 'n responder" where
  "responder_step p N verify (tr, r) (ReadMsg1 m) = (ReadMsg1 m # tr, snd (read_msg1 N r m))"
| "responder_step p N verify (tr, r) WriteMsg2 = (WriteMsg2 # tr, snd (write_msg2 N r))"
| "responder_step p N verify (tr, r) (ReadMsg3 m n) = (ReadMsg3 m n # tr, snd (read_msg3 p N r m n verify))"

fun responder_inv :: "u32 \<Rightarrow> responder_op list \<times> 'n responder \<Rightarrow> bool" where
  "responder_inv self (tr, r) \<longleftrightarrow>
     hr_self_node_id r = self \<and> (hr_sent_msg2 r \<longrightarrow> hr_read_msg1 r \<and> WriteMsg2 \<in> set tr)
     \<and> (hr_read_msg1 r \<longrightarrow> (\<exists>m. ReadMsg1 m \<in> set tr \<and> length m = 36 \<and> get32 (slice 0 4 m) = self))"

lemma read_msg1_frame:
  "hr_self_node_id (snd (read_msg1 N r m)) = hr_self_node_id r"
  "hr_sent_msg2 (snd (read_msg1 N r m)) = hr_sent_msg2 r"
  "hr_read_msg1 (snd (read_msg1 N r m)) \<longleftrightarrow>
     hr_read_msg1 r \<or> fst (read_msg1 N r m) = Ok ()"
  "fst (read_msg1 N r m) = Ok () \<Longrightarrow> length m = 36 \<and> get32 (slice 0 4 m) = hr_self_node_id r"
  by (auto simp: read_msg1_def wire_msg1_parse_def split: outcome.splits prod.splits bool.splits if_splits)

lemma write_msg2_frame:
  "hr_self_node_id (snd (write_msg2 N r)) = hr_self_node_id r"
  "hr_read_msg1 (snd (write_msg2 N r)) = hr_read_msg1 r"
  "hr_sent_msg2 (snd (write_msg2 N r)) \<Longrightarrow> hr_sent_msg2 r \<or> hr_read_msg1 r"
  by (auto simp: write_msg2_def split: prod.splits option.splits)

lemma read_msg3_frame:
  "hr_self_node_id (snd (read_msg3 p N r m n verify)) = hr_self_node_id r"
  "hr_read_msg1 (snd (read_msg3 p N r m n verify)) = hr_read_msg1 r"
  "hr_sent_msg2 (snd (read_msg3 p N r m n verify)) = hr_sent_msg2 r"
  by (auto simp: read_msg3_def split: outcome.splits prod.splits bool.splits)

lemma responder_step_inv: "responder_inv self s \<Longrightarrow> responder_inv self (responder_step p N verify s op)"
  by (cases s; cases op)
    (auto simp: read_msg1_frame(1-3) write_msg2_frame read_msg3_frame dest: read_msg1_frame(4) write_msg2_frame(3))

interpretation hs: invariant_machine "responder_step p N verify" "responder_inv self" "\<lambda>_ _. True"
  by unfold_locales (rule responder_step_inv)

section \<open>A concrete Noise instance\<close>

text \<open>An unencrypted instance of the parameter with the pattern's message lengths, for examples.\<close>

definition toy_noise :: "(byte list \<times> byte list \<times> byte list option) noise" where
  "toy_noise =
     \<lparr>ns_build = (\<lambda>ini pro st. if length st = 32 then Some (pro, st, None) else None),
      ns_write = (\<lambda>(pro, st, rem) n.
        ((pro, st, rem), Some (if n = 48 then replicate 32 0 else if n = 112 then st @ replicate 64 0 else st @ replicate 32 0))),
      ns_read = (\<lambda>(pro, st, rem) m. ((pro, st, if length m = 32 then rem else Some (take 32 m)), True)),
      ns_remote_static = (\<lambda>(pro, st, rem). rem),
      ns_hash = (\<lambda>(pro, st, rem). pro),
      ns_split = (\<lambda>_. (replicate 32 1, replicate 32 2))\<rparr>"

lemma toy_noise_ok: "noise_xx_ok toy_noise (\<lambda>s. s)"
  by (auto simp: noise_xx_ok_def toy_noise_def split: if_splits)

section \<open>Properties\<close>

lemma wire_msg1_parse_msg: "length body = 32 \<Longrightarrow> wire_msg1_parse (be32 t @ body) = Ok \<lparr>w1_target = t, w1_body = body\<rparr>"
  by (simp add: wire_msg1_parse_def slice_append_left slice_append_right slice_all)

lemma wire_msg3_parse_msg:
  "length b = 64 \<Longrightarrow> length body = 64 \<Longrightarrow>
   wire_msg3_parse (b @ be64 li @ be64 t @ be32 s @ body)
     = Ok \<lparr>w3_binding = b, w3_issuance = be64 li @ be64 t, w3_salt = s, w3_body = body\<rparr>"
  by (simp add: wire_msg3_parse_def slice_append_left slice_append_right slice_all slice_def)

text \<open>
  C15: an undisturbed handshake completes and both sides hold matching keys: with a Noise implementation
  that behaves as the XX pattern, an initiator that expects the responder's public key and a responder
  with the addressed node id, in the same network and version, run through all five calls without an
  error when the verifier accepts the initiator's binding for its public key and issuance anchor; the
  sending key of each side is the receiving key of the other and the salts agree.
\<close>

theorem handshake_agrees:
  assumes "noise_xx_ok N pub"
    and "initiator_new N si network version target binding issuance salt (pub sr) = Ok i"
    and "responder_new N sr network version target = Ok r"
    and "verify node (pub si) binding (fst issuance) (snd issuance)"
  shows "\<exists>m1 i1 r1 m2 r2 m3 i2 r3 ki kr.
     write_msg1 N i = (Ok m1, i1) \<and> read_msg1 N r m1 = (Ok (), r1) \<and> write_msg2 N r1 = (Ok m2, r2)
   \<and> read_msg2 N i1 m2 = (Ok m3, i2) \<and> initiator_finish p N i2 = Ok ki
   \<and> read_msg3 p N r2 m3 node verify = (Ok kr, r3)
   \<and> sk_salt ki = sk_salt kr \<and> sk_tx_key ki = sk_rx_key kr \<and> sk_rx_key ki = sk_tx_key kr"
proof -
  obtain i0 where i0: "ns_build N True (prologue network version) si = Some i0" and b: "length binding = 64"
    and i: "i = \<lparr>hi_state = i0, hi_target_node_id = target, hi_identity_binding = binding,
      hi_binding_issuance = issuance, hi_salt = salt, hi_expected_peer_static = pub sr,
      hi_sent_msg1 = False, hi_sent_msg3 = False\<rparr>"
    using assms(2) by (auto simp: initiator_new_def split: if_splits option.splits)
  obtain r0 where r0: "ns_build N False (prologue network version) sr = Some r0"
    and r: "r = \<lparr>hr_state = r0, hr_self_node_id = target, hr_read_msg1 = False, hr_sent_msg2 = False\<rparr>"
    using assms(3) by (auto simp: responder_new_def split: option.splits)
  obtain i1 m1 r1 r2 m2 i2 i3 m3 r3 where
    "ns_write N i0 48 = (i1, Some m1)" "length m1 = 32" "ns_read N r0 m1 = (r1, True)"
    "ns_write N r1 112 = (r2, Some m2)" "length m2 = 96" "ns_read N i1 m2 = (i2, True)"
    "ns_write N i2 80 = (i3, Some m3)" "length m3 = 64" "ns_read N r2 m3 = (r3, True)"
    "ns_remote_static N i3 = Some (pub sr)" "ns_remote_static N r3 = Some (pub si)"
    "length (pub si) = 32" "length (pub sr) = 32"
    "ns_hash N i3 = ns_hash N r3" "ns_split N i3 = ns_split N r3"
    using assms(1) [unfolded noise_xx_ok_def, rule_format, OF conjI [OF i0 r0]]
    by (elim exE conjE) (rule that; assumption)
  then show ?thesis
    using b assms(4)
    by (simp add: i r write_msg1_def read_msg1_def write_msg2_def read_msg2_def initiator_finish_def read_msg3_def
        peer_static_def wire_msg1_parse_msg wire_msg3_parse_msg Let_def slice_prefix split: prod.splits)
qed

theorem handshake_agrees_witness:
  "\<exists>i r m1 i1 r1 m2 r2 m3 i2 r3 ki kr.
     initiator_new toy_noise (replicate 32 4) 1 1 9 (replicate 64 6) (2, 3) 77 (replicate 32 5) = Ok i
   \<and> responder_new toy_noise (replicate 32 5) 1 1 9 = Ok r
   \<and> write_msg1 toy_noise i = (Ok m1, i1) \<and> read_msg1 toy_noise r m1 = (Ok (), r1) \<and> write_msg2 toy_noise r1 = (Ok m2, r2)
   \<and> read_msg2 toy_noise i1 m2 = (Ok m3, i2) \<and> initiator_finish toy_prims toy_noise i2 = Ok ki
   \<and> read_msg3 toy_prims toy_noise r2 m3 8 (\<lambda>n k b li t. n = 8 \<and> li = 2 \<and> t = 3) = (Ok kr, r3)
   \<and> sk_salt ki = sk_salt kr \<and> sk_tx_key ki = sk_rx_key kr \<and> sk_rx_key ki = sk_tx_key kr"
proof -
  obtain i where i: "initiator_new toy_noise (replicate 32 4) 1 1 9 (replicate 64 6) (2, 3) 77 (replicate 32 5) = Ok i"
    by (simp add: initiator_new_def toy_noise_def)
  obtain r where r: "responder_new toy_noise (replicate 32 5) 1 1 9 = Ok r"
    by (simp add: responder_new_def toy_noise_def)
  show ?thesis
    using handshake_agrees [OF toy_noise_ok i r, of "\<lambda>n k b li t. n = 8 \<and> li = 2 \<and> t = 3" 8 toy_prims] i r by simp
qed

text \<open>
  C14: a responder gives out session keys only to an initiator whose message one was addressed to it and
  whose identity binding was verified: in any sequence of calls on a fresh responder, in any order and
  with any messages, if \<open>read_msg3\<close> then returns keys, an earlier first message carried this node's id,
  message two was sent, and the verifier accepted the claimed node id, the public key that Noise
  authenticated, and the binding and anchor found in the payload.
\<close>

theorem responder_keys_need_verification:
  assumes "responder_new N static network version self = Ok r0"
    and "foldl (responder_step p N verify) ([], r0) ops = (tr, r)"
    and "read_msg3 p N r payload node verify = (Ok keys, r')"
  shows "(\<exists>m. ReadMsg1 m \<in> set tr \<and> length m = 36 \<and> get32 (slice 0 4 m) = self) \<and> WriteMsg2 \<in> set tr
     \<and> (\<exists>rs. ns_remote_static N (hr_state r') = Some rs
          \<and> verify node rs (slice 0 64 payload) (get64 (slice 64 72 payload)) (get64 (slice 72 80 payload)))"
proof -
  have "responder_inv self ([], r0)"
    using assms(1) by (auto simp: responder_new_def split: option.splits)
  then have inv: "responder_inv self (tr, r)"
    using hs.run_inv_unguarded [of self "([], r0)" p N verify ops] assms(2) by simp
  have s: "slice 0 8 (slice 64 80 payload) = slice 64 72 payload" "drop 8 (slice 64 80 payload) = slice 72 80 payload"
    by (simp_all add: slice_def min_def drop_take add.commute)
  have "hr_sent_msg2 r" using assms(3) by (auto simp: read_msg3_def split: if_splits)
  moreover have "\<exists>rs. ns_remote_static N (hr_state r') = Some rs
      \<and> verify node rs (slice 0 64 payload) (get64 (slice 64 72 payload)) (get64 (slice 72 80 payload))"
    using assms(3)
    by (auto simp: read_msg3_def wire_msg3_parse_def peer_static_def outcome_simps Let_def s
        split: if_splits outcome.splits prod.splits bool.splits option.splits)
  ultimately show ?thesis using inv by auto
qed

theorem responder_keys_need_verification_witness:
  "\<exists>r0 tr r keys r'. responder_new toy_noise (replicate 32 5) 1 1 9 = Ok r0
     \<and> foldl (responder_step toy_prims toy_noise (\<lambda>_ _ _ li _. li = 2)) ([], r0) [ReadMsg1 (be32 9 @ replicate 32 0), WriteMsg2] = (tr, r)
     \<and> read_msg3 toy_prims toy_noise r (replicate 64 6 @ be64 2 @ be64 3 @ be32 77 @ replicate 64 4) 8 (\<lambda>_ _ _ li _. li = 2) = (Ok keys, r')
     \<and> ReadMsg1 (be32 9 @ replicate 32 0) \<in> set tr \<and> WriteMsg2 \<in> set tr"
proof -
  obtain r0 where r0: "responder_new toy_noise (replicate 32 5) 1 1 9 = Ok r0"
    by (simp add: responder_new_def toy_noise_def)
  obtain tr r where run: "foldl (responder_step toy_prims toy_noise (\<lambda>_ _ _ li _. li = 2)) ([], r0)
      [ReadMsg1 (be32 9 @ replicate 32 0), WriteMsg2] = (tr, r)" by (meson surj_pair)
  then have tr: "tr = [WriteMsg2, ReadMsg1 (be32 9 @ replicate 32 0)]" "hr_sent_msg2 r"
    using r0 by (auto simp: responder_new_def read_msg1_def write_msg2_def wire_msg1_parse_msg toy_noise_def)
  then obtain keys r' where "read_msg3 toy_prims toy_noise r (replicate 64 6 @ be64 2 @ be64 3 @ be32 77 @ replicate 64 4) 8
      (\<lambda>_ _ _ li _. li = 2) = (Ok keys, r')"
    by (cases "hr_state r")
      (simp add: read_msg3_def wire_msg3_parse_msg toy_noise_def peer_static_def slice_prefix Let_def split: prod.splits)
  with r0 run tr responder_keys_need_verification [OF r0 run this] show ?thesis by auto
qed

end
