(* ===== verification/Mesh_Session.thy ===== *)
theory Mesh_Session
  imports Handshake
begin

text \<open>
  \<open>Session\<close> of \<^verbatim>\<open>src/rill-core/src/handshake/mod.rs\<close>: the sending counter, opening a received frame with the current
  key and, for five seconds after a rekey, with the previous one, and the rekey itself. Instants are
  nanoseconds. The lemmas rest on the frame theorems and, through the interface \<open>replay_filter\<close>, on the
  replay window.
\<close>

section \<open>Model\<close>

datatype session_open_error = SDecode | SVersion | SRouteMac | STruncatedPayload | SAead | SReplay

fun from_frame_error :: "open_error \<Rightarrow> session_open_error" where
  "from_frame_error (ODecode _) = SDecode"
| "from_frame_error OVersion = SVersion"
| "from_frame_error ORouteMac = SRouteMac"
| "from_frame_error OTruncatedPayload = STruncatedPayload"
| "from_frame_error (OAead _) = SAead"

definition REKEY_RESIDUE :: nat where "REKEY_RESIDUE = 5 * 10 ^ 9"

definition rekey_chain :: "prims \<Rightarrow> byte list \<Rightarrow> byte list" where
  "rekey_chain p key = hkdf p None key (ascii ''mesh-rekey-v1'') 32"

record old_rx =
  old_key :: "byte list"
  old_window :: replay_window
  old_expires_at :: nat

record session =
  s_peer_node_id :: u32
  s_keys :: session_keys
  s_tx_counter :: u32
  s_rx_window :: replay_window
  s_old_rx :: "old_rx option"

definition session_new :: "u32 \<Rightarrow> session_keys \<Rightarrow> session" where
  "session_new peer keys =
     \<lparr>s_peer_node_id = peer, s_keys = keys, s_tx_counter = 0, s_rx_window = window_new, s_old_rx = None\<rparr>"

definition next_seq :: "session \<Rightarrow> u32 \<times> session" where
  "next_seq s = (s_tx_counter s, s\<lparr>s_tx_counter := s_tx_counter s + 1\<rparr>)"

text \<open>The window check both openers end with: accept, or report a replay.\<close>

definition mark_seq :: "replay_window \<Rightarrow> u32 \<Rightarrow> 'a \<Rightarrow> (session_open_error, 'a) outcome \<times> replay_window" where
  "mark_seq w seq x =
     (case check_and_mark w seq of
        Ok (True, w') \<Rightarrow> (Ok x, w')
      | Ok (False, w') \<Rightarrow> (Err SReplay, w')
      | _ \<Rightarrow> (Panic, w))"

definition session_open :: "prims \<Rightarrow> session \<Rightarrow> byte list \<Rightarrow> byte list \<Rightarrow> nat
    \<Rightarrow> (session_open_error, mesh_frame_header \<times> byte list) outcome \<times> session" where
  "session_open p s frame key_dst now =
     (case open_frame p frame key_dst (sk_rx_key (s_keys s)) (sk_salt (s_keys s)) of
        Ok (h, pl) \<Rightarrow> (case mark_seq (s_rx_window s) (h_seq h) (h, pl) of (r, w) \<Rightarrow> (r, s\<lparr>s_rx_window := w\<rparr>))
      | Err (OAead _) \<Rightarrow>
          (case s_old_rx s of
             None \<Rightarrow> (Err SAead, s)
           | Some old \<Rightarrow>
               if old_expires_at old \<le> now then (Err SAead, s\<lparr>s_old_rx := None\<rparr>)
               else (case open_frame p frame key_dst (old_key old) (sk_salt (s_keys s)) of
                       Ok (h, pl) \<Rightarrow> (case mark_seq (old_window old) (h_seq h) (h, pl) of
                           (r, w) \<Rightarrow> (r, s\<lparr>s_old_rx := Some (old\<lparr>old_window := w\<rparr>)\<rparr>))
                     | Err _ \<Rightarrow> (Err SAead, s)
                     | Panic \<Rightarrow> (Panic, s)))
      | Err e \<Rightarrow> (Err (from_frame_error e), s)
      | Panic \<Rightarrow> (Panic, s))"

text \<open>The in-place variant also returns the frame buffer; its result carries the plaintext's length.\<close>

definition session_open_in_place :: "prims \<Rightarrow> session \<Rightarrow> byte list \<Rightarrow> byte list \<Rightarrow> nat
    \<Rightarrow> (session_open_error, mesh_frame_header \<times> nat) outcome \<times> session \<times> byte list" where
  "session_open_in_place p s frame key_dst now =
     (case open_frame_in_place p frame key_dst (sk_rx_key (s_keys s)) (sk_salt (s_keys s)) of
        (Ok (h, pl), frame) \<Rightarrow>
          let pt_len = length pl in
          (case mark_seq (s_rx_window s) (h_seq h) (h, pt_len) of (r, w) \<Rightarrow> (r, s\<lparr>s_rx_window := w\<rparr>, frame))
      | (Err (OAead _), frame) \<Rightarrow>
          (case s_old_rx s of
             None \<Rightarrow> (Err SAead, s, frame)
           | Some old \<Rightarrow>
               if old_expires_at old \<le> now then (Err SAead, s\<lparr>s_old_rx := None\<rparr>, frame)
               else (case open_frame_in_place p frame key_dst (old_key old) (sk_salt (s_keys s)) of
                       (Ok (h, pl), frame) \<Rightarrow>
                         let pt_len = length pl in
                         (case mark_seq (old_window old) (h_seq h) (h, pt_len) of
                           (r, w) \<Rightarrow> (r, s\<lparr>s_old_rx := Some (old\<lparr>old_window := w\<rparr>)\<rparr>, frame))
                     | (Err _, frame) \<Rightarrow> (Err SAead, s, frame)
                     | (Panic, frame) \<Rightarrow> (Panic, s, frame)))
      | (Err e, frame) \<Rightarrow> (Err (from_frame_error e), s, frame)
      | (Panic, frame) \<Rightarrow> (Panic, s, frame))"

definition rekey :: "prims \<Rightarrow> session \<Rightarrow> nat \<Rightarrow> session" where
  "rekey p s now =
     (let old = \<lparr>old_key = sk_rx_key (s_keys s), old_window = s_rx_window s, old_expires_at = now + REKEY_RESIDUE\<rparr>
      in s\<lparr>s_keys := (s_keys s)\<lparr>sk_tx_key := rekey_chain p (sk_tx_key (s_keys s)),
                              sk_rx_key := rekey_chain p (sk_rx_key (s_keys s))\<rparr>,
          s_rx_window := window_new,
          s_old_rx := Some old\<rparr>)"

section \<open>Invariant\<close>

definition session_ok :: "session \<Rightarrow> bool" where
  "session_ok s \<longleftrightarrow> rw_ok (s_rx_window s)
     \<and> (case s_old_rx s of None \<Rightarrow> True | Some old \<Rightarrow> rw_ok (old_window old))"

lemma session_ok_new: "session_ok (session_new peer keys)"
  by (simp add: session_ok_def session_new_def rw_ok_new)

lemma session_ok_rekey: "session_ok s \<Longrightarrow> session_ok (rekey p s now)"
  by (simp add: session_ok_def rekey_def rw_ok_new)

lemma session_ok_next_seq: "session_ok s \<Longrightarrow> session_ok (snd (next_seq s))"
  by (simp add: session_ok_def next_seq_def)

lemma mark_seq_eq:
  assumes "rw_ok w"
  shows "\<exists>b w'. check_and_mark w seq = Ok (b, w') \<and> rw_ok w'
     \<and> mark_seq w seq x = (if b then Ok x else Err SReplay, w')"
proof -
  obtain b w' where "check_and_mark w seq = Ok (b, w')" "rw_ok w'"
    using rw.mark_total [OF assms] by blast
  then show ?thesis
    by (intro exI [of _ b] exI [of _ w']) (cases b; simp add: mark_seq_def)
qed

lemma mark_seq_ok: "mark_seq w seq x = (r, w') \<Longrightarrow> rw_ok w \<Longrightarrow> rw_ok w' \<and> r \<noteq> Panic"
  using mark_seq_eq [of w seq x] by (auto split: if_splits)

lemma mark_seq_again:
  assumes "rw_ok w" and "mark_seq w seq x = (Ok y, w')"
  shows "\<exists>w''. mark_seq w' seq z = (Err SReplay, w'')"
proof -
  have m: "check_and_mark w seq = Ok (True, w')"
    using mark_seq_eq [OF assms(1), of seq x] assms(2) by (auto split: if_splits)
  then show ?thesis using rw.no_immediate_replay [OF assms(1) m] by (auto simp: mark_seq_def)
qed

lemma session_ok_open:
  assumes "session_ok s" and "session_open p s f key_dst now = (r, s')"
  shows "session_ok s'"
  using assms
  by (auto simp: session_open_def session_ok_def
      split: outcome.splits open_error.splits option.splits prod.splits if_splits)
    (metis mark_seq_ok)+

lemma window_step_unknown: "\<not> x < b \<Longrightarrow> x \<notin> S \<Longrightarrow> fst (window_step (b, S) x)"
  by (simp add: Let_def)

lemma mark_seq_unknown:
  assumes "rw_ok w" and "\<not> rw_known w seq"
  shows "fst (mark_seq w seq x) = Ok x"
proof -
  obtain b w' where m: "check_and_mark w seq = Ok (b, w')" "mark_seq w seq x = (if b then Ok x else Err SReplay, w')"
    using mark_seq_eq [OF assms(1), of seq x] by auto
  have "fst (window_step (abs_window w) (unat seq))"
    using assms(2) window_step_unknown by (metis prod.collapse rw_known_def)
  then have b using check_and_mark_step [OF assms(1) m(1)] by (metis fst_conv)
  with m(2) show ?thesis by simp
qed

lemma not_known_new: "\<not> rw_known window_new seq"
  by (simp add: rw_known_def abs_window_def window_new_def)

section \<open>Paired sessions\<close>

text \<open>Two sessions are paired when each sends with the key the other receives with, under one salt.\<close>

definition paired :: "session \<Rightarrow> session \<Rightarrow> bool" where
  "paired a b \<longleftrightarrow> sk_tx_key (s_keys a) = sk_rx_key (s_keys b) \<and> sk_rx_key (s_keys a) = sk_tx_key (s_keys b)
     \<and> sk_salt (s_keys a) = sk_salt (s_keys b)"

lemma paired_rekey: "paired a b \<Longrightarrow> paired (rekey p a t) (rekey p b t')"
  by (simp add: paired_def rekey_def Let_def)

lemma session_open_current:
  assumes "session_ok s" and "open_frame p f key_dst (sk_rx_key (s_keys s)) (sk_salt (s_keys s)) = Ok (h, pl)"
    and "\<not> rw_known (s_rx_window s) (h_seq h)"
  shows "fst (session_open p s f key_dst now) = Ok (h, pl)"
  using assms mark_seq_unknown [of "s_rx_window s" "h_seq h" "(h, pl)"]
  by (auto simp: session_open_def session_ok_def split: prod.splits)

lemma next_seq_iter: "fst (next_seq (((snd \<circ> next_seq) ^^ n) s)) = s_tx_counter s + word_of_nat n"
  by (induction n arbitrary: s) (simp_all add: next_seq_def funpow_Suc_right del: funpow.simps)

section \<open>Properties\<close>



text \<open>
  opening in place is opening: same session afterwards, same header, same error, and the plaintext
  of the reported length stands in the frame buffer behind the header.
\<close>

theorem session_open_in_place_agrees:
  assumes "aead_ok p"
  shows "case session_open p s f key_dst now of (r, s1) \<Rightarrow>
     case session_open_in_place p s f key_dst now of (r', s2, f') \<Rightarrow>
       s1 = s2 \<and> (case r of Ok (h, pl) \<Rightarrow> r' = Ok (h, length pl) \<and> slice 42 (42 + length pl) f' = pl
                  | Err e \<Rightarrow> r' = Err e | Panic \<Rightarrow> r' = Panic)"
proof -
  note ip = open_frame_in_place_open_frame [OF assms] and pl = open_frame_in_place_payload [OF assms]
  obtain q f1 where q: "open_frame_in_place p f key_dst (sk_rx_key (s_keys s)) (sk_salt (s_keys s)) = (q, f1)"
    by (meson surj_pair)
  have cur: "open_frame p f key_dst (sk_rx_key (s_keys s)) (sk_salt (s_keys s)) = q" "\<not> is_ok q \<Longrightarrow> f1 = f"
    using ip [OF q] by auto
  show ?thesis
  proof (cases "is_ok q")
    case True
    then obtain h m where "q = Ok (h, m)" by (cases q) auto
    with q cur pl [of f key_dst _ _ h m f1] show ?thesis
      by (auto simp: session_open_def session_open_in_place_def mark_seq_def Let_def split: outcome.splits prod.splits bool.splits)
  next
    case False
    then have "f1 = f" using cur by simp
    show ?thesis
    proof (cases "\<exists>d old. q = Err (OAead d) \<and> s_old_rx s = Some old \<and> \<not> old_expires_at old \<le> now")
      case True
      then obtain d old where e: "q = Err (OAead d)" "s_old_rx s = Some old" "\<not> old_expires_at old \<le> now" by blast
      obtain q2 f2 where q2: "open_frame_in_place p f key_dst (old_key old) (sk_salt (s_keys s)) = (q2, f2)"
        by (meson surj_pair)
      have o2: "open_frame p f key_dst (old_key old) (sk_salt (s_keys s)) = q2" using ip [OF q2] by simp
      show ?thesis
      proof (cases q2)
        case (Ok x)
        obtain h m where "x = (h, m)" by (cases x)
        with Ok q2 pl [of f key_dst _ _ h m f2] show ?thesis
          using q cur e \<open>f1 = f\<close> o2
          by (auto simp: session_open_def session_open_in_place_def mark_seq_def split: outcome.splits bool.splits)
      qed (use q cur e \<open>f1 = f\<close> o2 q2 in \<open>simp_all add: session_open_def session_open_in_place_def\<close>)
    next
      case no: False
      then show ?thesis
        using q cur False \<open>f1 = f\<close>
        by (auto simp: session_open_def session_open_in_place_def
            split: outcome.splits open_error.splits option.splits)
    qed
  qed
qed

theorem session_open_in_place_agrees_witness:
  "case session_open toy_prims (session_new 2 \<lparr>sk_salt = 7, sk_tx_key = [1], sk_rx_key = [3]\<rparr>) [1, 2, 3] [] 0 of (r, s1) \<Rightarrow>
     case session_open_in_place toy_prims (session_new 2 \<lparr>sk_salt = 7, sk_tx_key = [1], sk_rx_key = [3]\<rparr>) [1, 2, 3] [] 0 of (r', s2, f') \<Rightarrow>
       s1 = s2 \<and> (case r of Ok (h, pl) \<Rightarrow> r' = Ok (h, length pl) \<and> slice 42 (42 + length pl) f' = pl
                  | Err e \<Rightarrow> r' = Err e | Panic \<Rightarrow> r' = Panic)"
  by (rule session_open_in_place_agrees [OF toy_aead_ok])

text \<open>
  C16: two sessions with matching keys understand each other across relays and rekeys: what one seals
  with its sending key, its salt and its next sequence number, the other opens after any number of
  forwarding hops, provided the sequence number is new to its window; rekeying both sides, at whatever
  times, keeps the keys matching.
\<close>

theorem paired_sessions_deliver:
  assumes "aead_ok p" and "paired a b" and "session_ok b" and "next_seq a = (q, a')"
    and "build_frame p (h\<lparr>h_version := 1, h_seq := q\<rparr>) key_dst (sk_tx_key (s_keys a)) (sk_salt (s_keys a)) pl = Ok f"
    and "length pl + 16 < 2 ^ 16" and "\<not> rw_known (s_rx_window b) q"
  shows "(\<exists>h'. fst (session_open p b ((decrement_ttl ^^ n) f) key_dst now) = Ok (h', pl) \<and> h_seq h' = q)
     \<and> paired (rekey p a' t) (rekey p b t')"
proof -
  let ?h = "h\<lparr>h_version := 1, h_seq := q\<rparr>"
  let ?h' = "(sealed_header p ?h key_dst (length pl + 16))\<lparr>h_ttl := h_ttl ?h - word_of_nat n\<rparr>"
  have "open_frame p ((decrement_ttl ^^ n) f) key_dst (sk_rx_key (s_keys b)) (sk_salt (s_keys b)) = Ok (?h', pl)"
    using forwarded_open [OF assms(1) _ assms(6,5)] assms(2) by (simp add: paired_def)
  then have "fst (session_open p b ((decrement_ttl ^^ n) f) key_dst now) = Ok (?h', pl)"
    using session_open_current [OF assms(3)] assms(7) by (simp add: sealed_header_fields)
  moreover have "paired a' b" using assms(2,4) by (auto simp: paired_def next_seq_def)
  ultimately show ?thesis using paired_rekey by (auto simp: sealed_header_fields)
qed

theorem paired_sessions_deliver_witness:
  "\<exists>f h'. build_frame toy_prims (header_default\<lparr>h_version := 1, h_seq := 0\<rparr>) [9] [1] 7 [10, 20] = Ok f
     \<and> fst (session_open toy_prims (session_new 1 \<lparr>sk_salt = 7, sk_tx_key = [2], sk_rx_key = [1]\<rparr>) ((decrement_ttl ^^ 3) f) [9] 5)
         = Ok (h', [10, 20])"
proof -
  let ?a = "session_new 2 \<lparr>sk_salt = 7, sk_tx_key = [1], sk_rx_key = [2]\<rparr>"
  let ?b = "session_new 1 \<lparr>sk_salt = 7, sk_tx_key = [2], sk_rx_key = [1]\<rparr>"
  obtain f where f: "build_frame toy_prims (header_default\<lparr>h_version := 1, h_seq := 0\<rparr>) [9] [1] 7 [10, 20] = Ok f"
    using toy_build_frame by blast
  have "paired ?a ?b" "next_seq ?a = (0, snd (next_seq ?a))" "\<not> rw_known (s_rx_window ?b) 0"
    using not_known_new by (simp_all add: paired_def session_new_def next_seq_def)
  moreover have "build_frame toy_prims (header_default\<lparr>h_version := 1, h_seq := 0\<rparr>) [9] (sk_tx_key (s_keys ?a)) (sk_salt (s_keys ?a)) [10, 20] = Ok f"
    using f by (simp add: session_new_def)
  ultimately show ?thesis
    using paired_sessions_deliver [OF toy_aead_ok _ session_ok_new, of ?a _ _ 0 "snd (next_seq ?a)"] f by fastforce
qed

text \<open>
  C35: after a rekey, frames still in flight under the old key are accepted for five seconds and not
  longer: a frame sealed with the key received with before the rekey, whose number is new, opens before
  the expiry and fails with a decryption error from the expiry on, when the new key does not open it.
\<close>

theorem rekey_overlap:
  assumes "aead_ok p" and "session_ok s" and "h_version h = 1" and "length pl + 16 < 2 ^ 16"
    and "build_frame p h key_dst (sk_rx_key (s_keys s)) (sk_salt (s_keys s)) pl = Ok f"
    and "open_frame p f key_dst (rekey_chain p (sk_rx_key (s_keys s))) (sk_salt (s_keys s)) = Err (OAead AeadError)"
    and "\<not> rw_known (s_rx_window s) (h_seq h)"
  shows "fst (session_open p (rekey p s now) f key_dst now') =
     (if now' < now + REKEY_RESIDUE then Ok (sealed_header p h key_dst (length pl + 16), pl) else Err SAead)"
proof -
  let ?h = "sealed_header p h key_dst (length pl + 16)"
  have "open_frame p f key_dst (sk_rx_key (s_keys s)) (sk_salt (s_keys s)) = Ok (?h, pl)"
    using sealed_frame_opens [OF assms(1,3,4,5)] .
  moreover have "fst (mark_seq (s_rx_window s) (h_seq ?h) (?h, pl)) = Ok (?h, pl)"
    using mark_seq_unknown [of "s_rx_window s"] assms(2,7) by (simp add: session_ok_def sealed_header_fields)
  ultimately show ?thesis
    using assms(6) by (auto simp: session_open_def rekey_def Let_def split: prod.splits)
qed

theorem rekey_overlap_witness:
  "\<exists>f. build_frame toy_prims header_default [1, 2] [3, 4] 7 [10, 20] = Ok f
     \<and> fst (session_open toy_prims (rekey toy_prims (session_new 2 \<lparr>sk_salt = 7, sk_tx_key = [1], sk_rx_key = [3, 4]\<rparr>) 100) f [1, 2] 5000000099)
         = Ok (sealed_header toy_prims header_default [1, 2] 18, [10, 20])
     \<and> fst (session_open toy_prims (rekey toy_prims (session_new 2 \<lparr>sk_salt = 7, sk_tx_key = [1], sk_rx_key = [3, 4]\<rparr>) 100) f [1, 2] 5000000100)
         = Err SAead"
proof -
  let ?s = "session_new 2 \<lparr>sk_salt = 7, sk_tx_key = [1], sk_rx_key = [3, 4]\<rparr>"
  have k: "sk_rx_key (s_keys ?s) = [3, 4]" "sk_salt (s_keys ?s) = 7" "s_rx_window ?s = window_new"
    by (simp_all add: session_new_def)
  obtain f where f: "build_frame toy_prims header_default [1, 2] [3, 4] 7 [10, 20] = Ok f"
    using toy_build_frame by blast
  have "sum_list (rekey_chain toy_prims [3, 4]) \<noteq> sum_list [3, 4]"
    by (simp add: rekey_chain_def toy_prims_def ascii_def sum_list_replicate)
  then have w: "open_frame toy_prims f [1, 2] (rekey_chain toy_prims [3, 4]) 7 = Err (OAead AeadError)"
    using toy_wrong_key [OF f] by (simp add: header_default_def)
  have v: "h_version header_default = 1" by (simp add: header_default_def)
  note ov = rekey_overlap [OF toy_aead_ok session_ok_new v, of "[10, 20]" "[1, 2]" 2 "\<lparr>sk_salt = 7, sk_tx_key = [1], sk_rx_key = [3, 4]\<rparr>",
      unfolded k, OF _ f w not_known_new, of 100]
  show ?thesis using f ov [of 5000000099] ov [of 5000000100] by (simp add: REKEY_RESIDUE_def)
qed

text \<open>
  sequence numbers repeat with period \<open>2 ^ 32\<close> and not before: the numbers given out by the \<open>m\<close>-th and
  the \<open>n\<close>-th call are equal exactly when \<open>m\<close> and \<open>n\<close> are congruent. A session that is not rekeyed for
  \<open>2 ^ 32\<close> frames therefore reuses nonces.
\<close>

theorem next_seq_repeats:
  "fst (next_seq (((snd \<circ> next_seq) ^^ m) s)) = fst (next_seq (((snd \<circ> next_seq) ^^ n) s))
     \<longleftrightarrow> m mod 2 ^ 32 = n mod 2 ^ 32"
proof -
  have "(word_of_nat m = (word_of_nat n :: u32)) \<longleftrightarrow> m mod 2 ^ 32 = n mod 2 ^ 32"
    by (simp add: word_unat_eq_iff unat_of_nat)
  then show ?thesis by (simp add: next_seq_iter)
qed

end
