(* ===== verification/Probe.thy ===== *)
theory Probe
  imports Crypto
begin

text \<open>
  The connectivity probe of \<^verbatim>\<open>src/rill-core/src/probe.rs\<close>: a 17-byte header behind a magic number and a bounded payload.
\<close>

section \<open>Model\<close>

definition PROBE_MAGIC :: "byte list" where
  "PROBE_MAGIC = ascii ''LPRB''"

abbreviation (input) PROBE_HEADER_LEN :: nat where "PROBE_HEADER_LEN \<equiv> 17"
abbreviation (input) PROBE_PAYLOAD_MAX :: nat where "PROBE_PAYLOAD_MAX \<equiv> 128"

record probe_header =
  ph_magic :: "byte list"
  ph_packet_type :: u8
  ph_from_node_id :: u32
  ph_to_node_id :: u32
  ph_nonce :: u32

text \<open>The packed layout of the header and its view of a buffer's prefix.\<close>

definition probe_header_bytes :: "probe_header \<Rightarrow> byte list" where
  "probe_header_bytes h =
     ph_magic h @ [ph_packet_type h] @ be32 (ph_from_node_id h) @ be32 (ph_to_node_id h) @ be32 (ph_nonce h)"

record probe_packet =
  pr_packet_type :: u8
  pr_from_node_id :: u32
  pr_to_node_id :: u32
  pr_nonce :: u32
  pr_payload :: "byte list"

definition ping :: "u32 \<Rightarrow> u32 \<Rightarrow> u32 \<Rightarrow> probe_packet" where
  "ping src dst n = \<lparr>pr_packet_type = 1, pr_from_node_id = src, pr_to_node_id = dst, pr_nonce = n, pr_payload = []\<rparr>"

definition pong :: "probe_packet \<Rightarrow> byte list \<Rightarrow> probe_packet" where
  "pong q payload =
     \<lparr>pr_packet_type = 2, pr_from_node_id = pr_to_node_id q, pr_to_node_id = pr_from_node_id q,
      pr_nonce = pr_nonce q, pr_payload = payload\<rparr>"

definition probe_encode :: "probe_packet \<Rightarrow> byte list" where
  "probe_encode q =
     (let h = \<lparr>ph_magic = PROBE_MAGIC, ph_packet_type = pr_packet_type q, ph_from_node_id = pr_from_node_id q,
               ph_to_node_id = pr_to_node_id q, ph_nonce = pr_nonce q\<rparr>
      in probe_header_bytes h @ pr_payload q)"

definition parse_header :: "byte list \<Rightarrow> probe_header option" where
  "parse_header buf =
     (if length buf < PROBE_HEADER_LEN then None
      else let h = \<lparr>ph_magic = slice 0 4 buf, ph_packet_type = buf ! 4, ph_from_node_id = get32 (slice 5 9 buf),
                    ph_to_node_id = get32 (slice 9 13 buf), ph_nonce = get32 (slice 13 17 buf)\<rparr>
           in if ph_magic h = PROBE_MAGIC then Some h else None)"

definition probe_decode :: "byte list \<Rightarrow> probe_packet option" where
  "probe_decode buf =
     (case parse_header buf of
        None \<Rightarrow> None
      | Some h \<Rightarrow>
          let payload = drop PROBE_HEADER_LEN buf in
          if PROBE_PAYLOAD_MAX < length payload then None
          else Some \<lparr>pr_packet_type = ph_packet_type h, pr_from_node_id = ph_from_node_id h,
                     pr_to_node_id = ph_to_node_id h, pr_nonce = ph_nonce h, pr_payload = payload\<rparr>)"

section \<open>The header as a fixed-width codec\<close>

lemma length_magic [simp]: "length PROBE_MAGIC = 4"
  by (simp add: PROBE_MAGIC_def)

lemma parse_header_bytes:
  "ph_magic h = PROBE_MAGIC \<Longrightarrow> parse_header (probe_header_bytes h @ rest) = Some h"
  by (simp add: parse_header_def probe_header_bytes_def slice_append_left slice_append_right slice_prefix slice_all
      nth_append Let_def slice_def)

lemma header_bytes_parse:
  assumes "parse_header buf = Some h"
  shows "ph_magic h = PROBE_MAGIC \<and> probe_header_bytes h = take 17 buf"
proof -
  have l: "17 \<le> length buf" using assms by (auto simp: parse_header_def split: if_splits)
  then have "[buf ! 4] = slice 4 5 buf" by (simp add: slice_def take_Suc_conv_app_nth)
  then have "probe_header_bytes h = slice 0 4 buf @ slice 4 5 buf @ slice 5 9 buf @ slice 9 13 buf @ slice 13 17 buf"
    using assms l by (auto simp: parse_header_def probe_header_bytes_def be_get32 Let_def split: if_splits)
  also have "\<dots> = take 17 buf" by (simp add: slice_join) (simp add: slice_def)
  finally show ?thesis using assms by (auto simp: parse_header_def Let_def split: if_splits)
qed

interpretation prb: fixed_codec probe_header_bytes parse_header 17 "\<lambda>h. ph_magic h = PROBE_MAGIC"
proof
  show "ph_magic h = PROBE_MAGIC \<Longrightarrow> length (probe_header_bytes h) = 17" for h by (simp add: probe_header_bytes_def)
  show "length bs < 17 \<Longrightarrow> parse_header bs = None" for bs by (simp add: parse_header_def)
qed (simp_all add: parse_header_bytes header_bytes_parse)

section \<open>Properties\<close>

text \<open>
  C39: the decoder accepts exactly the encodings of packets with at most 128 bytes of payload, and
  returns the packet that was encoded; in particular a ping and the pong that answers it survive the
  wire, and no other byte string is taken for a probe.
\<close>

theorem probe_decode_iff:
  "probe_decode buf = Some q \<longleftrightarrow> buf = probe_encode q \<and> length (pr_payload q) \<le> 128"
proof
  assume d: "probe_decode buf = Some q"
  then obtain h where h: "parse_header buf = Some h" by (auto simp: probe_decode_def split: option.splits)
  have "probe_header_bytes h @ drop 17 buf = buf" using header_bytes_parse [OF h] by simp
  moreover have "h = \<lparr>ph_magic = PROBE_MAGIC, ph_packet_type = pr_packet_type q, ph_from_node_id = pr_from_node_id q,
      ph_to_node_id = pr_to_node_id q, ph_nonce = pr_nonce q\<rparr>" "pr_payload q = drop 17 buf" "length (drop 17 buf) \<le> 128"
    using d h header_bytes_parse [OF h] by (auto simp: probe_decode_def Let_def split: if_splits)
  ultimately show "buf = probe_encode q \<and> length (pr_payload q) \<le> 128"
    by (simp add: probe_encode_def Let_def)
next
  assume "buf = probe_encode q \<and> length (pr_payload q) \<le> 128"
  then show "probe_decode buf = Some q"
    by (simp add: probe_decode_def probe_encode_def Let_def parse_header_bytes) (simp add: probe_header_bytes_def)
qed

end
