(* ===== verification/Acl.thy ===== *)
theory Acl
  imports Route_Prefix
begin

text \<open>
  The access-control policy of \<^verbatim>\<open>src/rill-core/src/control/acl.rs\<close>: an ordered rule list, first match wins, default
  deny, and a packet decision that denies whatever it cannot read a destination from.
\<close>

section \<open>Model\<close>

datatype acl_subject = AnySubject | NodeSubject u32 | GroupSubject string

datatype acl_action = Allow | Deny

record acl_rule =
  ar_subjects :: "acl_subject list"
  ar_prefix :: prefix
  ar_action :: acl_action

record acl_policy =
  acl_enabled :: bool
  acl_rules :: "acl_rule list"
  acl_groups :: "string \<rightharpoonup> u32 list"

fun subject_matches :: "acl_policy \<Rightarrow> acl_subject \<Rightarrow> u32 \<Rightarrow> bool" where
  "subject_matches pol AnySubject src = True"
| "subject_matches pol (NodeSubject n) src = (n = src)"
| "subject_matches pol (GroupSubject name) src =
     (case acl_groups pol name of None \<Rightarrow> False | Some members \<Rightarrow> src \<in> set members)"

fun rules_allow :: "acl_policy \<Rightarrow> acl_rule list \<Rightarrow> u32 \<Rightarrow> ip_addr \<Rightarrow> bool" where
  "rules_allow pol [] src dst = False"
| "rules_allow pol (rule # rules) src dst =
     (if prefix_matches (ar_prefix rule) dst \<and> list_ex (\<lambda>s. subject_matches pol s src) (ar_subjects rule)
      then ar_action rule = Allow
      else rules_allow pol rules src dst)"

definition allows :: "acl_policy \<Rightarrow> u32 \<Rightarrow> ip_addr \<Rightarrow> bool" where
  "allows pol src dst = (if \<not> acl_enabled pol then True else rules_allow pol (acl_rules pol) src dst)"

definition packet_dst :: "byte list \<Rightarrow> ip_addr option" where
  "packet_dst payload =
     (case payload of
        [] \<Rightarrow> None
      | b # _ \<Rightarrow>
          if drop_bit 4 b = 4 then map_option V4 (get_range 16 20 payload)
          else if drop_bit 4 b = 6 then map_option V6 (get_range 24 40 payload)
          else None)"

definition allows_packet :: "acl_policy \<Rightarrow> u32 \<Rightarrow> byte list \<Rightarrow> bool" where
  "allows_packet pol src payload =
     (if \<not> acl_enabled pol then True
      else case packet_dst payload of Some dst \<Rightarrow> allows pol src dst | None \<Rightarrow> False)"

section \<open>Properties\<close>

text \<open>When a rule speaks about a source and a destination, without the order of the rules.\<close>

definition rule_applies :: "acl_policy \<Rightarrow> acl_rule \<Rightarrow> u32 \<Rightarrow> ip_addr \<Rightarrow> bool" where
  "rule_applies pol r src dst \<longleftrightarrow>
     prefix_matches (ar_prefix r) dst \<and> (\<exists>s \<in> set (ar_subjects r). subject_matches pol s src)"

lemma rules_allow_iff:
  "rules_allow pol rules src dst \<longleftrightarrow>
     (\<exists>before r after. rules = before @ r # after \<and> rule_applies pol r src dst \<and> ar_action r = Allow
        \<and> list_all (\<lambda>q. \<not> rule_applies pol q src dst) before)"
proof (induction rules)
  case (Cons rule rules)
  have eq: "prefix_matches (ar_prefix rule) dst \<and> list_ex (\<lambda>s. subject_matches pol s src) (ar_subjects rule)
      \<longleftrightarrow> rule_applies pol rule src dst"
    by (auto simp: rule_applies_def list_ex_iff)
  show ?case
  proof (cases "rule_applies pol rule src dst")
    case True
    then have "list_all (\<lambda>q. \<not> rule_applies pol q src dst) before \<Longrightarrow> rule # rules = before @ r # after
        \<Longrightarrow> before = [] \<and> r = rule" for before r after
      by (cases before) auto
    with True eq show ?thesis by (auto intro!: exI [of _ "[]"])
  next
    case False
    then have "(\<exists>before r after. rule # rules = before @ r # after \<and> P r \<and> list_all (\<lambda>q. \<not> rule_applies pol q src dst) before)
        \<longleftrightarrow> (\<exists>before r after. rules = before @ r # after \<and> P r \<and> list_all (\<lambda>q. \<not> rule_applies pol q src dst) before)"
      if "\<And>r. P r \<Longrightarrow> rule_applies pol r src dst" for P
    proof (intro iffI; elim exE conjE)
      fix before r after
      assume "rule # rules = before @ r # after" "P r" "list_all (\<lambda>q. \<not> rule_applies pol q src dst) before"
      then show "\<exists>before r after. rules = before @ r # after \<and> P r \<and> list_all (\<lambda>q. \<not> rule_applies pol q src dst) before"
        using False that by (cases before) auto
    next
      fix before r after
      assume "rules = before @ r # after" "P r" "list_all (\<lambda>q. \<not> rule_applies pol q src dst) before"
      then show "\<exists>before r after. rule # rules = before @ r # after \<and> P r \<and> list_all (\<lambda>q. \<not> rule_applies pol q src dst) before"
        using False by (intro exI [of _ "rule # before"]) auto
    qed
    from this [of "\<lambda>r. rule_applies pol r src dst \<and> ar_action r = Allow"] False eq Cons.IH show ?thesis by auto
  qed
qed simp

text \<open>
  C38: the packet decision of an enabled policy, in full: a packet passes exactly when its destination
  can be read from it and some allowing rule applies to the source and that destination with no
  applicable rule before it. So the first applicable rule decides, no applicable rule means deny, and
  a packet that is not IPv4 or IPv6 or too short is denied.
\<close>

theorem allows_packet_iff:
  "allows_packet (pol\<lparr>acl_enabled := True\<rparr>) src payload \<longleftrightarrow>
     (\<exists>dst before r after.
        packet_dst payload = Some dst \<and> acl_rules pol = before @ r # after
      \<and> rule_applies pol r src dst \<and> ar_action r = Allow
      \<and> list_all (\<lambda>q. \<not> rule_applies pol q src dst) before)"
proof -
  have "subject_matches (pol\<lparr>acl_enabled := True\<rparr>) s src = subject_matches pol s src" for s
    by (cases s) simp_all
  then have "rule_applies (pol\<lparr>acl_enabled := True\<rparr>) r src dst = rule_applies pol r src dst" for r dst
    by (simp add: rule_applies_def)
  then show ?thesis
    by (simp add: allows_packet_def allows_def rules_allow_iff split: option.split)
qed

end
