(* ===== verification/Registry.thy ===== *)
theory Registry
  imports Route_Prefix Crypto
begin

text \<open>
  The node registry of one network, \<^verbatim>\<open>src/rill-core/src/control/registry.rs\<close>: auth keys with one-time consumption,
  admission of nodes against the announcement whitelist, revocation and the restore of persisted state.
  Hash maps are partial functions; the identity signer is the function argument \<open>sign\<close>. The registry's
  two indexes are kept consistent by every operation under the caller's documented obligations, which
  are the guards of the step relation \<open>reg_reach\<close>.
\<close>

section \<open>Model\<close>

datatype auth_key_policy = OneTime | Reusable

record auth_key_spec =
  ak_policy :: auth_key_policy
  ak_tag :: "string option"

definition auth_key_simple :: "auth_key_policy \<Rightarrow> auth_key_spec" where
  "auth_key_simple policy = \<lparr>ak_policy = policy, ak_tag = None\<rparr>"

record node_entry =
  ne_node_id :: u32
  ne_network_id :: u32
  ne_static_pubkey :: "byte list"
  ne_capabilities :: u32
  ne_routes :: "string list"
  ne_identity_binding :: "byte list"
  ne_binding_log_id :: "u64 \<times> u64"

datatype register_error =
  InvalidAuthKey | PubkeyMismatch | RouteNotAllowed | BadRoute | AclCapabilityRequired

datatype register_outcome = NewNode u32 | Existing u32

record registry =
  rg_entries :: "u32 \<rightharpoonup> node_entry"
  rg_pubkeys :: "byte list \<rightharpoonup> u32"
  rg_auth_keys :: "string \<rightharpoonup> auth_key_spec"
  rg_consumed :: "string list"
  rg_whitelist :: "prefix list"
  rg_network_id :: u32

definition registry_new :: "u32 \<Rightarrow> registry" where
  "registry_new network_id =
     \<lparr>rg_entries = Map.empty, rg_pubkeys = Map.empty, rg_auth_keys = Map.empty, rg_consumed = [],
      rg_whitelist = [], rg_network_id = network_id\<rparr>"

definition add_auth_key_spec :: "registry \<Rightarrow> string \<Rightarrow> auth_key_spec \<Rightarrow> registry" where
  "add_auth_key_spec g key spec =
     (if list_ex (\<lambda>k. k = key) (rg_consumed g) then g
      else g\<lparr>rg_auth_keys := (rg_auth_keys g)(key \<mapsto> spec)\<rparr>)"

definition add_auth_key :: "registry \<Rightarrow> string \<Rightarrow> auth_key_policy \<Rightarrow> registry" where
  "add_auth_key g key policy = add_auth_key_spec g key (auth_key_simple policy)"

definition remove_auth_key :: "registry \<Rightarrow> string \<Rightarrow> registry" where
  "remove_auth_key g key = g\<lparr>rg_auth_keys := (rg_auth_keys g)(key := None)\<rparr>"

definition has_auth_key :: "registry \<Rightarrow> string \<Rightarrow> bool" where
  "has_auth_key g key = (rg_auth_keys g key \<noteq> None)"

definition set_announce_whitelist :: "registry \<Rightarrow> prefix list \<Rightarrow> registry" where
  "set_announce_whitelist g ws = g\<lparr>rg_whitelist := ws\<rparr>"

fun check_announce_routes :: "registry \<Rightarrow> string list \<Rightarrow> (register_error, unit) outcome" where
  "check_announce_routes g [] = Ok ()"
| "check_announce_routes g (route # routes) =
     obind (omap_err (\<lambda>_. BadRoute) (prefix_parse route)) (\<lambda>p.
       if \<not> list_ex (is_covered_by p) (rg_whitelist g) then Err RouteNotAllowed
       else check_announce_routes g routes)"

definition binding_message :: "u32 \<Rightarrow> byte list \<Rightarrow> u64 \<times> u64 \<Rightarrow> byte list" where
  "binding_message node_id static_pubkey issuance =
     ascii ''rill-binding-v2'' @ be32 node_id @ static_pubkey @ be64 (fst issuance) @ be64 (snd issuance)"

definition register :: "(byte list \<Rightarrow> byte list) \<Rightarrow> registry \<Rightarrow> string \<Rightarrow> byte list \<Rightarrow> u32 \<Rightarrow> string list \<Rightarrow> u32
    \<Rightarrow> u64 \<times> u64 \<Rightarrow> (register_error, register_outcome) outcome \<times> registry" where
  "register sign g auth_key pk caps routes node_id issuance =
     (case rg_auth_keys g auth_key of
        None \<Rightarrow> (Err InvalidAuthKey, g)
      | Some spec \<Rightarrow>
          (case rg_pubkeys g pk of
             Some existing \<Rightarrow>
               (case rg_entries g existing of
                  None \<Rightarrow> (Panic, g)
                | Some entry \<Rightarrow>
                    if ne_capabilities entry = caps \<and> ne_routes entry = routes then (Ok (Existing existing), g)
                    else (Err PubkeyMismatch, g))
           | None \<Rightarrow>
               (case check_announce_routes g routes of
                  Err e \<Rightarrow> (Err e, g)
                | Panic \<Rightarrow> (Panic, g)
                | Ok _ \<Rightarrow>
                    let entry = \<lparr>ne_node_id = node_id, ne_network_id = rg_network_id g, ne_static_pubkey = pk,
                                 ne_capabilities = caps, ne_routes = routes,
                                 ne_identity_binding = sign (binding_message node_id pk issuance),
                                 ne_binding_log_id = issuance\<rparr>;
                        g = g\<lparr>rg_entries := (rg_entries g)(node_id \<mapsto> entry),
                              rg_pubkeys := (rg_pubkeys g)(pk \<mapsto> node_id)\<rparr>;
                        g = (if ak_policy spec = OneTime
                             then g\<lparr>rg_auth_keys := (rg_auth_keys g)(auth_key := None),
                                    rg_consumed := rg_consumed g @ [auth_key]\<rparr>
                             else g)
                    in (Ok (NewNode node_id), g))))"

definition registry_entry :: "registry \<Rightarrow> u32 \<Rightarrow> node_entry option" where
  "registry_entry g node_id = rg_entries g node_id"

definition registry_revoke :: "registry \<Rightarrow> u32 \<Rightarrow> registry" where
  "registry_revoke g node_id =
     (case rg_entries g node_id of
        None \<Rightarrow> g
      | Some entry \<Rightarrow> g\<lparr>rg_entries := (rg_entries g)(node_id := None),
                         rg_pubkeys := (rg_pubkeys g)(ne_static_pubkey entry := None)\<rparr>)"

definition node_id_by_pubkey :: "registry \<Rightarrow> byte list \<Rightarrow> u32 option" where
  "node_id_by_pubkey g pk = rg_pubkeys g pk"

fun restore_entries :: "node_entry list \<Rightarrow> registry \<Rightarrow> registry" where
  "restore_entries [] g = g"
| "restore_entries (e # es) g =
     restore_entries es (g\<lparr>rg_pubkeys := (rg_pubkeys g)(ne_static_pubkey e \<mapsto> ne_node_id e),
                          rg_entries := (rg_entries g)(ne_node_id e \<mapsto> e)\<rparr>)"

definition registry_restore :: "registry \<Rightarrow> node_entry list \<Rightarrow> string list \<Rightarrow> registry" where
  "registry_restore g entries consumed =
     (restore_entries entries (g\<lparr>rg_entries := Map.empty, rg_pubkeys := Map.empty\<rparr>))\<lparr>rg_consumed := consumed\<rparr>"

section \<open>Invariant\<close>

text \<open>
  The two indexes describe the same nodes, every entry stands under its own id, and a consumed
  one-time key is not an accepted key.
\<close>

definition index_ok :: "(u32 \<rightharpoonup> node_entry) \<Rightarrow> (byte list \<rightharpoonup> u32) \<Rightarrow> bool" where
  "index_ok es pks \<longleftrightarrow>
     (\<forall>pk n. pks pk = Some n \<longleftrightarrow> (\<exists>e. es n = Some e \<and> ne_static_pubkey e = pk))
   \<and> (\<forall>n e. es n = Some e \<longrightarrow> ne_node_id e = n)"

definition registry_ok :: "registry \<Rightarrow> bool" where
  "registry_ok g \<longleftrightarrow> index_ok (rg_entries g) (rg_pubkeys g) \<and> (\<forall>k \<in> set (rg_consumed g). rg_auth_keys g k = None)"

lemma index_ok_insert:
  assumes "index_ok es pks" and "es n = None" and "pks pk = None" and "ne_node_id e = n" and "ne_static_pubkey e = pk"
  shows "index_ok (es(n \<mapsto> e)) (pks(pk \<mapsto> n))"
  using assms unfolding index_ok_def by (auto split: if_splits) (metis option.distinct(1))+

lemma index_ok_delete:
  assumes "index_ok es pks" and "es n = Some e"
  shows "index_ok (es(n := None)) (pks(ne_static_pubkey e := None))"
  using assms unfolding index_ok_def by (auto split: if_splits) (metis option.inject)+

lemma check_announce_routes_not_Panic [simp]: "check_announce_routes g routes \<noteq> Panic"
  by (induction routes) (auto simp: outcome_simps)

lemma register_cases:
  obtains (new) spec e where "rg_auth_keys g k = Some spec" "rg_pubkeys g pk = None" "check_announce_routes g routes = Ok ()"
      "e = \<lparr>ne_node_id = n, ne_network_id = rg_network_id g, ne_static_pubkey = pk, ne_capabilities = caps, ne_routes = routes,
            ne_identity_binding = sign (binding_message n pk iss), ne_binding_log_id = iss\<rparr>"
      "register sign g k pk caps routes n iss = (Ok (NewNode n),
         g\<lparr>rg_entries := (rg_entries g)(n \<mapsto> e), rg_pubkeys := (rg_pubkeys g)(pk \<mapsto> n),
           rg_auth_keys := (if ak_policy spec = OneTime then (rg_auth_keys g)(k := None) else rg_auth_keys g),
           rg_consumed := (if ak_policy spec = OneTime then rg_consumed g @ [k] else rg_consumed g)\<rparr>)"
  | (same) r where "register sign g k pk caps routes n iss = (r, g)" "\<And>m. r \<noteq> Ok (NewNode m)"
proof (cases "fst (register sign g k pk caps routes n iss) = Ok (NewNode n)")
  case True
  then show thesis
    by (auto simp: register_def Let_def split: option.splits outcome.splits if_splits intro!: new)
next
  case False
  then have "\<And>m. fst (register sign g k pk caps routes n iss) \<noteq> Ok (NewNode m)"
    and "snd (register sign g k pk caps routes n iss) = g"
    by (auto simp: register_def Let_def split: option.splits outcome.splits if_splits)
  then show thesis by (metis same prod.collapse)
qed

section \<open>Reachable registries\<close>

text \<open>The operations of a running registry; \<open>register\<close> is called with a node id that is not taken.\<close>

inductive reg_op :: "(byte list \<Rightarrow> byte list) \<Rightarrow> registry \<Rightarrow> registry \<Rightarrow> bool" for sign where
  AddKey: "reg_op sign g (add_auth_key_spec g k spec)"
| RemoveKey: "reg_op sign g (remove_auth_key g k)"
| SetWhitelist: "reg_op sign g (set_announce_whitelist g ws)"
| Register: "rg_entries g n = None \<Longrightarrow> reg_op sign g (snd (register sign g k pk caps routes n iss))"
| Revoke: "reg_op sign g (registry_revoke g n)"

text \<open>Restoring replaces the nodes and the consumed keys; the caller checks the persisted state first.\<close>

inductive reg_step :: "(byte list \<Rightarrow> byte list) \<Rightarrow> registry \<Rightarrow> registry \<Rightarrow> bool" for sign where
  Op: "reg_op sign g g' \<Longrightarrow> reg_step sign g g'"
| Restore: "distinct (map ne_node_id es) \<Longrightarrow> distinct (map ne_static_pubkey es)
    \<Longrightarrow> \<forall>k \<in> set consumed. rg_auth_keys g k = None \<Longrightarrow> reg_step sign g (registry_restore g es consumed)"

abbreviation reg_reach :: "(byte list \<Rightarrow> byte list) \<Rightarrow> u32 \<Rightarrow> registry \<Rightarrow> bool" where
  "reg_reach sign net g \<equiv> (reg_step sign)\<^sup>*\<^sup>* (registry_new net) g"

lemma registry_ok_new: "registry_ok (registry_new net)"
  by (simp add: registry_ok_def registry_new_def index_ok_def)

lemma registry_ok_register:
  assumes "registry_ok g" and "rg_entries g n = None"
  shows "registry_ok (snd (register sign g k pk caps routes n iss))"
proof (rule register_cases [of g k pk routes n caps sign iss])
  fix spec e
  assume "rg_pubkeys g pk = None"
    and "e = \<lparr>ne_node_id = n, ne_network_id = rg_network_id g, ne_static_pubkey = pk, ne_capabilities = caps, ne_routes = routes,
            ne_identity_binding = sign (binding_message n pk iss), ne_binding_log_id = iss\<rparr>"
    and "register sign g k pk caps routes n iss = (Ok (NewNode n),
         g\<lparr>rg_entries := (rg_entries g)(n \<mapsto> e), rg_pubkeys := (rg_pubkeys g)(pk \<mapsto> n),
           rg_auth_keys := (if ak_policy spec = OneTime then (rg_auth_keys g)(k := None) else rg_auth_keys g),
           rg_consumed := (if ak_policy spec = OneTime then rg_consumed g @ [k] else rg_consumed g)\<rparr>)"
  with assms index_ok_insert [of "rg_entries g" "rg_pubkeys g" n pk e]
  show ?thesis by (auto simp: registry_ok_def)
qed (use assms in simp)

lemma registry_ok_op: "reg_op sign g g' \<Longrightarrow> registry_ok g \<Longrightarrow> registry_ok g'"
proof (induction rule: reg_op.induct)
  case (AddKey g k spec)
  then show ?case by (auto simp: registry_ok_def add_auth_key_spec_def list_ex_iff)
next
  case (RemoveKey g k)
  then show ?case by (auto simp: registry_ok_def remove_auth_key_def)
next
  case (SetWhitelist g ws)
  then show ?case by (simp add: registry_ok_def set_announce_whitelist_def)
next
  case (Register g n k pk caps routes iss)
  then show ?case by (simp add: registry_ok_register)
next
  case (Revoke g n)
  then show ?case by (auto simp: registry_ok_def registry_revoke_def index_ok_delete split: option.splits)
qed

lemma restore_entries_index:
  assumes "index_ok (rg_entries g) (rg_pubkeys g)" and "distinct (map ne_node_id es)" and "distinct (map ne_static_pubkey es)"
    and "\<forall>e \<in> set es. rg_entries g (ne_node_id e) = None \<and> rg_pubkeys g (ne_static_pubkey e) = None"
  shows "index_ok (rg_entries (restore_entries es g)) (rg_pubkeys (restore_entries es g))"
  using assms
proof (induction es arbitrary: g)
  case (Cons e es)
  let ?g = "g\<lparr>rg_pubkeys := (rg_pubkeys g)(ne_static_pubkey e \<mapsto> ne_node_id e),
             rg_entries := (rg_entries g)(ne_node_id e \<mapsto> e)\<rparr>"
  have i: "index_ok (rg_entries ?g) (rg_pubkeys ?g)"
    using Cons.prems index_ok_insert [of "rg_entries g" "rg_pubkeys g" "ne_node_id e" "ne_static_pubkey e" e] by simp
  have n: "\<forall>x \<in> set es. rg_entries ?g (ne_node_id x) = None \<and> rg_pubkeys ?g (ne_static_pubkey x) = None"
    using Cons.prems by (auto simp: image_iff)
  show ?case using Cons.IH [OF i _ _ n] Cons.prems by simp
qed simp

lemma restore_entries_keeps [simp]: "rg_auth_keys (restore_entries es g) = rg_auth_keys g"
  by (induction es arbitrary: g) simp_all

lemma registry_ok_step: "reg_step sign g g' \<Longrightarrow> registry_ok g \<Longrightarrow> registry_ok g'"
proof (induction rule: reg_step.induct)
  case (Op g g')
  then show ?case by (blast intro: registry_ok_op)
next
  case (Restore es consumed g)
  then show ?case
    using restore_entries_index [of "g\<lparr>rg_entries := Map.empty, rg_pubkeys := Map.empty\<rparr>" es]
    by (simp add: registry_ok_def registry_restore_def index_ok_def)
qed

lemma registry_ok_reach: "(reg_step sign)\<^sup>*\<^sup>* g g' \<Longrightarrow> registry_ok g \<Longrightarrow> registry_ok g'"
  by (induction rule: rtranclp_induct) (auto intro: registry_ok_step)

lemma consumed_kept: "reg_op sign g g' \<Longrightarrow> set (rg_consumed g) \<subseteq> set (rg_consumed g')"
proof (induction rule: reg_op.induct)
  case (Register g n k pk caps routes iss)
  show ?case by (rule register_cases [of g k pk routes n caps sign iss]) auto
next
  case (Revoke g n)
  show ?case by (auto simp: registry_revoke_def split: option.splits)
qed (auto simp: add_auth_key_spec_def remove_auth_key_def set_announce_whitelist_def)

lemma consumed_kept_run: "(reg_op sign)\<^sup>*\<^sup>* g g' \<Longrightarrow> set (rg_consumed g) \<subseteq> set (rg_consumed g')"
  by (induction rule: rtranclp_induct) (use consumed_kept in blast)+

lemma registry_ok_run: "(reg_op sign)\<^sup>*\<^sup>* g g' \<Longrightarrow> registry_ok g \<Longrightarrow> registry_ok g'"
  by (induction rule: rtranclp_induct) (auto intro: registry_ok_op)

lemma announce_within_whitelist:
  assumes "list_all prefix_ok (rg_whitelist g)" and "check_announce_routes g routes = Ok ()" and "r \<in> set routes"
  shows "\<exists>p. prefix_parse r = Ok p \<and> addrs p \<subseteq> \<Union> (addrs ` set (rg_whitelist g))"
  using assms(2,3)
proof (induction routes)
  case (Cons route routes)
  obtain p where p: "prefix_parse route = Ok p" "list_ex (is_covered_by p) (rg_whitelist g)" "check_announce_routes g routes = Ok ()"
    using Cons.prems(1) by (auto simp: outcome_simps split: if_splits)
  have "addrs p \<subseteq> \<Union> (addrs ` set (rg_whitelist g))"
    using wl.gate_sound [OF prefix_parse_ok [OF p(1)] assms(1) p(2)] .
  with p Cons show ?case by auto
qed simp

section \<open>Properties\<close>

text \<open>
  C27: in every registry that can be reached, whatever the order of the operations, the node entries and
  the public-key index describe the same nodes one to one, every entry stands under its own id, no
  consumed one-time key is accepted, and registering never panics.
\<close>

theorem reachable_registry_consistent:
  assumes "reg_reach sign net g"
  shows "index_ok (rg_entries g) (rg_pubkeys g) \<and> (\<forall>k \<in> set (rg_consumed g). \<not> has_auth_key g k)
     \<and> fst (register sign g k pk caps routes n iss) \<noteq> Panic"
proof -
  have ok: "registry_ok g" using registry_ok_reach [OF assms registry_ok_new] .
  then have "fst (register sign g k pk caps routes n iss) \<noteq> Panic"
    by (auto simp: register_def registry_ok_def index_ok_def Let_def split: option.splits outcome.splits if_splits)
  with ok show ?thesis by (simp add: registry_ok_def has_auth_key_def)
qed

definition ex_registry :: registry where
  "ex_registry = set_announce_whitelist
     (add_auth_key_spec (add_auth_key_spec (registry_new 1) ''once'' (auth_key_simple OneTime)) ''many'' (auth_key_simple Reusable))
     [ex_net8]"

lemma ex_registry_reach: "reg_reach sign 1 ex_registry"
proof -
  note s = rtranclp.rtrancl_into_rtrancl and op = reg_step.Op
  have "reg_reach sign 1 (add_auth_key_spec (registry_new 1) ''once'' (auth_key_simple OneTime))"
    using op [OF reg_op.AddKey] by (rule r_into_rtranclp)
  from s [OF s [OF this op [OF reg_op.AddKey]] op [OF reg_op.SetWhitelist]] show ?thesis
    unfolding ex_registry_def .
qed

theorem reachable_registry_consistent_witness:
  "index_ok (rg_entries ex_registry) (rg_pubkeys ex_registry)
   \<and> fst (register (\<lambda>m. m) ex_registry ''once'' [1] 0 [] 5 (0, 0)) \<noteq> Panic"
  using reachable_registry_consistent [OF ex_registry_reach, of "\<lambda>m. m" "''once''" "[1]" 0 "[]" 5 "(0, 0)"] by blast

text \<open>
  C6: a one-time key admits one node: after it registered a new node, no later registration with that
  key succeeds, whatever operations come in between, adding the key again included.
\<close>

theorem one_time_key_is_spent:
  assumes "reg_reach sign net g" and "rg_entries g n = None"
    and "rg_auth_keys g k = Some spec" and "ak_policy spec = OneTime"
    and "register sign g k pk caps routes n iss = (Ok (NewNode n), g1)"
    and "(reg_op sign)\<^sup>*\<^sup>* g1 g2"
  shows "register sign g2 k pk' caps' routes' n' iss' = (Err InvalidAuthKey, g2)"
proof -
  have ok: "registry_ok g" using registry_ok_reach [OF assms(1) registry_ok_new] .
  have "k \<in> set (rg_consumed g1)"
    using assms(3-5) by (rule_tac register_cases [of g k pk routes n caps sign iss]) auto
  then have "k \<in> set (rg_consumed g2)" using consumed_kept_run [OF assms(6)] by blast
  moreover have "registry_ok g2"
    using registry_ok_run [OF assms(6)] registry_ok_register [OF ok assms(2)] assms(5) by (metis snd_conv)
  ultimately show ?thesis by (simp add: register_def registry_ok_def)
qed

theorem one_time_key_is_spent_witness:
  "\<exists>g1. register (\<lambda>m. m) ex_registry ''once'' [1] 0 [] 5 (0, 0) = (Ok (NewNode 5), g1)
     \<and> register (\<lambda>m. m) (add_auth_key_spec g1 ''once'' (auth_key_simple OneTime)) ''once'' [2] 0 [] 6 (0, 0)
         = (Err InvalidAuthKey, add_auth_key_spec g1 ''once'' (auth_key_simple OneTime))"
proof -
  have k: "rg_auth_keys ex_registry ''once'' = Some (auth_key_simple OneTime)" "rg_entries ex_registry 5 = None"
    by (simp_all add: ex_registry_def set_announce_whitelist_def add_auth_key_spec_def registry_new_def)
  then obtain g1 where g1: "register (\<lambda>m. m) ex_registry ''once'' [1] 0 [] 5 (0, 0) = (Ok (NewNode 5), g1)"
    by (simp add: register_def ex_registry_def set_announce_whitelist_def add_auth_key_spec_def registry_new_def Let_def)
  have "(reg_op (\<lambda>m. m))\<^sup>*\<^sup>* g1 (add_auth_key_spec g1 ''once'' (auth_key_simple OneTime))"
    by (rule r_into_rtranclp) (rule reg_op.AddKey)
  from one_time_key_is_spent [OF ex_registry_reach k(2,1) _ g1 this] g1 show ?thesis
    by (simp add: auth_key_simple_def)
qed

text \<open>
  what an admission does: a new node's announced prefixes all parse and contain only addresses the
  whitelist allows, its binding is the signature over its id, key and issuance anchor, it is found under
  its id and its key, all other entries are as before, and registering it again with any accepted key
  and the same data is answered with the same id and changes nothing.
\<close>

theorem admission_effect:
  assumes "register sign g k pk caps routes n iss = (Ok (NewNode n), g')" and "list_all prefix_ok (rg_whitelist g)"
    and "has_auth_key g' k'"
  shows "(\<forall>r \<in> set routes. \<exists>p. prefix_parse r = Ok p \<and> addrs p \<subseteq> \<Union> (addrs ` set (rg_whitelist g)))
     \<and> (\<exists>e. registry_entry g' n = Some e \<and> ne_static_pubkey e = pk \<and> ne_routes e = routes
          \<and> ne_identity_binding e = sign (binding_message n pk iss))
     \<and> node_id_by_pubkey g' pk = Some n
     \<and> (\<forall>m. m \<noteq> n \<longrightarrow> registry_entry g' m = registry_entry g m)
     \<and> register sign g' k' pk caps routes n' iss' = (Ok (Existing n), g')"
proof (rule register_cases [of g k pk routes n caps sign iss])
  fix spec e
  assume c: "check_announce_routes g routes = Ok ()"
    and "e = \<lparr>ne_node_id = n, ne_network_id = rg_network_id g, ne_static_pubkey = pk, ne_capabilities = caps, ne_routes = routes,
            ne_identity_binding = sign (binding_message n pk iss), ne_binding_log_id = iss\<rparr>"
    and "register sign g k pk caps routes n iss = (Ok (NewNode n),
         g\<lparr>rg_entries := (rg_entries g)(n \<mapsto> e), rg_pubkeys := (rg_pubkeys g)(pk \<mapsto> n),
           rg_auth_keys := (if ak_policy spec = OneTime then (rg_auth_keys g)(k := None) else rg_auth_keys g),
           rg_consumed := (if ak_policy spec = OneTime then rg_consumed g @ [k] else rg_consumed g)\<rparr>)"
  then show ?thesis
    using assms announce_within_whitelist [OF assms(2) c]
    by (auto simp: registry_entry_def node_id_by_pubkey_def has_auth_key_def register_def)
qed (use assms in auto)

theorem admission_effect_witness:
  "\<exists>g'. register (\<lambda>m. m) ex_registry ''many'' [1] 0 [to_cidr ex_net16] 5 (0, 0) = (Ok (NewNode 5), g')
     \<and> node_id_by_pubkey g' [1] = Some 5
     \<and> register (\<lambda>m. m) g' ''many'' [1] 0 [to_cidr ex_net16] 9 (1, 1) = (Ok (Existing 5), g')"
proof -
  have w: "list_all prefix_ok (rg_whitelist ex_registry)" by (simp add: ex_registry_def set_announce_whitelist_def ex_nets_ok)
  have c: "check_announce_routes ex_registry [to_cidr ex_net16] = Ok ()"
    by (simp add: prefix_parse_to_cidr ex_nets_ok ex_nets_covered ex_registry_def set_announce_whitelist_def)
  have "rg_auth_keys ex_registry ''many'' = Some (auth_key_simple Reusable)" "rg_pubkeys ex_registry [1] = None"
    by (simp_all add: ex_registry_def set_announce_whitelist_def add_auth_key_spec_def registry_new_def)
  then obtain g' where g': "register (\<lambda>m. m) ex_registry ''many'' [1] 0 [to_cidr ex_net16] 5 (0, 0) = (Ok (NewNode 5), g')"
      "has_auth_key g' ''many''"
    using c by (simp add: register_def auth_key_simple_def has_auth_key_def Let_def)
  then show ?thesis using admission_effect [OF g'(1) w g'(2), of 9 "(1, 1)"] by blast
qed

end
