(* ===== verification/Client_Session.thy ===== *)
theory Client_Session
  imports Crypto
begin

text \<open>
  The client side of the control session: the revocation list of \<^verbatim>\<open>src/rill-core/src/control/revoke.rs\<close>, the session
  state machine of \<^verbatim>\<open>control/session.rs\<close> and the reconnect challenge of \<^verbatim>\<open>control/challenge.rs\<close>. The state machine's
  lemmas go through the interface \<open>invariant_machine\<close>.
\<close>

section \<open>Revocation list\<close>

record revoke_list =
  revoked :: "u32 set"

definition revoke_list_new :: revoke_list where
  "revoke_list_new = \<lparr>revoked = {}\<rparr>"

definition revoke_node :: "revoke_list \<Rightarrow> u32 \<Rightarrow> revoke_list" where
  "revoke_node l n = l\<lparr>revoked := insert n (revoked l)\<rparr>"

definition is_revoked :: "revoke_list \<Rightarrow> u32 \<Rightarrow> bool" where
  "is_revoked l n = (n \<in> revoked l)"

definition revoke_list_len :: "revoke_list \<Rightarrow> nat" where
  "revoke_list_len l = card (revoked l)"

section \<open>Session state machine\<close>

datatype session_state = Unregistered | Registered u32 | Reconnecting u32

datatype session_event =
  RegisterOk u32 | RegisterFailed | LinkLost | ChallengeOk | ChallengeFailed | Revoked u32

datatype session_error = InvalidTransition

record client_session =
  cs_state :: session_state
  cs_revoke_list :: revoke_list

definition client_session_new :: client_session where
  "client_session_new = \<lparr>cs_state = Unregistered, cs_revoke_list = revoke_list_new\<rparr>"

definition client_restore :: "client_session \<Rightarrow> u32 \<Rightarrow> client_session" where
  "client_restore s n = s\<lparr>cs_state := Reconnecting n\<rparr>"

definition handle :: "client_session \<Rightarrow> session_event \<Rightarrow> (session_error, unit) outcome \<times> client_session" where
  "handle s ev =
     (case (cs_state s, ev) of
        (Unregistered, RegisterOk n) \<Rightarrow> (Ok (), s\<lparr>cs_state := Registered n\<rparr>)
      | (Unregistered, RegisterFailed) \<Rightarrow> (Ok (), s)
      | (Registered n, LinkLost) \<Rightarrow> (Ok (), s\<lparr>cs_state := Reconnecting n\<rparr>)
      | (Reconnecting n, ChallengeOk) \<Rightarrow> (Ok (), s\<lparr>cs_state := Registered n\<rparr>)
      | (Reconnecting _, ChallengeFailed) \<Rightarrow> (Ok (), s)
      | (Reconnecting n, RegisterOk m) \<Rightarrow>
          if n = m then (Ok (), s\<lparr>cs_state := Registered m\<rparr>) else (Err InvalidTransition, s)
      | (Registered n, RegisterOk m) \<Rightarrow> if n = m then (Ok (), s) else (Err InvalidTransition, s)
      | (_, Revoked m) \<Rightarrow>
          (case cs_state s of
             Registered self \<Rightarrow>
               if self = m then (Ok (), s\<lparr>cs_revoke_list := revoke_node (cs_revoke_list s) m, cs_state := Unregistered\<rparr>)
               else (Ok (), s\<lparr>cs_revoke_list := revoke_node (cs_revoke_list s) m\<rparr>)
           | Reconnecting self \<Rightarrow>
               if self = m then (Ok (), s\<lparr>cs_revoke_list := revoke_node (cs_revoke_list s) m, cs_state := Unregistered\<rparr>)
               else (Ok (), s\<lparr>cs_revoke_list := revoke_node (cs_revoke_list s) m\<rparr>)
           | Unregistered \<Rightarrow> (Ok (), s\<lparr>cs_revoke_list := revoke_node (cs_revoke_list s) m\<rparr>))
      | (_, _) \<Rightarrow> (Err InvalidTransition, s))"

section \<open>Reconnect challenge\<close>

text \<open>The X25519 base point, and a public key as the Diffie-Hellman function applied to it.\<close>

definition base_point :: "byte list" where
  "base_point = 9 # replicate 31 0"

definition eph_pub_from_priv :: "prims \<Rightarrow> byte list \<Rightarrow> byte list" where
  "eph_pub_from_priv p eph_priv = x25519 p eph_priv base_point"

definition compute_tag :: "prims \<Rightarrow> byte list \<Rightarrow> byte list \<Rightarrow> byte list \<Rightarrow> u32 \<Rightarrow> byte list" where
  "compute_tag p node_static_priv eph_pub nonce_bytes node_id =
     (let shared = x25519_shared p node_static_priv eph_pub;
          mac_key = derive_challenge_key p shared nonce_bytes
      in hmac p mac_key (be32 node_id @ nonce_bytes @ eph_pub))"

definition verify_tag :: "prims \<Rightarrow> byte list \<Rightarrow> byte list \<Rightarrow> byte list \<Rightarrow> u32 \<Rightarrow> byte list \<Rightarrow> bool" where
  "verify_tag p node_static_pub eph_priv nonce_bytes node_id tag =
     (let shared = x25519_shared p eph_priv node_static_pub;
          mac_key = derive_challenge_key p shared nonce_bytes
      in hmac p mac_key (be32 node_id @ nonce_bytes @ eph_pub_from_priv p eph_priv) = tag)"

definition saturating_add :: "u64 \<Rightarrow> u64 \<Rightarrow> u64" where
  "saturating_add a b = (if a + b < a then - 1 else a + b)"

definition within_window :: "u64 \<Rightarrow> u64 \<Rightarrow> u64 \<Rightarrow> bool" where
  "within_window issued_at now window = (now \<le> saturating_add issued_at window)"

section \<open>Runs of the state machine\<close>

abbreviation client_step :: "client_session \<Rightarrow> session_event \<Rightarrow> client_session" where
  "client_step s ev \<equiv> snd (handle s ev)"

fun session_id :: "session_state \<Rightarrow> u32 option" where
  "session_id Unregistered = None"
| "session_id (Registered n) = Some n"
| "session_id (Reconnecting n) = Some n"

lemma handle_error_keeps: "fst (handle s ev) = Err e \<Longrightarrow> client_step s ev = s"
  by (auto simp: handle_def split: session_state.splits session_event.splits if_splits)

lemma handle_not_Panic: "fst (handle s ev) \<noteq> Panic"
  by (auto simp: handle_def split: session_state.splits session_event.splits if_splits)

lemma step_id:
  "session_id (cs_state s) = Some n \<Longrightarrow> ev \<noteq> Revoked n \<Longrightarrow> session_id (cs_state (client_step s ev)) = Some n"
  by (auto simp: handle_def split: session_state.splits session_event.splits if_splits)

lemma step_revoked:
  "is_revoked (cs_revoke_list (client_step s ev)) n \<longleftrightarrow> is_revoked (cs_revoke_list s) n \<or> ev = Revoked n"
  by (auto simp: handle_def is_revoked_def revoke_node_def split: session_state.splits session_event.splits if_splits)

lemma step_origin:
  "session_id (cs_state (client_step s ev)) = Some n \<Longrightarrow> session_id (cs_state s) = Some n \<or> ev = RegisterOk n"
  by (auto simp: handle_def split: session_state.splits session_event.splits if_splits)

interpretation keep: invariant_machine client_step "\<lambda>s. session_id (cs_state s) = Some n" "\<lambda>_ ev. ev \<noteq> Revoked n"
  by unfold_locales (rule step_id)

lemma keep_guarded: "keep.guarded n s evs \<longleftrightarrow> Revoked n \<notin> set evs"
  by (induction evs arbitrary: s) auto

lemma run_revoked:
  "is_revoked (cs_revoke_list (foldl client_step s evs)) n \<longleftrightarrow> is_revoked (cs_revoke_list s) n \<or> Revoked n \<in> set evs"
  by (induction evs arbitrary: s) (auto simp: step_revoked)

lemma run_origin:
  "session_id (cs_state (foldl client_step s evs)) = Some n
     \<Longrightarrow> session_id (cs_state s) = Some n \<or> RegisterOk n \<in> set evs"
  by (induction evs arbitrary: s) (auto dest!: step_origin)

lemma within_window_iff: "within_window issued now w \<longleftrightarrow> unat now \<le> unat issued + unat w"
proof (cases "issued + w < issued")
  case True
  then have "\<not> unat issued + unat w < 2 ^ LENGTH(64)"
    by (metis add_leD1 leD le_add1 unat_add_lem word_less_nat_alt)
  then show ?thesis
    using True unsigned_less [of now, where ?'a = nat] by (simp add: within_window_def saturating_add_def)
next
  case False
  then have "unat (issued + w) = unat issued + unat w"
    by (metis no_olen_add_nat not_less unat_add_lem word_le_nat_alt)
  then show ?thesis using False by (simp add: within_window_def saturating_add_def word_le_nat_alt)
qed

section \<open>Properties\<close>



text \<open>
  the reconnect challenge accepts the honest node: the tag a node computes from its static key and
  the server's ephemeral public key verifies at the server, which holds the node's public key and the
  ephemeral secret, for every nonce and node id; and the time window is exact, also where the sum of
  issue time and window exceeds 64 bits.
\<close>

theorem challenge_accepts_honest:
  assumes "dh_ok p base_point"
  shows "verify_tag p (eph_pub_from_priv p node_priv) eph_priv n node_id
       (compute_tag p node_priv (eph_pub_from_priv p eph_priv) n node_id)
     \<and> (within_window issued now w \<longleftrightarrow> unat now \<le> unat issued + unat w)"
  using assms within_window_iff
  by (simp add: verify_tag_def compute_tag_def x25519_shared_def eph_pub_from_priv_def dh_ok_def)

theorem challenge_accepts_honest_witness:
  "verify_tag toy_prims (eph_pub_from_priv toy_prims [3]) [5] [1, 2] 9
     (compute_tag toy_prims [3] (eph_pub_from_priv toy_prims [5]) [1, 2] 9)"
  using challenge_accepts_honest [OF toy_dh_ok] by blast

end
