(* ===== verification/Bgp_Wire.thy ===== *)
theory Bgp_Wire
  imports Route_Prefix
begin

unbundle bit_operations_syntax

text \<open>
  The BGP message codec of \<^verbatim>\<open>src/rill-dn42/src/wire/mod.rs\<close>: messages, capabilities, path attributes, the encoder that
  appends to a buffer, the decoder and the incremental frame reader. This theory holds the definitions;
  the round trip is in \<open>Bgp_Roundtrip\<close>. Slices that can leave their range are modelled with the panic
  they cause.
\<close>

section \<open>Messages\<close>

datatype wire_error =
  BadMarker | BadLength u16 | WTruncated | BadOpen | BadUpdate | UnknownWellKnown u8 | TooLong | BadType u8

datatype capability = MpBgp u16 u8 | CapRouteRefresh | FourOctetAs u32

record open_msg =
  om_as4 :: u32
  om_hold_time :: u16
  om_bgp_id :: "byte list"
  om_capabilities :: "capability list"

record segment =
  seg_set :: bool
  seg_asns :: "u32 list"

datatype path_attr =
  Origin u8
| AsPath "segment list"
| As4Path "segment list"
| NextHop "byte list"
| Communities "u32 list"
| MpReach u16 u8 ip_addr "prefix list"
| MpUnreach u16 u8 "prefix list"

record update_msg =
  um_withdrawn :: "prefix list"
  um_attrs :: "path_attr list"
  um_announced :: "prefix list"

record notification_msg =
  nm_code :: u8
  nm_subcode :: u8
  nm_data :: "byte list"

record route_refresh_msg =
  rr_afi :: u16
  rr_safi :: u8

datatype message =
  OpenM open_msg
| UpdateM update_msg
| NotificationM notification_msg
| Keepalive
| RouteRefreshM route_refresh_msg

abbreviation (input) AS_TRANS :: u16 where "AS_TRANS \<equiv> 23456"
abbreviation (input) MAX_MSG_LEN :: nat where "MAX_MSG_LEN \<equiv> 4096"

section \<open>Encoding\<close>

fun capability_encode :: "capability \<Rightarrow> byte list" where
  "capability_encode (MpBgp afi safi) = [1, 4] @ be16 afi @ [0, safi]"
| "capability_encode CapRouteRefresh = [2, 0]"
| "capability_encode (FourOctetAs asn) = [65, 4] @ be32 asn"

definition prefix_octets :: "u8 \<Rightarrow> nat" where
  "prefix_octets bits = unat bits div 8 + (if unat bits mod 8 = 0 then 0 else 1)"

definition write_nlri :: "prefix \<Rightarrow> byte list" where
  "write_nlri p = plen p # take (min (prefix_octets (plen p)) (if pv4 p then 4 else 16)) (pbits p)"

definition write_asn :: "bool \<Rightarrow> u32 \<Rightarrow> byte list" where
  "write_asn wide asn =
     (if wide then be32 asn
      else if 65535 < asn then be16 AS_TRANS
      else be16 (ucast asn))"

definition write_segment :: "bool \<Rightarrow> segment \<Rightarrow> byte list" where
  "write_segment wide seg =
     (if seg_set seg then 1 else 2) # word_of_nat (length (seg_asns seg)) # concat (map (write_asn wide) (seg_asns seg))"

definition write_segments :: "bool \<Rightarrow> segment list \<Rightarrow> byte list" where
  "write_segments wide segs = concat (map (write_segment wide) segs)"

fun write_v6_nlris :: "prefix list \<Rightarrow> (wire_error, byte list) outcome" where
  "write_v6_nlris [] = Ok []"
| "write_v6_nlris (p # ps) =
     (if pv4 p then Err BadUpdate
      else obind (write_v6_nlris ps) (\<lambda>bs. Ok (write_nlri p @ bs)))"

fun attr_value :: "path_attr \<Rightarrow> (wire_error, byte list \<times> u8 \<times> bool) outcome" where
  "attr_value (Origin q) = Ok ([q], 1, False)"
| "attr_value (AsPath segs) = Ok (write_segments True segs, 2, False)"
| "attr_value (As4Path segs) = Ok (write_segments True segs, 17, True)"
| "attr_value (NextHop ip) = Ok (ip, 3, False)"
| "attr_value (Communities cs) = Ok (concat (map be32 cs), 8, True)"
| "attr_value (MpReach afi safi next_hop nlri) =
     obind (write_v6_nlris nlri) (\<lambda>bs.
       Ok (be16 afi @ [safi]
           @ (case next_hop of V4 os \<Rightarrow> 4 # os | V6 os \<Rightarrow> 16 # os)
           @ [0] @ bs, 14, True))"
| "attr_value (MpUnreach afi safi nlri) =
     obind (write_v6_nlris nlri) (\<lambda>bs. Ok (be16 afi @ [safi] @ bs, 15, True))"

definition attr_flags :: "path_attr \<Rightarrow> bool \<Rightarrow> u8" where
  "attr_flags attr optional =
     (case attr of As4Path _ \<Rightarrow> 0xC0 | _ \<Rightarrow> if optional then 0x80 else 0x40)"

definition write_attr :: "path_attr \<Rightarrow> (wire_error, byte list) outcome" where
  "write_attr attr =
     obind (attr_value attr) (\<lambda>(value, ty, optional).
       let flags = attr_flags attr optional in
       if 255 < length value
       then Ok ([flags OR 0x10, ty] @ be16 (word_of_nat (length value)) @ value)
       else Ok ([flags, ty, word_of_nat (length value)] @ value))"

fun write_attrs :: "path_attr list \<Rightarrow> (wire_error, byte list) outcome" where
  "write_attrs [] = Ok []"
| "write_attrs (a # as) = obind (write_attr a) (\<lambda>b. obind (write_attrs as) (\<lambda>bs. Ok (b @ bs)))"

text \<open>
  What the arms of \<open>encode\<close> push behind the header, together with the message type or the error they
  return; the bytes pushed before an error stay in the caller's buffer.
\<close>

fun encode_body :: "message \<Rightarrow> byte list \<times> (wire_error, u8) outcome" where
  "encode_body (OpenM m) =
     (let my_as = (if 65535 < om_as4 m then AS_TRANS else ucast (om_as4 m));
          fixed = [4] @ be16 my_as @ be16 (om_hold_time m) @ om_bgp_id m;
          caps = concat (map capability_encode (om_capabilities m))
      in if 255 < length caps then (fixed, Err TooLong)
         else (fixed @ [word_of_nat (length caps + 2), 2, word_of_nat (length caps)] @ caps, Ok 1))"
| "encode_body (UpdateM m) =
     (if list_ex (\<lambda>p. \<not> pv4 p) (um_withdrawn m) \<or> list_ex (\<lambda>p. \<not> pv4 p) (um_announced m)
      then ([], Err BadUpdate)
      else let w = concat (map write_nlri (um_withdrawn m)) in
        if 65535 < length w then ([], Err TooLong)
        else let out = be16 (word_of_nat (length w)) @ w in
          case write_attrs (um_attrs m) of
            Err e \<Rightarrow> (out, Err e)
          | Panic \<Rightarrow> (out, Panic)
          | Ok attrs \<Rightarrow>
              if 65535 < length attrs then (out, Err TooLong)
              else (out @ be16 (word_of_nat (length attrs)) @ attrs @ concat (map write_nlri (um_announced m)), Ok 2))"
| "encode_body (NotificationM m) = ([nm_code m, nm_subcode m] @ nm_data m, Ok 3)"
| "encode_body Keepalive = ([], Ok 4)"
| "encode_body (RouteRefreshM m) = (be16 (rr_afi m) @ [0, rr_safi m], Ok 5)"

definition encode :: "message \<Rightarrow> byte list \<Rightarrow> (wire_error, unit) outcome \<times> byte list" where
  "encode m out =
     (let body_start = length out;
          out = out @ replicate 19 0xff;
          (pushed, r) = encode_body m;
          out = out @ pushed
      in case r of
           Err e \<Rightarrow> (Err e, out)
         | Panic \<Rightarrow> (Panic, out)
         | Ok ty \<Rightarrow>
             let total = length out - body_start in
             if MAX_MSG_LEN < total then (Err TooLong, take body_start out)
             else (Ok (), take (body_start + 16) out @ be16 (word_of_nat total) @ [ty] @ drop (body_start + 19) out))"

section \<open>Decoding\<close>

text \<open>One capability: what the inner loop of \<open>decode_open\<close> does with it.\<close>

definition push_capability :: "byte list \<Rightarrow> u32 \<times> capability list \<Rightarrow> u32 \<times> capability list" where
  "push_capability cvalue acc =
     (case acc of (as4, caps) \<Rightarrow>
        if cvalue ! 0 = 1 \<and> length cvalue = 6
        then (as4, caps @ [MpBgp (get16 (slice 2 4 cvalue)) (cvalue ! 5)])
        else if cvalue ! 0 = 2 \<and> cvalue ! 1 = 0 then (as4, caps @ [CapRouteRefresh])
        else if cvalue ! 0 = 65 \<and> length cvalue = 6
        then let asn = get32 (slice 2 6 cvalue) in (asn, caps @ [FourOctetAs asn])
        else (as4, caps))"

function caps_loop :: "byte list \<Rightarrow> u32 \<times> capability list \<Rightarrow> (wire_error, u32 \<times> capability list) outcome" where
  "caps_loop caps acc =
     (if caps = [] then Ok acc
      else if length caps < 2 then Err BadOpen
      else let clen = unat (caps ! 1) in
        if length caps < 2 + clen then Err BadOpen
        else caps_loop (drop (2 + clen) caps) (push_capability (take (2 + clen) caps) acc))"
  by auto
termination by (relation "measure (\<lambda>(caps, acc). length caps)") auto

function params_loop :: "byte list \<Rightarrow> u32 \<times> capability list \<Rightarrow> (wire_error, u32 \<times> capability list) outcome" where
  "params_loop rest acc =
     (if rest = [] then Ok acc
      else if length rest < 2 then Err BadOpen
      else let plen = unat (rest ! 1) in
        if length rest < 2 + plen then Err BadOpen
        else let val = take (2 + plen) rest; tail = drop (2 + plen) rest in
          if val ! 0 = 2 then
            (case caps_loop (drop 2 val) acc of
               Ok acc \<Rightarrow> params_loop tail acc
             | Err e \<Rightarrow> Err e
             | Panic \<Rightarrow> Panic)
          else params_loop tail acc)"
  by auto
termination by (relation "measure (\<lambda>(rest, acc). length rest)") auto

definition decode_open :: "byte list \<Rightarrow> (wire_error, message) outcome" where
  "decode_open body =
     (if length body < 10 then Err WTruncated
      else let my_as = ucast (get16 (slice 1 3 body));
               hold_time = get16 (slice 3 5 body);
               bgp_id = slice 5 9 body;
               opt_len = unat (body ! 9)
        in if length body < 10 + opt_len then Err WTruncated
           else obind (params_loop (slice 10 (10 + opt_len) body) (my_as, [])) (\<lambda>(as4, caps).
             Ok (OpenM \<lparr>om_as4 = as4, om_hold_time = hold_time, om_bgp_id = bgp_id, om_capabilities = caps\<rparr>)))"

function read_nlris :: "bool \<Rightarrow> byte list \<Rightarrow> (wire_error, prefix list) outcome" where
  "read_nlris v4 buf =
     (if buf = [] then Ok []
      else let bits = buf ! 0; octets = prefix_octets bits in
        if length buf < 1 + octets then Err WTruncated
        else if 16 < octets then Panic
        else let pbits = slice 1 (1 + octets) buf @ replicate (16 - octets) 0 in
          case prefix_new pbits bits v4 of
            None \<Rightarrow> Err BadUpdate
          | Some p \<Rightarrow> obind (read_nlris v4 (drop (1 + octets) buf)) (\<lambda>ps. Ok (p # ps)))"
  by auto
termination by (relation "measure (\<lambda>(v4, buf). length buf)") auto

definition read_asns :: "bool \<Rightarrow> nat \<Rightarrow> byte list \<Rightarrow> u32 list" where
  "read_asns wide count bs =
     map (\<lambda>i. if wide then get32 (slice (4 * i) (4 * i + 4) bs) else ucast (get16 (slice (2 * i) (2 * i + 2) bs)))
       [0..<count]"

function decode_segments_exact :: "bool \<Rightarrow> byte list \<Rightarrow> (wire_error, segment list) outcome" where
  "decode_segments_exact wide buf =
     (if buf = [] then Ok []
      else if length buf < 2 then Err WTruncated
      else let count = unat (buf ! 1); asn_len = (if wide then 4 else 2) in
        if length buf < 2 + count * asn_len then Err WTruncated
        else let asns = read_asns wide count (slice 2 (2 + count * asn_len) buf) in
          obind (decode_segments_exact wide (drop (2 + count * asn_len) buf))
            (\<lambda>segs. Ok (\<lparr>seg_set = (buf ! 0 = 1), seg_asns = asns\<rparr> # segs)))"
  by auto
termination by (relation "measure (\<lambda>(wide, buf). length buf)") auto

definition decode_next_hop :: "byte list \<Rightarrow> (wire_error, ip_addr) outcome" where
  "decode_next_hop bs =
     (if length bs = 4 then Ok (V4 bs)
      else if length bs = 16 \<or> length bs = 32 then
        let bits = take 16 bs in
        if take 12 bits = replicate 10 0 @ [0xff, 0xff] then Ok (V4 (drop 12 bits)) else Ok (V6 bits)
      else Err BadUpdate)"

definition decode_mp_reach :: "byte list \<Rightarrow> (wire_error, path_attr) outcome" where
  "decode_mp_reach v =
     (if length v < 3 then Err WTruncated
      else let afi = get16 (slice 0 2 v); safi = v ! 2; v4 = (afi = 1) in
        if length v < 4 then Err WTruncated
        else let nh_len = unat (v ! 3) in
          if length v < 4 + nh_len + 1 then Err WTruncated
          else obind (decode_next_hop (slice 4 (4 + nh_len) v)) (\<lambda>next_hop.
            obind (read_nlris v4 (drop (5 + nh_len) v)) (\<lambda>nlri. Ok (MpReach afi safi next_hop nlri))))"

definition decode_mp_unreach :: "byte list \<Rightarrow> (wire_error, path_attr) outcome" where
  "decode_mp_unreach v =
     (if length v < 3 then Err WTruncated
      else let afi = get16 (slice 0 2 v); safi = v ! 2 in
        obind (read_nlris (afi = 1) (drop 3 v)) (\<lambda>nlri. Ok (MpUnreach afi safi nlri)))"

definition or_else :: "('e, 'a) outcome \<Rightarrow> ('e, 'a) outcome \<Rightarrow> ('e, 'a) outcome" where
  "or_else r s = (case r of Err _ \<Rightarrow> s | _ \<Rightarrow> r)"

text \<open>One attribute: the \<open>match\<close> of \<open>decode_attrs\<close>, from the accumulated attributes and communities.\<close>

definition decode_attr :: "u8 \<Rightarrow> bool \<Rightarrow> byte list \<Rightarrow> path_attr list \<times> u32 list
    \<Rightarrow> (wire_error, path_attr list \<times> u32 list) outcome" where
  "decode_attr ty optional val acc =
     (case acc of (attrs, comms) \<Rightarrow>
        if ty = 1 \<and> length val = 1 then Ok (attrs @ [Origin (val ! 0)], comms)
        else if ty = 2 then
          obind (or_else (decode_segments_exact True val) (decode_segments_exact False val))
            (\<lambda>segs. Ok (attrs @ [AsPath segs], comms))
        else if ty = 3 \<and> length val = 4 then Ok (attrs @ [NextHop val], comms)
        else if ty = 8 then
          if length val mod 4 \<noteq> 0 then Err BadUpdate
          else Ok (attrs, comms @ read_asns True (length val div 4) val)
        else if ty = 14 then obind (decode_mp_reach val) (\<lambda>a. Ok (attrs @ [a], comms))
        else if ty = 15 then obind (decode_mp_unreach val) (\<lambda>a. Ok (attrs @ [a], comms))
        else if ty = 17 then obind (decode_segments_exact True val) (\<lambda>segs. Ok (attrs @ [As4Path segs], comms))
        else if optional then Ok (attrs, comms)
        else Err (UnknownWellKnown ty))"

function attrs_loop :: "byte list \<Rightarrow> path_attr list \<times> u32 list \<Rightarrow> (wire_error, path_attr list \<times> u32 list) outcome" where
  "attrs_loop buf acc =
     (if buf = [] then Ok acc
      else if length buf < 2 then Err WTruncated
      else let flags = buf ! 0; ty = buf ! 1; ext = (flags AND 0x10 \<noteq> 0); hdr = (if ext then 4 else 3) in
        if length buf < hdr then Err WTruncated
        else let len = (if ext then unat (get16 (slice 2 4 buf)) else unat (buf ! 2)) in
          if length buf < hdr + len then Err WTruncated
          else case decode_attr ty (flags AND 0x80 \<noteq> 0) (slice hdr (hdr + len) buf) acc of
              Ok acc \<Rightarrow> attrs_loop (drop (hdr + len) buf) acc
            | Err e \<Rightarrow> Err e
            | Panic \<Rightarrow> Panic)"
  by auto
termination by (relation "measure (\<lambda>(buf, acc). length buf)") (auto simp: Let_def)

definition decode_attrs :: "byte list \<Rightarrow> (wire_error, path_attr list) outcome" where
  "decode_attrs buf =
     obind (attrs_loop buf ([], [])) (\<lambda>(attrs, comms).
       Ok (if comms \<noteq> [] then attrs @ [Communities comms] else attrs))"

definition decode_update :: "byte list \<Rightarrow> (wire_error, message) outcome" where
  "decode_update body =
     (if length body < 4 then Err WTruncated
      else let wlen = unat (get16 (slice 0 2 body)) in
        if length body < 2 + wlen + 2 then Err WTruncated
        else obind (read_nlris True (slice 2 (2 + wlen) body)) (\<lambda>withdrawn.
          let alen = unat (get16 (slice (2 + wlen) (4 + wlen) body)) in
          if length body < 2 + wlen + 2 + alen then Err WTruncated
          else obind (decode_attrs (slice (4 + wlen) (4 + wlen + alen) body)) (\<lambda>attrs.
            obind (read_nlris True (drop (4 + wlen + alen) body)) (\<lambda>announced.
              Ok (UpdateM \<lparr>um_withdrawn = withdrawn, um_attrs = attrs, um_announced = announced\<rparr>)))))"

definition decode :: "byte list \<Rightarrow> (wire_error, message) outcome" where
  "decode buf =
     (if length buf < 19 then Err WTruncated
      else if list_ex (\<lambda>b. b \<noteq> 0xff) (take 16 buf) then Err BadMarker
      else let len = get16 (slice 16 18 buf) in
        if unat len \<noteq> length buf then Err (BadLength len)
        else let body = drop 19 buf; ty = buf ! 18 in
          if ty = 4 then Ok Keepalive
          else if ty = 1 then decode_open body
          else if ty = 2 then decode_update body
          else if ty = 3 then
            obind (ok_or WTruncated (get_at 0 body)) (\<lambda>code.
              obind (ok_or WTruncated (get_at 1 body)) (\<lambda>subcode.
                Ok (NotificationM \<lparr>nm_code = code, nm_subcode = subcode, nm_data = drop 2 body\<rparr>)))
          else if ty = 5 then
            if length body \<noteq> 4 then Err WTruncated
            else Ok (RouteRefreshM \<lparr>rr_afi = get16 (slice 0 2 body), rr_safi = body ! 3\<rparr>)
          else Err (BadType ty))"

section \<open>The frame reader\<close>

record frame_reader =
  fr_buf :: "byte list"

function feed_loop :: "byte list \<Rightarrow> message list \<Rightarrow> (wire_error, unit) outcome \<times> byte list \<times> message list" where
  "feed_loop buf out =
     (if length buf < 19 then (Ok (), buf, out)
      else if list_ex (\<lambda>b. b \<noteq> 0xff) (take 16 buf) then (Err BadMarker, buf, out)
      else let len = get16 (slice 16 18 buf) in
        if \<not> (19 \<le> unat len \<and> unat len \<le> MAX_MSG_LEN) then (Err (BadLength len), buf, out)
        else if length buf < unat len then (Ok (), buf, out)
        else case decode (take (unat len) buf) of
               Err e \<Rightarrow> (Err e, buf, out)
             | Panic \<Rightarrow> (Panic, buf, out)
             | Ok m \<Rightarrow> feed_loop (drop (unat len) buf) (out @ [m]))"
  by auto
termination by (relation "measure (\<lambda>(buf, out). length buf)") auto

definition feed :: "frame_reader \<Rightarrow> byte list \<Rightarrow> message list
    \<Rightarrow> (wire_error, unit) outcome \<times> frame_reader \<times> message list" where
  "feed r data out =
     (case feed_loop (fr_buf r @ data) out of (res, buf, out) \<Rightarrow> (res, r\<lparr>fr_buf := buf\<rparr>, out))"

declare caps_loop.simps [simp del] params_loop.simps [simp del] read_nlris.simps [simp del]
  decode_segments_exact.simps [simp del] attrs_loop.simps [simp del] feed_loop.simps [simp del]

end
