(* ===== verification/Bgp_Roundtrip.thy ===== *)
theory Bgp_Roundtrip
  imports Bgp_Wire
begin

unbundle bit_operations_syntax

text \<open>
  Decoding inverts encoding for the BGP codec. The byte-consuming loops for prefixes, path segments and
  capabilities are interpretations of the interface \<open>item_loop\<close>; attributes, messages and the frame reader are
  built on them.
\<close>

lemma unat_u16: "n < 2 ^ 16 \<Longrightarrow> unat (word_of_nat n :: u16) = n"
  by (simp add: unat_of_nat)

lemma unat_u8: "n < 2 ^ 8 \<Longrightarrow> unat (word_of_nat n :: u8) = n"
  by (simp add: unat_of_nat)

section \<open>Prefixes\<close>

lemma prefix_octets_le: "unat len \<le> 8 * n \<Longrightarrow> prefix_octets len \<le> n"
  unfolding prefix_octets_def by presburger

lemma prefix_octets_ge: "unat len \<le> 8 * prefix_octets len"
  unfolding prefix_octets_def by presburger

lemma prefix_octets_bound:
  assumes "prefix_ok p"
  shows "prefix_octets (plen p) \<le> (if pv4 p then 4 else 16)"
  using plen_le [OF assms] by (auto simp: family_bits_def intro!: prefix_octets_le)

lemma pbits_tail:
  assumes "prefix_ok p"
  shows "take (prefix_octets (plen p)) (pbits p) @ replicate (16 - prefix_octets (plen p)) 0 = pbits p"
proof -
  let ?o = "prefix_octets (plen p)"
  have o: "?o \<le> 16" using prefix_octets_bound [OF assms] by (auto split: if_splits)
  have "take_bit (128 - unat (plen p)) (get128 (pbits p)) = 0" using assms by (simp add: prefix_ok_def)
  moreover have "8 * (16 - ?o) \<le> 128 - unat (plen p)" using prefix_octets_ge [of "plen p"] o by arith
  ultimately have "take_bit (8 * (16 - ?o)) (get128 (pbits p)) = 0"
    using take_bit_take_bit [of "8 * (16 - ?o)" "128 - unat (plen p)" "get128 (pbits p)"] by (simp add: min_absorb1)
  from be128_low_bytes [OF this] o assms show ?thesis by (simp add: prefix_ok_def be_get128)
qed

lemma write_nlri_eq: "prefix_ok p \<Longrightarrow> write_nlri p = plen p # take (prefix_octets (plen p)) (pbits p)"
  using prefix_octets_bound [of p] by (simp add: write_nlri_def min_absorb1)

lemma read_write_nlri:
  assumes "prefix_ok p" and "pv4 p = v4"
  shows "read_nlris v4 (write_nlri p @ rest) = obind (read_nlris v4 rest) (\<lambda>ps. Ok (p # ps))"
proof -
  let ?o = "prefix_octets (plen p)"
  have o: "?o \<le> 16" using prefix_octets_bound [OF assms(1)] by (auto split: if_splits)
  then have "length (take ?o (pbits p)) = ?o" using assms(1) by (simp add: prefix_ok_def)
  then show ?thesis
    using o pbits_tail [OF assms(1)] prefix_new_canonical [OF assms(1)] assms(2)
    by (subst read_nlris.simps) (simp add: write_nlri_eq [OF assms(1)] slice_def Let_def)
qed

interpretation nlri: item_loop write_nlri "\<lambda>p. prefix_ok p \<and> pv4 p = v4" "read_nlris v4"
  by unfold_locales (simp_all add: read_nlris.simps [of v4 "[]"] read_write_nlri)

section \<open>Path segments\<close>

definition segment_ok :: "segment \<Rightarrow> bool" where
  "segment_ok s \<longleftrightarrow> length (seg_asns s) < 256"

lemma length_be32s [simp]: "length (concat (map be32 ws)) = 4 * length ws"
  by (induction ws) simp_all

lemma be32s_slice:
  "i < length ws \<Longrightarrow> slice (4 * i) (4 * i + 4) (concat (map be32 ws) @ rest) = be32 (ws ! i)"
proof (induction ws arbitrary: i)
  case (Cons w ws)
  show ?case
  proof (cases i)
    case 0
    then show ?thesis by (simp add: slice_def)
  next
    case (Suc j)
    have "slice (4 * i) (4 * i + 4) (concat (map be32 (w # ws)) @ rest) = slice (4 * j) (4 * j + 4) (concat (map be32 ws) @ rest)"
      using Suc by (simp add: slice_append_right algebra_simps)
    with Cons Suc show ?thesis by simp
  qed
qed simp

lemma read_be32s: "read_asns True (length ws) (concat (map be32 ws)) = ws"
  using be32s_slice [of _ ws "[]"] by (auto simp: read_asns_def intro!: nth_equalityI)

lemma read_write_segment:
  assumes "segment_ok s"
  shows "decode_segments_exact True (write_segment True s @ rest)
    = obind (decode_segments_exact True rest) (\<lambda>segs. Ok (s # segs))"
proof -
  have "write_asn True = be32" by (auto simp: write_asn_def)
  moreover have "unat (word_of_nat (length (seg_asns s)) :: u8) = length (seg_asns s)"
    using assms by (simp add: segment_ok_def unat_of_nat)
  moreover have "((if seg_set s then 1 else 2) = (1 :: u8)) = seg_set s" by simp
  ultimately show ?thesis
    by (subst decode_segments_exact.simps, cases s)
       (simp add: write_segment_def slice_def read_be32s mult.commute Let_def)
qed

interpretation seg: item_loop "write_segment True" segment_ok "decode_segments_exact True"
  by unfold_locales (simp_all add: decode_segments_exact.simps [of True "[]"] read_write_segment)

section \<open>Capabilities\<close>

fun cap_as :: "u32 \<Rightarrow> capability \<Rightarrow> u32" where
  "cap_as a (FourOctetAs n) = n"
| "cap_as a _ = a"

lemma length_capability: "length (capability_encode c) \<le> 6" "2 \<le> length (capability_encode c)"
  by (cases c; simp)+

lemma caps_loop_encode:
  "caps_loop (capability_encode c @ rest) (a, cs) = caps_loop rest (cap_as a c, cs @ [c])"
  by (cases c)
     (simp_all add: caps_loop.simps [of "capability_encode _ @ rest"] caps_loop.simps [of "_ # _"] push_capability_def Let_def
       slice_append_left slice_append_right slice_def nth_append)

lemma caps_loop_encodes:
  "caps_loop (concat (map capability_encode cs)) (a, ds) = Ok (foldl cap_as a cs, ds @ cs)"
  by (induction cs arbitrary: a ds) (simp_all add: caps_loop.simps [of "[]"] caps_loop_encode)

section \<open>Attributes\<close>

fun next_hop_ok :: "ip_addr \<Rightarrow> bool" where
  "next_hop_ok (V4 os) \<longleftrightarrow> length os = 4"
| "next_hop_ok (V6 os) \<longleftrightarrow> length os = 16 \<and> take 12 os \<noteq> replicate 10 0 @ [0xff, 0xff]"

text \<open>The attributes the decoder gives back as they were: see the property for what each clause is for.\<close>

fun attr_ok :: "path_attr \<Rightarrow> bool" where
  "attr_ok (Origin _) \<longleftrightarrow> True"
| "attr_ok (AsPath segs) \<longleftrightarrow> list_all segment_ok segs"
| "attr_ok (As4Path segs) \<longleftrightarrow> list_all segment_ok segs"
| "attr_ok (NextHop ip) \<longleftrightarrow> length ip = 4"
| "attr_ok (Communities _) \<longleftrightarrow> True"
| "attr_ok (MpReach afi safi nh nlri) \<longleftrightarrow> next_hop_ok nh \<and> list_all prefix_ok nlri \<and> (afi \<noteq> 1 \<or> nlri = [])"
| "attr_ok (MpUnreach afi safi nlri) \<longleftrightarrow> list_all prefix_ok nlri \<and> (afi \<noteq> 1 \<or> nlri = [])"

fun push_attr :: "path_attr \<Rightarrow> path_attr list \<times> u32 list \<Rightarrow> path_attr list \<times> u32 list" where
  "push_attr (Communities cs) (attrs, comms) = (attrs, comms @ cs)"
| "push_attr a (attrs, comms) = (attrs @ [a], comms)"

lemma write_v6_nlris_eq:
  "write_v6_nlris ps = Ok bs \<Longrightarrow> bs = concat (map write_nlri ps) \<and> list_all (\<lambda>p. \<not> pv4 p) ps"
  by (induction ps arbitrary: bs) (auto simp: outcome_simps split: if_splits)

lemma read_v6_nlris:
  assumes "write_v6_nlris ps = Ok bs" and "list_all prefix_ok ps" and "afi \<noteq> 1 \<or> ps = []"
  shows "read_nlris (afi = (1 :: u16)) bs = Ok ps"
proof -
  have "list_all (\<lambda>p. prefix_ok p \<and> pv4 p = False) ps" "bs = concat (map write_nlri ps)"
    using write_v6_nlris_eq [OF assms(1)] assms(2) by (auto simp: list_all_iff)
  then show ?thesis
    using nlri.loop_items [of False ps] nlri.loop_nil [of "afi = 1"] assms(3) by auto
qed

lemma decode_next_hop_enc:
  "next_hop_ok nh \<Longrightarrow> decode_next_hop (case nh of V4 os \<Rightarrow> os | V6 os \<Rightarrow> os) = Ok nh"
  by (cases nh) (auto simp: decode_next_hop_def)

lemma decode_mp_reach_enc:
  assumes "next_hop_ok nh" and "read_nlris (afi = 1) bs = Ok nlri"
  shows "decode_mp_reach (be16 afi @ [safi] @ (case nh of V4 os \<Rightarrow> 4 # os | V6 os \<Rightarrow> 16 # os) @ [0] @ bs)
    = Ok (MpReach afi safi nh nlri)"
  using assms decode_next_hop_enc [OF assms(1)]
  by (cases nh) (simp_all add: decode_mp_reach_def slice_append_left slice_append_right slice_def nth_append Let_def)

lemma decode_mp_unreach_enc:
  "read_nlris (afi = 1) bs = Ok nlri \<Longrightarrow> decode_mp_unreach (be16 afi @ [safi] @ bs) = Ok (MpUnreach afi safi nlri)"
  by (simp add: decode_mp_unreach_def slice_append_left slice_def nth_append Let_def)

lemma decode_attr_value:
  assumes "attr_ok a" and "attr_value a = Ok (v, ty, opt)"
  shows "decode_attr ty flag v acc = Ok (push_attr a acc)"
proof (cases acc)
  case (Pair attrs comms)
  show ?thesis
  proof (cases a)
    case (MpReach afi safi nh nlri)
    then obtain bs where "write_v6_nlris nlri = Ok bs"
      and "v = be16 afi @ [safi] @ (case nh of V4 os \<Rightarrow> 4 # os | V6 os \<Rightarrow> 16 # os) @ [0] @ bs" "ty = 14"
      using assms(2) by (auto simp: outcome_simps)
    with assms(1) MpReach Pair decode_mp_reach_enc [of nh afi bs nlri safi] read_v6_nlris show ?thesis
      by (simp add: decode_attr_def)
  next
    case (MpUnreach afi safi nlri)
    then obtain bs where "write_v6_nlris nlri = Ok bs" "v = be16 afi @ [safi] @ bs" "ty = 15"
      using assms(2) by (auto simp: outcome_simps)
    with assms(1) MpUnreach Pair decode_mp_unreach_enc [of afi bs nlri safi] read_v6_nlris show ?thesis
      by (simp add: decode_attr_def)
  next
    case (Communities cs)
    with assms(2) Pair read_be32s [of cs] show ?thesis by (auto simp: decode_attr_def)
  qed (use assms Pair in \<open>auto simp: decode_attr_def seg.loop_items write_segments_def or_else_def\<close>)
qed

lemma flag_bits:
  "attr_flags a opt AND 0x10 = 0" "(attr_flags a opt OR 0x10) AND 0x10 \<noteq> 0"
  by (auto simp: attr_flags_def split: path_attr.splits)

lemma drop_long_header: "drop (4 + n) (x # y # be16 z @ w) = drop n w"
  using drop_append [of "4 + n" "[x, y] @ be16 z" w] by simp

lemma drop_short_header: "drop (3 + n) (x # y # z # w) = drop n w"
  using drop_append [of "3 + n" "[x, y, z]" w] by simp

lemma attrs_loop_write_attr:
  assumes "attr_ok a" and "write_attr a = Ok b" and "length b < 2 ^ 16"
  shows "attrs_loop (b @ rest) acc = attrs_loop rest (push_attr a acc)"
proof -
  obtain v ty opt where v: "attr_value a = Ok (v, ty, opt)"
    and b: "b = (if 255 < length v then [attr_flags a opt OR 0x10, ty] @ be16 (word_of_nat (length v)) @ v
                 else [attr_flags a opt, ty, word_of_nat (length v)] @ v)"
    using assms(2) by (auto simp: write_attr_def outcome_simps Let_def split: if_splits)
  note d = decode_attr_value [OF assms(1) v]
  show ?thesis
  proof (cases "255 < length v")
    case True
    then have "length v < 2 ^ 16" using assms(3) b by simp
    then have "unat (word_of_nat (length v) :: u16) = length v" by (simp add: unat_of_nat)
    then show ?thesis
      using True b d flag_bits [of a opt]
      by (subst attrs_loop.simps) (simp add: Let_def slice_def drop_long_header)
  next
    case False
    then have "unat (word_of_nat (length v) :: u8) = length v" by (simp add: unat_of_nat)
    then show ?thesis
      using False b d flag_bits [of a opt]
      by (subst attrs_loop.simps) (simp add: Let_def slice_def drop_short_header)
  qed
qed

abbreviation push_attrs :: "path_attr list \<times> u32 list \<Rightarrow> path_attr list \<Rightarrow> path_attr list \<times> u32 list" where
  "push_attrs acc as \<equiv> foldl (\<lambda>acc a. push_attr a acc) acc as"

text \<open>The decoder gathers all communities into one attribute at the end.\<close>

definition norm_attrs :: "path_attr list \<Rightarrow> path_attr list" where
  "norm_attrs as =
     (case push_attrs ([], []) as of (attrs, comms) \<Rightarrow> if comms \<noteq> [] then attrs @ [Communities comms] else attrs)"

lemma attrs_loop_write_attrs:
  assumes "list_all attr_ok as" and "write_attrs as = Ok bs" and "length bs < 2 ^ 16"
  shows "attrs_loop bs acc = Ok (push_attrs acc as)"
  using assms
proof (induction as arbitrary: bs acc)
  case Nil
  then show ?case by (simp add: attrs_loop.simps [of "[]"])
next
  case (Cons a as)
  then obtain b cs where "write_attr a = Ok b" "write_attrs as = Ok cs" "bs = b @ cs" by (auto simp: outcome_simps)
  with Cons attrs_loop_write_attr [of a b cs acc] show ?case by simp
qed

lemma decode_attrs_write_attrs:
  "list_all attr_ok as \<Longrightarrow> write_attrs as = Ok bs \<Longrightarrow> length bs < 2 ^ 16 \<Longrightarrow> decode_attrs bs = Ok (norm_attrs as)"
  by (simp add: decode_attrs_def attrs_loop_write_attrs norm_attrs_def split: prod.split)

section \<open>Messages\<close>

fun message_ok :: "message \<Rightarrow> bool" where
  "message_ok (OpenM m) \<longleftrightarrow>
     length (om_bgp_id m) = 4 \<and> length (concat (map capability_encode (om_capabilities m))) \<le> 253
     \<and> foldl cap_as (if 65535 < om_as4 m then 23456 else om_as4 m) (om_capabilities m) = om_as4 m"
| "message_ok (UpdateM m) \<longleftrightarrow>
     list_all prefix_ok (um_withdrawn m) \<and> list_all attr_ok (um_attrs m) \<and> list_all prefix_ok (um_announced m)"
| "message_ok _ \<longleftrightarrow> True"

fun norm_message :: "message \<Rightarrow> message" where
  "norm_message (UpdateM m) = UpdateM (m\<lparr>um_attrs := norm_attrs (um_attrs m)\<rparr>)"
| "norm_message m = m"

lemma decode_frame:
  assumes "length body + 19 \<le> 4096"
  shows "decode (replicate 16 0xff @ be16 (word_of_nat (19 + length body)) @ [ty] @ body) =
     (if ty = 4 then Ok Keepalive
      else if ty = 1 then decode_open body
      else if ty = 2 then decode_update body
      else if ty = 3 then
        obind (ok_or WTruncated (get_at 0 body)) (\<lambda>code.
          obind (ok_or WTruncated (get_at 1 body)) (\<lambda>subcode.
            Ok (NotificationM \<lparr>nm_code = code, nm_subcode = subcode, nm_data = drop 2 body\<rparr>)))
      else if ty = 5 then
        if length body \<noteq> 4 then Err WTruncated
        else Ok (RouteRefreshM \<lparr>rr_afi = get16 (slice 0 2 body), rr_safi = body ! 3\<rparr>)
      else Err (BadType ty))"
proof -
  let ?buf = "replicate 16 0xff @ be16 (word_of_nat (19 + length body)) @ [ty] @ body"
  have "unat (word_of_nat (19 + length body) :: u16) = 19 + length body"
    using assms by (intro unat_u16) simp
  moreover have "length ?buf = 19 + length body" "take 16 ?buf = replicate 16 0xff" "?buf ! 18 = ty" "drop 19 ?buf = body"
    by (simp_all add: nth_append)
  moreover have "slice 16 18 ?buf = be16 (word_of_nat (19 + length body))"
    by (simp add: slice_def)
  ultimately show ?thesis
    unfolding decode_def by (simp only: get16_be16 Let_def) (simp add: list_ex_iff)
qed

lemma ucast_u16: "\<not> 65535 < x \<Longrightarrow> ucast (ucast (x :: u32) :: u16) = x"
  by (simp add: word_unat_eq_iff word_less_nat_alt unsigned_ucast_eq unsigned_take_bit_eq take_bit_nat_eq_self)

lemma decode_open_enc:
  assumes "message_ok (OpenM m)" and "encode_body (OpenM m) = (pushed, Ok ty)"
  shows "ty = 1 \<and> decode_open pushed = Ok (OpenM m)"
proof -
  let ?as = "if 65535 < om_as4 m then 23456 else ucast (om_as4 m) :: u16"
  let ?caps = "concat (map capability_encode (om_capabilities m))"
  have l: "length (om_bgp_id m) = 4" "length ?caps \<le> 253" using assms(1) by simp_all
  have u: "unat (word_of_nat (length ?caps + 2) :: u8) = length ?caps + 2" "unat (word_of_nat (length ?caps) :: u8) = length ?caps"
    using l(2) by (intro unat_u8; simp)+
  have p: "pushed = [4] @ be16 ?as @ be16 (om_hold_time m) @ om_bgp_id m
      @ [word_of_nat (length ?caps + 2), 2, word_of_nat (length ?caps)] @ ?caps" and ty: "ty = 1"
    using assms(2) l(2) by (auto simp: Let_def split: if_splits simp del: length_concat)
  have "params_loop ([2, word_of_nat (length ?caps)] @ ?caps) (a, []) = Ok (foldl cap_as a (om_capabilities m), om_capabilities m)" for a
    using u(2) caps_loop_encodes [of "om_capabilities m" a "[]"]
    by (subst params_loop.simps) (simp add: Let_def params_loop.simps [of "[]"] del: length_concat)
  moreover have "ucast ?as = (if 65535 < om_as4 m then 23456 else om_as4 m)"
    using ucast_u16 [of "om_as4 m"] by simp
  moreover have "length pushed = 10 + (length ?caps + 2)" "slice 1 3 pushed = be16 ?as" "slice 3 5 pushed = be16 (om_hold_time m)"
      "slice 5 9 pushed = om_bgp_id m" "pushed ! 9 = word_of_nat (length ?caps + 2)"
      "slice 10 (10 + (length ?caps + 2)) pushed = [2, word_of_nat (length ?caps)] @ ?caps"
    unfolding p using l(1) by (simp_all add: slice_def nth_append del: length_concat)
  ultimately show ?thesis
    using ty u(1) assms(1) unfolding decode_open_def by (simp only: get16_be16 Let_def) simp
qed

lemma decode_update_enc:
  assumes "message_ok (UpdateM m)" and "encode_body (UpdateM m) = (pushed, Ok ty)"
  shows "ty = 2 \<and> decode_update pushed = Ok (norm_message (UpdateM m))"
proof -
  let ?w = "concat (map write_nlri (um_withdrawn m))" and ?a = "concat (map write_nlri (um_announced m))"
  obtain attrs where ty: "ty = 2" and w: "write_attrs (um_attrs m) = Ok attrs"
    and v4: "list_all pv4 (um_withdrawn m)" "list_all pv4 (um_announced m)"
    and l: "length ?w \<le> 65535" "length attrs \<le> 65535"
    and p: "pushed = be16 (word_of_nat (length ?w)) @ ?w @ be16 (word_of_nat (length attrs)) @ attrs @ ?a"
    using assms(2)
    by (auto simp: Let_def list_all_iff list_ex_iff not_less split: if_splits outcome.splits simp del: length_concat)
  have u: "unat (word_of_nat (length ?w) :: u16) = length ?w" "unat (word_of_nat (length attrs) :: u16) = length attrs"
    using l by (intro unat_u16; simp)+
  have r: "read_nlris True ?w = Ok (um_withdrawn m)" "read_nlris True ?a = Ok (um_announced m)"
    using assms(1) v4 by (intro nlri.loop_items; simp add: list_all_iff)+
  have d: "decode_attrs attrs = Ok (norm_attrs (um_attrs m))"
    using assms(1) w l(2) by (intro decode_attrs_write_attrs) auto
  have "length pushed = 4 + length ?w + length attrs + length ?a" "slice 0 2 pushed = be16 (word_of_nat (length ?w))"
    "slice 2 (2 + length ?w) pushed = ?w" "slice (2 + length ?w) (4 + length ?w) pushed = be16 (word_of_nat (length attrs))"
    "slice (4 + length ?w) (4 + length ?w + length attrs) pushed = attrs" "drop (4 + length ?w + length attrs) pushed = ?a"
    unfolding p by (simp_all add: slice_def del: length_concat)
  with u r d ty show ?thesis
    unfolding decode_update_def by (simp only: get16_be16 Let_def) (simp del: length_concat)
qed

lemma decode_encode_body:
  assumes "message_ok m" and "encode_body m = (pushed, Ok ty)" and "length pushed + 19 \<le> 4096"
  shows "decode (replicate 16 0xff @ be16 (word_of_nat (19 + length pushed)) @ [ty] @ pushed) = Ok (norm_message m)"
proof (cases m)
  case (OpenM x)
  with assms have "ty = 1 \<and> decode_open pushed = Ok m" by (metis decode_open_enc)
  then show ?thesis unfolding decode_frame [OF assms(3)] using OpenM by simp
next
  case (UpdateM x)
  with assms have "ty = 2 \<and> decode_update pushed = Ok (norm_message m)" by (metis decode_update_enc)
  then show ?thesis unfolding decode_frame [OF assms(3)] by simp
next
  case (NotificationM x)
  then show ?thesis using decode_frame [OF assms(3)] assms(2) by (auto simp: get_at_def)
next
  case Keepalive
  then show ?thesis using decode_frame [OF assms(3)] assms(2) by auto
next
  case (RouteRefreshM x)
  then show ?thesis using decode_frame [OF assms(3)] assms(2) by (auto simp: slice_def nth_append)
qed

lemma encode_Ok:
  assumes "encode m out = (Ok (), out')"
  obtains pushed ty where "encode_body m = (pushed, Ok ty)" "length pushed + 19 \<le> 4096"
    "out' = out @ replicate 16 0xff @ be16 (word_of_nat (19 + length pushed)) @ [ty] @ pushed"
proof -
  obtain pushed r where b: "encode_body m = (pushed, r)" by (cases "encode_body m")
  with assms obtain ty where r: "r = Ok ty" by (cases r) (auto simp: encode_def Let_def)
  have "replicate 19 x = replicate 16 x @ replicate 3 x" for x :: byte by (simp flip: replicate_add)
  then show thesis
    using assms b r that by (auto simp: encode_def Let_def split: if_splits)
qed

section \<open>Whole messages and streams\<close>

text \<open>C18: A message that \<open>encode\<close> accepts is appended to the caller's buffer as one frame of at most 4096
  bytes, and \<open>decode\<close> of that frame returns the message, up to the order of its attributes: the
  communities of all COMMUNITIES attributes are gathered in one attribute at the end. The message is
  well-formed: canonical prefixes, at most 255 AS numbers a segment, no v4-mapped next hop of a multiprotocol
  attribute, capabilities of at most 253 bytes and, for a four-byte AS, the capability that carries it.\<close>

theorem decode_encode:
  assumes "message_ok m" and "encode m out = (Ok (), out')"
  shows "\<exists>frame. out' = out @ frame \<and> length frame \<le> MAX_MSG_LEN \<and> decode frame = Ok (norm_message m)"
proof -
  obtain pushed ty where p: "encode_body m = (pushed, Ok ty)" "length pushed + 19 \<le> 4096"
    and o: "out' = out @ replicate 16 0xff @ be16 (word_of_nat (19 + length pushed)) @ [ty] @ pushed"
    using assms(2) by (rule encode_Ok)
  show ?thesis
    using decode_encode_body [OF assms(1) p] p(2)
    by (intro exI [of _ "replicate 16 0xff @ be16 (word_of_nat (19 + length pushed)) @ [ty] @ pushed"]) (simp add: o)
qed

text \<open>What the reader sees of a frame that the encoder wrote, at the front of its buffer.\<close>

lemma feed_loop_frame:
  assumes "message_ok m" and "encode m [] = (Ok (), frame)"
  shows "feed_loop (frame @ rest) out = feed_loop rest (out @ [norm_message m])"
proof -
  obtain pushed ty where p: "encode_body m = (pushed, Ok ty)" "length pushed + 19 \<le> 4096"
    and o: "frame = replicate 16 0xff @ be16 (word_of_nat (19 + length pushed)) @ [ty] @ pushed"
    using assms(2) by (rule encode_Ok) simp
  have u: "unat (word_of_nat (19 + length pushed) :: u16) = 19 + length pushed"
    using p(2) by (intro unat_u16) simp
  have "length frame = 19 + length pushed" "take 16 (frame @ rest) = replicate 16 0xff"
    "slice 16 18 (frame @ rest) = be16 (word_of_nat (19 + length pushed))"
    by (simp_all add: o slice_def)
  moreover have "decode frame = Ok (norm_message m)" unfolding o by (rule decode_encode_body [OF assms(1) p])
  ultimately show ?thesis
    using u p(2) by (subst feed_loop.simps) (simp add: Let_def list_ex_iff)
qed

text \<open>Reading a buffer in two parts.\<close>

lemma feed_loop_append:
  "feed_loop (a @ b) out =
     (case feed_loop a out of
        (Ok _, rest, out1) \<Rightarrow> feed_loop (rest @ b) out1
      | (e, rest, out1) \<Rightarrow> (e, rest @ b, out1))"
proof (induction a out rule: feed_loop.induct)
  case (1 a out)
  show ?case
  proof (cases "length a < 19")
    case True
    then show ?thesis by (simp add: feed_loop.simps [of a])
  next
    case False
    then have eq: "take 16 (a @ b) = take 16 a" "slice 16 18 (a @ b) = slice 16 18 a"
      by (simp_all add: slice_def)
    let ?len = "unat (get16 (slice 16 18 a))"
    show ?thesis
    proof (cases "list_ex (\<lambda>b. b \<noteq> 0xff) (take 16 a) \<or> \<not> (19 \<le> ?len \<and> ?len \<le> 4096) \<or> length a < ?len")
      case True
      with False show ?thesis by (auto simp: feed_loop.simps [of a] feed_loop.simps [of "a @ b"] eq Let_def)
    next
      case ok: False
      with False have d: "take ?len (a @ b) = take ?len a" "drop ?len (a @ b) = drop ?len a @ b" by simp_all
      from ok False 1 show ?thesis
        by (simp add: feed_loop.simps [of a] feed_loop.simps [of "a @ b"] eq d Let_def del: take_append drop_append
            split: outcome.split)
    qed
  qed
qed

text \<open>A connection's reads, each fed to the reader, and a sender's messages, each encoded to the same buffer.\<close>

fun feed_all :: "frame_reader \<Rightarrow> byte list list \<Rightarrow> message list
    \<Rightarrow> (wire_error, unit) outcome \<times> frame_reader \<times> message list" where
  "feed_all r [] out = (Ok (), r, out)"
| "feed_all r (c # cs) out =
     (case feed r c out of (Ok _, r1, out1) \<Rightarrow> feed_all r1 cs out1 | failed \<Rightarrow> failed)"

fun encode_all :: "message list \<Rightarrow> byte list \<Rightarrow> (wire_error, unit) outcome \<times> byte list" where
  "encode_all [] out = (Ok (), out)"
| "encode_all (m # ms) out =
     (case encode m out of (Ok _, out1) \<Rightarrow> encode_all ms out1 | failed \<Rightarrow> failed)"

lemma feed_loop_idle: "feed_loop a out = (Ok u, rest, out1) \<Longrightarrow> feed_loop rest out1 = (Ok (), rest, out1)"
  using feed_loop_append [of a "[]" out] by simp

lemma feed_all_eq:
  assumes "feed_loop buf out = (Ok (), buf, out)" and "feed_loop (buf @ concat cs) out = (Ok (), rest, ms)"
  shows "feed_all \<lparr>fr_buf = buf\<rparr> cs out = (Ok (), \<lparr>fr_buf = rest\<rparr>, ms)"
  using assms
proof (induction cs arbitrary: buf out)
  case Nil
  then show ?case by simp
next
  case (Cons c cs)
  obtain e rest1 out1 where f: "feed_loop (buf @ c) out = (e, rest1, out1)" by (cases "feed_loop (buf @ c) out")
  with Cons.prems(2) feed_loop_append [of "buf @ c" "concat cs" out]
  have "e = Ok ()" "feed_loop (rest1 @ concat cs) out1 = (Ok (), rest, ms)"
    by (auto split: outcome.splits)
  with Cons.IH [of rest1 out1] feed_loop_idle [of "buf @ c" out] f show ?case by (simp add: feed_def)
qed

lemma encode_append:
  assumes "encode m out = (Ok (), out')"
  obtains frame where "encode m [] = (Ok (), frame)" "out' = out @ frame"
proof -
  obtain pushed ty where p: "encode_body m = (pushed, Ok ty)" "length pushed + 19 \<le> 4096"
    and o: "out' = out @ replicate 16 0xff @ be16 (word_of_nat (19 + length pushed)) @ [ty] @ pushed"
    using assms by (rule encode_Ok)
  have "replicate 19 x = replicate 16 x @ replicate 3 x" for x :: byte by (simp flip: replicate_add)
  with p o that show thesis by (auto simp: encode_def Let_def)
qed

lemma feed_loop_encode_all:
  assumes "list_all message_ok ms" and "encode_all ms out = (Ok (), out')"
  shows "\<exists>stream. out' = out @ stream \<and> (\<forall>rest acc. feed_loop (stream @ rest) acc = feed_loop rest (acc @ map norm_message ms))"
  using assms
proof (induction ms arbitrary: out)
  case Nil
  then show ?case by simp
next
  case (Cons m ms)
  from Cons.prems(2) obtain out1 where e: "encode m out = (Ok (), out1)" "encode_all ms out1 = (Ok (), out')"
    by (auto split: prod.splits outcome.splits)
  obtain frame where f: "encode m [] = (Ok (), frame)" "out1 = out @ frame" using e(1) by (rule encode_append)
  obtain stream where s: "out' = out1 @ stream"
    "\<And>rest acc. feed_loop (stream @ rest) acc = feed_loop rest (acc @ map norm_message ms)"
    using Cons.IH [OF _ e(2)] Cons.prems(1) by auto
  have "feed_loop (frame @ rest) acc = feed_loop rest (acc @ [norm_message m])" for rest acc
    using Cons.prems(1) f(1) by (intro feed_loop_frame) simp_all
  with f(2) s show ?case by (intro exI [of _ "frame @ stream"]) simp
qed

text \<open>C19: However the connection cuts a stream of encoded messages into reads, the frame reader delivers
  exactly those messages, in order, reports no error and ends with an empty buffer.\<close>

theorem stream_in_chunks:
  assumes "list_all message_ok ms" and "encode_all ms [] = (Ok (), stream)" and "concat chunks = stream"
  shows "feed_all \<lparr>fr_buf = []\<rparr> chunks [] = (Ok (), \<lparr>fr_buf = []\<rparr>, map norm_message ms)"
  using feed_loop_encode_all [OF assms(1,2)] assms(3)
  by (intro feed_all_eq) (auto simp: feed_loop.simps [of "[]"] dest: spec [of _ "[]"])

theorem stream_in_chunks_witness:
  "feed_all \<lparr>fr_buf = []\<rparr> [replicate 10 0xff, replicate 6 0xff @ [0], [19, 4] @ replicate 16 0xff @ [0, 21, 3, 6], [2]] [] =
     (Ok (), \<lparr>fr_buf = []\<rparr>, [Keepalive, NotificationM \<lparr>nm_code = 6, nm_subcode = 2, nm_data = []\<rparr>])"
proof -
  let ?ms = "[Keepalive, NotificationM \<lparr>nm_code = 6, nm_subcode = 2, nm_data = []\<rparr>]"
  have "encode_all ?ms [] = (Ok (), concat [replicate 10 0xff, replicate 6 0xff @ [0], [19, 4] @ replicate 16 0xff @ [0, 21, 3, 6], [2]])"
    by code_simp
  from stream_in_chunks [OF _ this refl] show ?thesis by simp
qed

text \<open>A session's OPEN and an announcement of 172.20.0.0/14.\<close>

theorem decode_encode_witness:
  "\<exists>frame. length frame \<le> 4096 \<and>
     decode frame = Ok (OpenM \<lparr>om_as4 = 4242420001, om_hold_time = 90, om_bgp_id = [10, 0, 0, 1],
       om_capabilities = [MpBgp 1 1, CapRouteRefresh, FourOctetAs 4242420001]\<rparr>)"
proof -
  let ?m = "OpenM \<lparr>om_as4 = 4242420001, om_hold_time = 90, om_bgp_id = [10, 0, 0, 1],
       om_capabilities = [MpBgp 1 1, CapRouteRefresh, FourOctetAs 4242420001]\<rparr>"
  have "message_ok ?m" by (simp add: be16_def be32_def)
  moreover have "encode ?m [] = (Ok (), snd (encode ?m []))" by (simp add: encode_def Let_def)
  ultimately show ?thesis using decode_encode [of ?m "[]" "snd (encode ?m [])"] by auto
qed

section \<open>Malformed prefixes\<close>



end
