(* ===== verification/Bgp_Rib.thy ===== *)
theory Bgp_Rib
  imports Bgp_Wire "HOL-Library.List_Lexorder" "HOL-Library.Char_ord"
begin

text \<open>
  The routing table a BGP session fills (\<open>rill-dn42/src/rib/mod.rs\<close>) and its import policy
  (\<open>rill-dn42/src/policy/mod.rs\<close>). The hash map of the table is a map; the order in which \<open>purge_peer\<close>
  visits the keys is an argument, since the iterator may yield them in any order. The stream of route changes
  is shown to replay the table's best paths, and every path in the table to have passed the policy.
\<close>

unbundle bit_operations_syntax

section \<open>Policy\<close>

record bgp_path =
  bp_as_path :: "u32 list"
  bp_next_hop :: "ip_addr option"
  bp_origin :: u8
  bp_communities :: "u32 list"

definition path_len :: "bgp_path \<Rightarrow> nat" where
  "path_len p = length (bp_as_path p)"

definition parsed_prefixes :: "string list \<Rightarrow> prefix list" where
  "parsed_prefixes cs = concat (map (\<lambda>c. case prefix_parse c of Ok p \<Rightarrow> [p] | _ \<Rightarrow> []) cs)"

definition default_bogons :: "prefix list" where
  "default_bogons =
     parsed_prefixes [''0.0.0.0/8'', ''127.0.0.0/8'', ''169.254.0.0/16'', ''192.168.0.0/16'', ''100.64.0.0/10'',
       ''224.0.0.0/4'', ''240.0.0.0/4'']
     @ parsed_prefixes [''::/128'', ''::1/128'', ''fe80::/10'', ''ff00::/8'', ''2001:db8::/32'']"

datatype import_reject =
  NotInWhitelist string | Bogon string | AsLoop u32 | MissingNextHop | MaxPrefixes u32

record import_policy =
  ip_whitelist :: "prefix list"
  ip_bogons :: "prefix list"
  ip_own_as :: u32
  ip_max_prefixes :: "u32 option"
  ip_accepted :: u32

definition import_policy_new :: "prefix list \<Rightarrow> prefix list option \<Rightarrow> u32 \<Rightarrow> u32 option \<Rightarrow> import_policy" where
  "import_policy_new whitelist bogons own_as max_prefixes =
     \<lparr>ip_whitelist = whitelist,
      ip_bogons = (case bogons of Some bs \<Rightarrow> bs | None \<Rightarrow> default_bogons),
      ip_own_as = own_as, ip_max_prefixes = max_prefixes, ip_accepted = 0\<rparr>"

definition note_accepted :: "import_policy \<Rightarrow> (import_reject + unit) \<times> import_policy" where
  "note_accepted pol =
     (case ip_max_prefixes pol of
        Some m \<Rightarrow>
          if m \<le> ip_accepted pol then (Inl (MaxPrefixes m), pol)
          else (Inr (), pol\<lparr>ip_accepted := ip_accepted pol + 1\<rparr>)
      | None \<Rightarrow> (Inr (), pol\<lparr>ip_accepted := ip_accepted pol + 1\<rparr>))"

definition note_withdrawn :: "import_policy \<Rightarrow> import_policy" where
  "note_withdrawn pol = pol\<lparr>ip_accepted := (if ip_accepted pol = 0 then 0 else ip_accepted pol - 1)\<rparr>"

definition over_limit :: "import_policy \<Rightarrow> bool" where
  "over_limit pol = (case ip_max_prefixes pol of Some m \<Rightarrow> m < ip_accepted pol | None \<Rightarrow> False)"

definition admit :: "import_policy \<Rightarrow> prefix \<Rightarrow> bgp_path \<Rightarrow> import_reject + unit" where
  "admit pol p path =
     (if bp_next_hop path = None then Inl MissingNextHop
      else if list_ex (is_covered_by p) (ip_bogons pol) then Inl (Bogon (to_cidr p))
      else if \<not> list_ex (is_covered_by p) (ip_whitelist pol) then Inl (NotInWhitelist (to_cidr p))
      else if ip_own_as pol \<in> set (bp_as_path path) then Inl (AsLoop (ip_own_as pol))
      else Inr ())"

section \<open>Table\<close>

datatype route_change = Learned prefix bgp_path | Withdrawn prefix

record apply_outcome =
  ao_changes :: "route_change list"
  ao_rejected :: "(string \<times> import_reject) list"
  ao_max_prefix_exceeded :: bool

type_synonym pfx_key = "byte list \<times> u8 \<times> bool"

definition key :: "prefix \<Rightarrow> pfx_key" where
  "key p = (pbits p, plen p, pv4 p)"

record peer_paths =
  pp_peers :: "(string \<times> bgp_path) list"
  pp_best :: "string option"

definition path_before :: "string \<times> bgp_path \<Rightarrow> string \<times> bgp_path \<Rightarrow> bool" where
  "path_before a b \<longleftrightarrow>
     path_len (snd a) < path_len (snd b) \<or> path_len (snd a) = path_len (snd b) \<and> fst a < fst b"

text \<open>\<open>Iterator::min_by\<close>: the first of the smallest elements.\<close>

fun min_from :: "string \<times> bgp_path \<Rightarrow> (string \<times> bgp_path) list \<Rightarrow> string \<times> bgp_path" where
  "min_from b [] = b"
| "min_from b (x # xs) = min_from (if path_before x b then x else b) xs"

fun select_best :: "(string \<times> bgp_path) list \<Rightarrow> string option" where
  "select_best [] = None"
| "select_best (x # xs) = Some (fst (min_from x xs))"

record loc_rib =
  lr_entries :: "pfx_key \<rightharpoonup> peer_paths"

definition loc_rib_new :: loc_rib where
  "loc_rib_new = \<lparr>lr_entries = Map.empty\<rparr>"

definition best_path :: "peer_paths \<Rightarrow> bgp_path option" where
  "best_path e = (case pp_best e of None \<Rightarrow> None | Some b \<Rightarrow> map_of (pp_peers e) b)"

definition best :: "loc_rib \<Rightarrow> prefix \<Rightarrow> bgp_path option" where
  "best r p = (case lr_entries r (key p) of None \<Rightarrow> None | Some e \<Rightarrow> best_path e)"

definition push_learned :: "prefix \<Rightarrow> peer_paths \<Rightarrow> route_change list" where
  "push_learned p e = (case best_path e of None \<Rightarrow> [] | Some path \<Rightarrow> [Learned p path])"

fun replace_peer :: "string \<Rightarrow> bgp_path \<Rightarrow> (string \<times> bgp_path) list \<Rightarrow> (string \<times> bgp_path) list" where
  "replace_peer peer path [] = []"
| "replace_peer peer path (x # xs) = (if fst x = peer then (fst x, path) # xs else x # replace_peer peer path xs)"

text \<open>The path attributes of an UPDATE, gathered over its attributes in order.\<close>

fun base_attr :: "bgp_path \<times> (u16 \<times> ip_addr) option \<Rightarrow> path_attr \<Rightarrow> bgp_path \<times> (u16 \<times> ip_addr) option" where
  "base_attr (base, mp) (Origin q) = (base\<lparr>bp_origin := q\<rparr>, mp)"
| "base_attr (base, mp) (AsPath segs) =
     (if bp_as_path base = [] then base\<lparr>bp_as_path := concat (map seg_asns segs)\<rparr> else base, mp)"
| "base_attr (base, mp) (As4Path segs) =
     (let flat = concat (map seg_asns segs) in if flat \<noteq> [] then base\<lparr>bp_as_path := flat\<rparr> else base, mp)"
| "base_attr (base, mp) (NextHop ip) = (base\<lparr>bp_next_hop := Some (V4 ip)\<rparr>, mp)"
| "base_attr (base, mp) (Communities cs) = (base\<lparr>bp_communities := cs\<rparr>, mp)"
| "base_attr (base, mp) (MpReach afi safi nh nlri) = (base, if safi = 1 then Some (afi, nh) else mp)"
| "base_attr (base, mp) (MpUnreach afi safi nlri) = (base, mp)"

definition extract_announced :: "update_msg \<Rightarrow> (prefix \<times> bgp_path) list" where
  "extract_announced u =
     (let base = \<lparr>bp_as_path = [], bp_next_hop = None, bp_origin = 2, bp_communities = []\<rparr>;
          (base, mp_reach) = foldl base_attr (base, None) (um_attrs u);
          out = map (\<lambda>p. (p, base)) (um_announced u)
      in case mp_reach of
           None \<Rightarrow> out
         | Some (afi, nh) \<Rightarrow>
             out @ concat (map (\<lambda>attr. case attr of
                 MpReach a safi _ nlri \<Rightarrow>
                   if safi = 1 \<and> a = afi then map (\<lambda>p. (p, base\<lparr>bp_next_hop := Some nh\<rparr>)) nlri else []
               | _ \<Rightarrow> []) (um_attrs u)))"

definition extract_withdrawn :: "update_msg \<Rightarrow> prefix list" where
  "extract_withdrawn u =
     um_withdrawn u
     @ concat (map (\<lambda>attr. case attr of
         MpUnreach afi safi nlri \<Rightarrow> if (afi = 1 \<or> afi = 2) \<and> safi = 1 then nlri else []
       | _ \<Rightarrow> []) (um_attrs u))"

text \<open>One announced prefix: the body of the first loop of \<open>apply\<close>.\<close>

definition announce_one :: "string \<Rightarrow> prefix \<times> bgp_path \<Rightarrow> loc_rib \<times> import_policy \<times> apply_outcome
    \<Rightarrow> loc_rib \<times> import_policy \<times> apply_outcome" where
  "announce_one peer ann s =
     (case (ann, s) of ((p, path), (r, pol, out)) \<Rightarrow>
        case admit pol p path of
          Inl reason \<Rightarrow> (r, pol, out\<lparr>ao_rejected := ao_rejected out @ [(to_cidr p, reason)]\<rparr>)
        | Inr _ \<Rightarrow>
            let k = key p;
                e = (case lr_entries r k of Some e \<Rightarrow> e | None \<Rightarrow> \<lparr>pp_peers = [], pp_best = None\<rparr>)
            in case map_of (pp_peers e) peer of
                 Some slot \<Rightarrow>
                   let peers = replace_peer peer path (pp_peers e) in
                   if slot \<noteq> path then
                     let e = \<lparr>pp_peers = peers, pp_best = select_best peers\<rparr> in
                     (r\<lparr>lr_entries := (lr_entries r)(k \<mapsto> e)\<rparr>, pol,
                      out\<lparr>ao_changes := ao_changes out @ push_learned p e\<rparr>)
                   else (r\<lparr>lr_entries := (lr_entries r)(k \<mapsto> e\<lparr>pp_peers := peers\<rparr>)\<rparr>, pol, out)
               | None \<Rightarrow>
                   (case note_accepted pol of
                      (Inl _, pol) \<Rightarrow>
                        (r\<lparr>lr_entries := (lr_entries r)(k \<mapsto> e)\<rparr>, pol, out\<lparr>ao_max_prefix_exceeded := True\<rparr>)
                    | (Inr _, pol) \<Rightarrow>
                        let peers = pp_peers e @ [(peer, path)];
                            e = \<lparr>pp_peers = peers, pp_best = select_best peers\<rparr> in
                        (r\<lparr>lr_entries := (lr_entries r)(k \<mapsto> e)\<rparr>, pol,
                         out\<lparr>ao_changes := ao_changes out @ push_learned p e\<rparr>)))"

fun announce_loop :: "string \<Rightarrow> (prefix \<times> bgp_path) list \<Rightarrow> loc_rib \<times> import_policy \<times> apply_outcome
    \<Rightarrow> loc_rib \<times> import_policy \<times> apply_outcome" where
  "announce_loop peer [] s = s"
| "announce_loop peer (x # xs) s =
     (case announce_one peer x s of (r, pol, out) \<Rightarrow>
        if ao_max_prefix_exceeded out then (r, pol, out) else announce_loop peer xs (r, pol, out))"

definition remove_one :: "string \<Rightarrow> prefix \<Rightarrow> loc_rib \<Rightarrow> route_change list option \<times> loc_rib" where
  "remove_one peer p r =
     (let k = key p in
      case lr_entries r k of
        None \<Rightarrow> (None, r)
      | Some e \<Rightarrow>
          let peers = filter (\<lambda>x. fst x \<noteq> peer) (pp_peers e) in
          if length peers = length (pp_peers e) then (None, r)
          else if peers = [] then (Some [Withdrawn p], r\<lparr>lr_entries := (lr_entries r)(k := None)\<rparr>)
          else if select_best peers \<noteq> pp_best e then
            let e = \<lparr>pp_peers = peers, pp_best = select_best peers\<rparr> in
            (Some (push_learned p e), r\<lparr>lr_entries := (lr_entries r)(k \<mapsto> e)\<rparr>)
          else (Some [], r\<lparr>lr_entries := (lr_entries r)(k \<mapsto> e\<lparr>pp_peers := peers\<rparr>)\<rparr>))"

fun withdraw_loop :: "string \<Rightarrow> prefix list \<Rightarrow> loc_rib \<times> import_policy \<times> apply_outcome
    \<Rightarrow> loc_rib \<times> import_policy \<times> apply_outcome" where
  "withdraw_loop peer [] s = s"
| "withdraw_loop peer (p # ps) (r, pol, out) =
     (case remove_one peer p r of
        (Some changes, r) \<Rightarrow>
          withdraw_loop peer ps (r, note_withdrawn pol, out\<lparr>ao_changes := ao_changes out @ changes\<rparr>)
      | (None, r) \<Rightarrow> withdraw_loop peer ps (r, pol, out))"

definition rib_apply :: "string \<Rightarrow> update_msg \<Rightarrow> loc_rib \<Rightarrow> import_policy
    \<Rightarrow> loc_rib \<times> import_policy \<times> apply_outcome" where
  "rib_apply peer u r pol =
     (let out = \<lparr>ao_changes = [], ao_rejected = [], ao_max_prefix_exceeded = False\<rparr> in
      case announce_loop peer (extract_announced u) (r, pol, out) of (r, pol, out) \<Rightarrow>
        if ao_max_prefix_exceeded out then (r, pol, out)
        else withdraw_loop peer (extract_withdrawn u) (r, pol, out))"

text \<open>\<open>purge_peer\<close> over the keys in the order the map's iterator yields them; a key that is not canonical
  makes the \<open>expect\<close> panic.\<close>

fun purge_loop :: "string \<Rightarrow> pfx_key list \<Rightarrow> loc_rib \<times> import_policy \<times> route_change list
    \<Rightarrow> (unit, loc_rib \<times> import_policy \<times> route_change list) outcome" where
  "purge_loop peer [] s = Ok s"
| "purge_loop peer (k # ks) (r, pol, changes) =
     (case prefix_new (fst k) (fst (snd k)) (snd (snd k)) of
        None \<Rightarrow> Panic
      | Some p \<Rightarrow>
          (case remove_one peer p r of
             (Some c, r) \<Rightarrow> purge_loop peer ks (r, note_withdrawn pol, changes @ c)
           | (None, r) \<Rightarrow> purge_loop peer ks (r, pol, changes)))"

definition purge_peer :: "pfx_key list \<Rightarrow> string \<Rightarrow> loc_rib \<Rightarrow> import_policy
    \<Rightarrow> (unit, loc_rib \<times> import_policy \<times> route_change list) outcome" where
  "purge_peer keys peer r pol = purge_loop peer keys (r, pol, [])"

section \<open>The change stream\<close>

text \<open>What a subscriber holds after a change: a prefix's path, or nothing.\<close>

fun replay :: "(prefix \<rightharpoonup> bgp_path) \<Rightarrow> route_change \<Rightarrow> (prefix \<rightharpoonup> bgp_path)" where
  "replay v (Learned p path) = v(p \<mapsto> path)"
| "replay v (Withdrawn p) = v(p := None)"

definition entry_ok :: "peer_paths \<Rightarrow> bool" where
  "entry_ok e \<longleftrightarrow> distinct (map fst (pp_peers e)) \<and> pp_best e = select_best (pp_peers e)"

definition rib_ok :: "loc_rib \<Rightarrow> bool" where
  "rib_ok r \<longleftrightarrow> (\<forall>k e. lr_entries r k = Some e \<longrightarrow> entry_ok e \<and> (\<exists>p. prefix_ok p \<and> k = key p))"

lemma key_inject [simp]: "key p = key q \<longleftrightarrow> p = (q :: prefix)"
  by (auto simp: key_def)

lemma min_from_in: "min_from b xs \<in> insert b (set xs)"
  by (induction xs arbitrary: b) (auto split: if_splits)

lemma select_best_in: "select_best xs = Some b \<Longrightarrow> b \<in> fst ` set xs"
  using min_from_in [of "hd xs" "tl xs"] by (cases xs) auto

lemma select_best_None [simp]: "select_best xs = None \<longleftrightarrow> xs = []"
  by (cases xs) auto

lemma best_path_None: "entry_ok e \<Longrightarrow> best_path e = None \<longleftrightarrow> pp_peers e = []"
  using select_best_in [of "pp_peers e"]
  by (auto simp: entry_ok_def best_path_def map_of_eq_None_iff split: option.splits)

lemma rib_okD: "rib_ok r \<Longrightarrow> lr_entries r k = Some e \<Longrightarrow> entry_ok e"
  unfolding rib_ok_def by blast

lemma rib_ok_update:
  "rib_ok r \<Longrightarrow> entry_ok e \<Longrightarrow> prefix_ok p \<Longrightarrow> rib_ok (r\<lparr>lr_entries := (lr_entries r)(key p \<mapsto> e)\<rparr>)"
  unfolding rib_ok_def by (auto simp del: split_paired_All)

lemma rib_ok_remove: "rib_ok r \<Longrightarrow> rib_ok (r\<lparr>lr_entries := (lr_entries r)(k := None)\<rparr>)"
  unfolding rib_ok_def by (auto simp del: split_paired_All)

lemma best_update [simp]:
  "best (r\<lparr>lr_entries := (lr_entries r)(key p \<mapsto> e)\<rparr>) = (best r)(p := best_path e)"
  "best (r\<lparr>lr_entries := (lr_entries r)(key p := None)\<rparr>) = (best r)(p := None)"
  by (auto simp: best_def)

lemma push_learned_replay:
  "entry_ok e \<Longrightarrow> pp_peers e \<noteq> [] \<Longrightarrow> foldl replay v (push_learned p e) = v(p := best_path e)"
  using best_path_None [of e] by (auto simp: push_learned_def)

lemma replace_peer_fst [simp]: "map fst (replace_peer peer path xs) = map fst xs"
  by (induction xs) auto

lemma fst_replace_peer: "fst ` set (replace_peer peer path xs) = fst ` set xs"
  by (metis replace_peer_fst set_map)

lemma replace_peer_same: "map_of xs peer = Some path \<Longrightarrow> replace_peer peer path xs = xs"
  by (induction xs) auto

lemma set_replace_peer: "set (replace_peer peer path xs) \<subseteq> insert (peer, path) (set xs)"
  by (induction xs) auto

lemma entry_ok_built [simp]: "entry_ok \<lparr>pp_peers = peers, pp_best = select_best peers\<rparr> \<longleftrightarrow> distinct (map fst peers)"
  by (simp add: entry_ok_def)

text \<open>A table and an outcome that track the view a subscriber had before.\<close>

fun tracks :: "(prefix \<rightharpoonup> bgp_path) \<Rightarrow> loc_rib \<times> import_policy \<times> apply_outcome \<Rightarrow> bool" where
  "tracks v (r, pol, out) \<longleftrightarrow> rib_ok r \<and> foldl replay v (ao_changes out) = best r"

lemma announce_one_step:
  assumes r: "rib_ok r" and p: "prefix_ok p"
    and res: "announce_one peer (p, path) (r, pol, out) = (r', pol', out')"
  shows "rib_ok r' \<and> (\<exists>cs. ao_changes out' = ao_changes out @ cs \<and> foldl replay (best r) cs = best r')"
proof -
  define e where "e = (case lr_entries r (key p) of Some e \<Rightarrow> e | None \<Rightarrow> \<lparr>pp_peers = [], pp_best = None\<rparr>)"
  have e: "entry_ok e" using rib_okD [OF r] by (auto simp: e_def entry_ok_def split: option.split)
  have b: "best_path e = best r p" by (auto simp: e_def best_def best_path_def split: option.split)
  have d: "distinct (map fst (pp_peers e))" using e by (simp add: entry_ok_def)
  show ?thesis
  proof (cases "admit pol p path")
    case (Inl reason)
    then show ?thesis using r res by (auto simp: announce_one_def)
  next
    case (Inr u)
    show ?thesis
    proof (cases "map_of (pp_peers e) peer")
      case (Some slot)
      then have "pp_peers e \<noteq> []" by auto
      then have ne: "replace_peer peer path (pp_peers e) \<noteq> []" by (metis map_is_Nil_conv replace_peer_fst)
      show ?thesis
      proof (cases "slot = path")
        case True
        then have "r' = r\<lparr>lr_entries := (lr_entries r)(key p \<mapsto> e)\<rparr>" "out' = out"
          using Inr Some res by (auto simp: announce_one_def Let_def e_def [symmetric] replace_peer_same)
        then show ?thesis using r e p by (simp add: rib_ok_update b)
      next
        case False
        then show ?thesis using Inr Some r p d ne res
          by (auto simp: announce_one_def Let_def e_def [symmetric] rib_ok_update push_learned_replay)
      qed
    next
      case None
      then have "distinct (map fst (pp_peers e @ [(peer, path)]))" using d by (simp add: map_of_eq_None_iff)
      then show ?thesis using Inr None r p e res
        by (auto simp: announce_one_def Let_def e_def [symmetric] rib_ok_update push_learned_replay b
            split: prod.splits sum.splits)
    qed
  qed
qed

lemma announce_one_tracks:
  assumes "tracks v s" and "prefix_ok (fst ann)"
  shows "tracks v (announce_one peer ann s)"
proof -
  obtain r pol out r' pol' out' where s: "s = (r, pol, out)" "announce_one peer ann s = (r', pol', out')"
    by (cases s, cases "announce_one peer ann s") auto
  with assms announce_one_step [of r "fst ann" peer "snd ann" pol out r' pol' out'] show ?thesis by auto
qed

lemma announce_loop_tracks:
  "tracks v s \<Longrightarrow> list_all (\<lambda>a. prefix_ok (fst a)) anns \<Longrightarrow> tracks v (announce_loop peer anns s)"
proof (induction anns arbitrary: s)
  case (Cons a anns)
  then have "tracks v (announce_one peer a s)" by (simp add: announce_one_tracks)
  then show ?case using Cons by (auto split: prod.split)
qed simp

lemma map_of_filter_peer: "b \<noteq> peer \<Longrightarrow> map_of (filter (\<lambda>x. fst x \<noteq> peer) xs) b = map_of xs b"
  by (induction xs) auto

lemma remove_one_replay:
  assumes "rib_ok r" and "prefix_ok p" and "remove_one peer p r = (c, r')"
  shows "rib_ok r' \<and> foldl replay (best r) (case c of None \<Rightarrow> [] | Some cs \<Rightarrow> cs) = best r'"
proof (cases "lr_entries r (key p)")
  case None
  with assms show ?thesis by (auto simp: remove_one_def)
next
  case (Some e)
  let ?peers = "filter (\<lambda>x. fst x \<noteq> peer) (pp_peers e)"
  have e: "entry_ok e" using assms(1) Some by (rule rib_okD)
  then have d: "distinct (map fst ?peers)" by (simp add: entry_ok_def distinct_map_filter)
  show ?thesis
  proof (cases "length ?peers = length (pp_peers e) \<or> ?peers = []")
    case True
    with Some assms show ?thesis by (auto simp: remove_one_def Let_def rib_ok_remove split: if_splits)
  next
    case False
    show ?thesis
    proof (cases "select_best ?peers = pp_best e")
      case True
      then obtain b where b: "select_best ?peers = Some b" 
        using False select_best_None [of ?peers] by (metis not_None_eq)
      then have "b \<noteq> peer" using select_best_in [OF b] by auto
      then have "best_path (e\<lparr>pp_peers := ?peers\<rparr>) = best r p"
        unfolding best_path_def best_def using b [unfolded True] Some by (simp add: map_of_filter_peer)
      moreover have "entry_ok (e\<lparr>pp_peers := ?peers\<rparr>)" using d True by (simp add: entry_ok_def)
      ultimately show ?thesis
        using assms Some False True by (auto simp: remove_one_def Let_def rib_ok_update)
    next
      case f: False
      then show ?thesis
        using assms Some False d by (auto simp: remove_one_def Let_def rib_ok_update push_learned_replay)
    qed
  qed
qed

lemma withdraw_loop_tracks: "tracks v s \<Longrightarrow> list_all prefix_ok ps \<Longrightarrow> tracks v (withdraw_loop peer ps s)"
proof (induction ps arbitrary: s)
  case (Cons p ps)
  obtain r pol out where s: "s = (r, pol, out)" by (cases s) auto
  obtain c r' where c: "remove_one peer p r = (c, r')" by (cases "remove_one peer p r")
  then have "rib_ok r' \<and> foldl replay (best r) (case c of None \<Rightarrow> [] | Some cs \<Rightarrow> cs) = best r'"
    using Cons.prems s by (intro remove_one_replay) auto
  then show ?case using Cons c s by (cases c) auto
qed simp

text \<open>The prefixes of an UPDATE are canonical, as the decoder makes them.\<close>

definition update_ok :: "update_msg \<Rightarrow> bool" where
  "update_ok u \<longleftrightarrow> list_all prefix_ok (um_withdrawn u) \<and> list_all prefix_ok (um_announced u)
     \<and> list_all (\<lambda>a. case a of MpReach _ _ _ nlri \<Rightarrow> list_all prefix_ok nlri
         | MpUnreach _ _ nlri \<Rightarrow> list_all prefix_ok nlri | _ \<Rightarrow> True) (um_attrs u)"

lemma extract_announced_ok: "update_ok u \<Longrightarrow> list_all (\<lambda>a. prefix_ok (fst a)) (extract_announced u)"
  unfolding extract_announced_def update_ok_def
  by (fastforce simp: list_all_iff Let_def split: prod.split option.split path_attr.splits if_splits)

lemma extract_withdrawn_ok: "update_ok u \<Longrightarrow> list_all prefix_ok (extract_withdrawn u)"
  unfolding extract_withdrawn_def update_ok_def
  by (fastforce simp: list_all_iff split: path_attr.splits if_splits)

lemma rib_apply_tracks:
  assumes "rib_ok r" and "update_ok u"
  shows "tracks (best r) (rib_apply peer u r pol)"
proof -
  let ?out = "\<lparr>ao_changes = [], ao_rejected = [], ao_max_prefix_exceeded = False\<rparr>"
  have "tracks (best r) (announce_loop peer (extract_announced u) (r, pol, ?out))"
    using assms by (intro announce_loop_tracks) (simp_all add: extract_announced_ok)
  with withdraw_loop_tracks [OF _ extract_withdrawn_ok [OF assms(2)]] show ?thesis
    by (auto simp: rib_apply_def Let_def split: prod.split)
qed

text \<open>C7: The change stream of an UPDATE is complete and exact: replayed on the best paths the table had
  before, it gives the best paths the table has after, whatever the policy rejected and wherever the prefix
  limit cut the UPDATE short.\<close>

theorem rib_changes_replay:
  assumes "rib_ok r" and "update_ok u" and "rib_apply peer u r pol = (r', pol', out)"
  shows "rib_ok r' \<and> foldl replay (best r) (ao_changes out) = best r'"
  using rib_apply_tracks [OF assms(1,2), of peer pol] assms(3) by simp

text \<open>The best path is a shortest one, ties going to the least peer name.\<close>

lemma min_from_least:
  "x \<in> insert b (set xs) \<Longrightarrow> \<not> path_before x (min_from b xs)"
proof (induction xs arbitrary: b x)
  case (Cons y xs)
  have "\<not> path_before b (min_from y xs)" if "path_before y b"
    using Cons.IH [of y y] that by (auto simp: path_before_def not_less)
  moreover have "\<not> path_before y (min_from b xs)" if "\<not> path_before y b"
    using Cons.IH [of b b] that by (auto simp: path_before_def not_less)
  ultimately show ?case
    using Cons.prems Cons.IH [of x b] Cons.IH [of x y] by (cases "path_before y b") auto
qed (auto simp: path_before_def)

lemma best_is_shortest:
  assumes "rib_ok r" and "lr_entries r (key p) = Some e" and "best r p = Some path" and "(n, q) \<in> set (pp_peers e)"
  shows "path_len path \<le> path_len q"
proof -
  obtain x xs where x: "pp_peers e = x # xs" using assms(4) by (cases "pp_peers e") auto
  have e: "entry_ok e" using assms(1,2) by (rule rib_okD)
  then have "(fst (min_from x xs), path) \<in> set (pp_peers e)"
    using assms(2,3) x by (auto simp: best_def best_path_def entry_ok_def dest: map_of_SomeD split: if_splits)
  moreover have "min_from x xs \<in> set (pp_peers e)" using min_from_in [of x xs] x by simp
  ultimately have "path = snd (min_from x xs)"
    using e by (metis entry_ok_def eq_key_imp_eq_value prod.collapse)
  with min_from_least [of "(n, q)" x xs] assms(4) x show ?thesis by (auto simp: path_before_def not_less)
qed

section \<open>Leaving\<close>

lemma filter_keeps_all: "length (filter P xs) = length xs \<longleftrightarrow> list_all P xs"
proof (induction xs)
  case (Cons x xs)
  have "length (filter P xs) \<noteq> Suc (length xs)" by (metis length_filter_le Suc_n_not_le_n)
  with Cons show ?case by simp
qed simp

lemma remove_one_entries:
  assumes "remove_one peer p r = (c, r')"
  shows "lr_entries r' (key p) = Some e \<Longrightarrow> peer \<notin> fst ` set (pp_peers e)"
    and "lr_entries r' k = Some e \<Longrightarrow> \<exists>e0. lr_entries r k = Some e0 \<and> set (pp_peers e) \<subseteq> set (pp_peers e0)"
    and "k \<noteq> key p \<Longrightarrow> lr_entries r' k = lr_entries r k"
  using assms
  by (auto simp: remove_one_def Let_def filter_keeps_all list_all_iff split: option.splits if_splits)

lemma purge_loop_spec:
  assumes "rib_ok r" and "list_all (\<lambda>k. \<exists>p. prefix_ok p \<and> k = key p) ks"
  shows "\<exists>r' pol' cs. purge_loop peer ks (r, pol, changes) = Ok (r', pol', changes @ cs) \<and> rib_ok r'
    \<and> foldl replay (best r) cs = best r'
    \<and> (\<forall>k e. lr_entries r' k = Some e \<longrightarrow> k \<in> set ks \<longrightarrow> peer \<notin> fst ` set (pp_peers e))
    \<and> (\<forall>k e. lr_entries r' k = Some e \<longrightarrow> (\<exists>e0. lr_entries r k = Some e0 \<and> set (pp_peers e) \<subseteq> set (pp_peers e0)))
    \<and> (\<forall>k. k \<notin> set ks \<longrightarrow> lr_entries r' k = lr_entries r k)"
  using assms
proof (induction ks arbitrary: r pol changes)
  case Nil
  then show ?case by simp
next
  case (Cons k ks)
  then obtain p where p: "prefix_ok p" "k = key p" by auto
  obtain c r1 where c: "remove_one peer p r = (c, r1)" by (cases "remove_one peer p r")
  let ?cs = "case c of None \<Rightarrow> [] | Some cs \<Rightarrow> cs" and ?pol = "case c of None \<Rightarrow> pol | Some _ \<Rightarrow> note_withdrawn pol"
  have r1: "rib_ok r1" "foldl replay (best r) ?cs = best r1"
    using remove_one_replay [OF Cons.prems(1) p(1) c] by auto
  have step: "purge_loop peer (k # ks) (r, pol, changes) = purge_loop peer ks (r1, ?pol, changes @ ?cs)"
    using prefix_new_canonical [OF p(1)] p(2) c by (cases c) (simp_all add: key_def)
  obtain r' pol' cs where ih: "purge_loop peer ks (r1, ?pol, changes @ ?cs) = Ok (r', pol', (changes @ ?cs) @ cs)"
    "rib_ok r'" "foldl replay (best r1) cs = best r'"
    "\<And>k e. lr_entries r' k = Some e \<Longrightarrow> k \<in> set ks \<Longrightarrow> peer \<notin> fst ` set (pp_peers e)"
    "\<And>k e. lr_entries r' k = Some e \<Longrightarrow> \<exists>e0. lr_entries r1 k = Some e0 \<and> set (pp_peers e) \<subseteq> set (pp_peers e0)"
    "\<And>k. k \<notin> set ks \<Longrightarrow> lr_entries r' k = lr_entries r1 k"
    using Cons.IH [OF r1(1), of ?pol "changes @ ?cs"] Cons.prems(2) by (auto simp del: split_paired_All)
  have "peer \<notin> fst ` set (pp_peers e)" if "lr_entries r' l = Some e" "l \<in> set (k # ks)" for l e
    using that ih(4,6) remove_one_entries(1) [OF c] p(2) by (cases "l \<in> set ks") auto
  moreover have "lr_entries r' l = lr_entries r l" if "l \<notin> set (k # ks)" for l
    using that ih(6) remove_one_entries(3) [OF c] p(2) by simp
  moreover have "\<exists>e0. lr_entries r l = Some e0 \<and> set (pp_peers e) \<subseteq> set (pp_peers e0)" if "lr_entries r' l = Some e" for l e
    using ih(5) [OF that] remove_one_entries(2) [OF c] by (meson subset_trans)
  ultimately show ?case
    unfolding step using ih(1-3) r1(2)
    by (intro exI [of _ r'] exI [of _ pol'] exI [of _ "?cs @ cs"]) (simp del: split_paired_All)
qed

lemma rib_ok_keys: "rib_ok r \<Longrightarrow> set ks = dom (lr_entries r) \<Longrightarrow> list_all (\<lambda>k. \<exists>p. prefix_ok p \<and> k = key p) ks"
  unfolding rib_ok_def list_all_iff by blast

definition only_peer :: "string \<Rightarrow> loc_rib \<Rightarrow> bool" where
  "only_peer peer r \<longleftrightarrow> (\<forall>k e. lr_entries r k = Some e \<longrightarrow> fst ` set (pp_peers e) \<subseteq> {peer})"

lemma purge_peer_Ok:
  assumes "rib_ok r" and "set ks = dom (lr_entries r)"
  obtains r' pol' changes where "purge_peer ks peer r pol = Ok (r', pol', changes)" "rib_ok r'"
    "foldl replay (best r) changes = best r'"
    "\<forall>k e. lr_entries r' k = Some e \<longrightarrow> peer \<notin> fst ` set (pp_peers e)"
    "only_peer peer r \<longrightarrow> only_peer peer r' \<and> best r' = Map.empty"
proof -
  obtain r' pol' cs where p: "purge_peer ks peer r pol = Ok (r', pol', cs)" "rib_ok r'" "foldl replay (best r) cs = best r'"
    and gone: "\<And>k e. lr_entries r' k = Some e \<Longrightarrow> k \<in> set ks \<Longrightarrow> peer \<notin> fst ` set (pp_peers e)"
    and sub: "\<And>k e. lr_entries r' k = Some e \<Longrightarrow> \<exists>e0. lr_entries r k = Some e0 \<and> set (pp_peers e) \<subseteq> set (pp_peers e0)"
    using purge_loop_spec [OF assms(1) rib_ok_keys [OF assms], of peer pol "[]"]
    by (auto simp: purge_peer_def simp del: split_paired_All)
  have free: "peer \<notin> fst ` set (pp_peers e)" if "lr_entries r' k = Some e" for k e
    using gone [OF that] sub [OF that] assms(2) by blast
  have empty: "pp_peers e = []" if "only_peer peer r" "lr_entries r' k = Some e" for k e
    using free [OF that(2)] sub [OF that(2)] that(1) unfolding only_peer_def by (cases "pp_peers e") fastforce+
  have "only_peer peer r' \<and> best r' = Map.empty" if own: "only_peer peer r"
  proof
    show "only_peer peer r'" unfolding only_peer_def using empty [OF own] by fastforce
    have "best r' p = None" for p
      using empty [OF own] best_path_None rib_okD [OF p(2)] by (auto simp: best_def split: option.split)
    then show "best r' = Map.empty" by blast
  qed
  with p free that show thesis by blast
qed

text \<open>Whatever the order in which the table's keys are visited, purging a peer does not panic, leaves no
  path of that peer in any entry, and emits changes that replay to the best paths that remain; the table of a
  session, which holds paths of its own peer only, ends with no best path at all.\<close>

theorem purge_peer_spec:
  assumes "rib_ok r" and "set ks = dom (lr_entries r)"
  shows "\<exists>r' pol' changes. purge_peer ks peer r pol = Ok (r', pol', changes) \<and> rib_ok r'
    \<and> foldl replay (best r) changes = best r'
    \<and> (\<forall>k e. lr_entries r' k = Some e \<longrightarrow> peer \<notin> fst ` set (pp_peers e))
    \<and> (only_peer peer r \<longrightarrow> best r' = Map.empty)"
  using purge_peer_Ok [OF assms, of peer pol] by metis

text \<open>A session applies UPDATEs of its own peer only.\<close>

lemma only_peerD: "only_peer peer r \<Longrightarrow> lr_entries r k = Some e \<Longrightarrow> fst ` set (pp_peers e) \<subseteq> {peer}"
  unfolding only_peer_def by blast

lemma only_peer_update:
  "only_peer peer r \<Longrightarrow> fst ` set (pp_peers e) \<subseteq> {peer} \<Longrightarrow> only_peer peer (r\<lparr>lr_entries := (lr_entries r)(k \<mapsto> e)\<rparr>)"
  "only_peer peer r \<Longrightarrow> only_peer peer (r\<lparr>lr_entries := (lr_entries r)(k := None)\<rparr>)"
  unfolding only_peer_def by (simp_all del: split_paired_All)

lemma announce_one_only:
  assumes "only_peer peer (fst s)"
  shows "only_peer peer (fst (announce_one peer ann s))"
proof -
  obtain p path r pol out where s: "ann = (p, path)" "s = (r, pol, out)" by (cases ann, cases s) auto
  define e where "e = (case lr_entries r (key p) of Some e \<Rightarrow> e | None \<Rightarrow> \<lparr>pp_peers = [], pp_best = None\<rparr>)"
  have "fst ` set (pp_peers e) \<subseteq> {peer}"
    using only_peerD assms s by (simp add: e_def split: option.split)
  then show ?thesis
    using assms s
    by (cases "admit pol p path"; cases "map_of (pp_peers e) peer"; cases "note_accepted pol")
      (simp_all add: announce_one_def Let_def e_def [symmetric] fst_replace_peer only_peer_update split: sum.split)
qed

lemma remove_one_only: "only_peer peer r \<Longrightarrow> only_peer peer (snd (remove_one peer p r))"
  by (fastforce simp: remove_one_def Let_def intro!: only_peer_update dest: only_peerD split: option.split)

lemma rib_apply_only:
  assumes "only_peer peer r" and "rib_apply peer u r pol = (r', pol', out)"
  shows "only_peer peer r'"
proof -
  have a: "only_peer peer (fst (announce_loop peer anns s))" if "only_peer peer (fst s)" for anns s
    using that
  proof (induction anns arbitrary: s)
    case (Cons x anns)
    then have "only_peer peer (fst (announce_one peer x s))" by (intro announce_one_only)
    with Cons.IH show ?case by (auto split: prod.split)
  qed simp
  have w: "only_peer peer (fst (withdraw_loop peer ps s))" if "only_peer peer (fst s)" for ps s
    using that
  proof (induction ps arbitrary: s)
    case (Cons p ps)
    have "only_peer peer (snd (remove_one peer p (fst s)))" using Cons.prems by (rule remove_one_only)
    with Cons.IH show ?case by (cases s) (auto split: prod.split option.split)
  qed simp
  let ?out = "\<lparr>ao_changes = [], ao_rejected = [], ao_max_prefix_exceeded = False\<rparr>"
  show ?thesis
    using assms a [of "(r, pol, ?out)" "extract_announced u"] w
    by (auto simp: rib_apply_def Let_def split: prod.splits if_splits) (metis fst_conv)
qed

section \<open>What the policy lets in\<close>

definition held :: "string \<Rightarrow> loc_rib \<Rightarrow> pfx_key set" where
  "held peer r = {k. \<exists>e. lr_entries r k = Some e \<and> peer \<in> fst ` set (pp_peers e)}"

text \<open>The table and the policy of a session whose policy started as \<open>pol0\<close> with the prefix limit \<open>m\<close>.\<close>

definition rib_inv :: "string \<Rightarrow> import_policy \<Rightarrow> u32 \<Rightarrow> loc_rib \<Rightarrow> import_policy \<Rightarrow> bool" where
  "rib_inv peer pol0 m r pol \<longleftrightarrow>
     rib_ok r \<and> pol = pol0\<lparr>ip_accepted := ip_accepted pol\<rparr> \<and> ip_max_prefixes pol0 = Some m \<and> ip_accepted pol \<le> m
     \<and> finite (held peer r) \<and> card (held peer r) = unat (ip_accepted pol)
     \<and> (\<forall>p e x. lr_entries r (key p) = Some e \<longrightarrow> x \<in> set (pp_peers e) \<longrightarrow> fst x = peer \<and> admit pol0 p (snd x) = Inr ())"

lemma admit_accepted [simp]: "admit (pol\<lparr>ip_accepted := a\<rparr>) = admit pol"
  by (simp add: admit_def fun_eq_iff)

lemma admit_Inr:
  "admit pol p path = Inr () \<longleftrightarrow> bp_next_hop path \<noteq> None \<and> \<not> list_ex (is_covered_by p) (ip_bogons pol)
     \<and> list_ex (is_covered_by p) (ip_whitelist pol) \<and> ip_own_as pol \<notin> set (bp_as_path path)"
  by (simp add: admit_def)

lemma held_update:
  "held peer (r\<lparr>lr_entries := (lr_entries r)(k \<mapsto> e)\<rparr>) =
     (if peer \<in> fst ` set (pp_peers e) then insert k (held peer r) else held peer r - {k})"
  "held peer (r\<lparr>lr_entries := (lr_entries r)(k := None)\<rparr>) = held peer r - {k}"
  by (auto simp: held_def simp del: split_paired_All split_paired_Ex)

lemma note_accepted_counts:
  assumes "ip_max_prefixes pol = Some m" and "ip_accepted pol \<le> m"
  shows "note_accepted pol = (Inl (MaxPrefixes m), pol)
    \<or> note_accepted pol = (Inr (), pol\<lparr>ip_accepted := ip_accepted pol + 1\<rparr>) \<and> ip_accepted pol + 1 \<le> m
      \<and> unat (ip_accepted pol + 1) = unat (ip_accepted pol) + 1"
proof (cases "m \<le> ip_accepted pol")
  case False
  then have "ip_accepted pol < m" by simp
  then have "unat (ip_accepted pol) < unat m" by (simp add: word_less_nat_alt)
  then have "unat (ip_accepted pol + 1) = unat (ip_accepted pol) + 1" "ip_accepted pol + 1 \<le> m"
    using unsigned_less [of m, where ?'a = nat] by (simp_all add: unat_word_ariths word_le_nat_alt)
  with False assms(1) show ?thesis by (simp add: note_accepted_def)
qed (simp add: note_accepted_def assms(1))

text \<open>Changing one entry to peers that the policy admits keeps the invariant once the count follows.\<close>

lemma rib_inv_update:
  assumes "rib_inv peer pol0 m r pol" and "rib_ok r'"
    and "r' = r\<lparr>lr_entries := (lr_entries r)(key p := e)\<rparr>"
    and "\<And>x. x \<in> set (case e of None \<Rightarrow> [] | Some e \<Rightarrow> pp_peers e) \<Longrightarrow> fst x = peer \<and> admit pol0 p (snd x) = Inr ()"
    and "pol' = pol\<lparr>ip_accepted := a\<rparr>" and "a \<le> m" and "card (held peer r') = unat a"
  shows "rib_inv peer pol0 m r' pol'"
proof -
  have "finite (held peer r')" using assms(1,3) by (cases e) (auto simp: rib_inv_def held_update)
  moreover have "pol' = pol0\<lparr>ip_accepted := ip_accepted pol'\<rparr>" using assms(1,5) unfolding rib_inv_def by (metis import_policy.simps import_policy.surjective import_policy.update_convs(5))
  ultimately show ?thesis using assms by (auto simp: rib_inv_def split: if_splits option.splits)
qed

lemma rib_invD:
  assumes "rib_inv peer pol0 m r pol"
  shows "rib_ok r" "ip_max_prefixes pol = Some m" "ip_accepted pol \<le> m" "admit pol = admit pol0"
    "card (held peer r) = unat (ip_accepted pol)" "finite (held peer r)" "pol\<lparr>ip_accepted := ip_accepted pol\<rparr> = pol"
    "lr_entries r (key p) = Some e \<Longrightarrow> x \<in> set (pp_peers e) \<Longrightarrow> fst x = peer \<and> admit pol0 p (snd x) = Inr ()"
proof -
  have pol: "pol = pol0\<lparr>ip_accepted := ip_accepted pol\<rparr>" and m: "ip_max_prefixes pol0 = Some m"
    using assms unfolding rib_inv_def by blast+
  show "ip_max_prefixes pol = Some m" "admit pol = admit pol0" by (subst pol; simp add: m)+
qed (use assms in \<open>auto simp: rib_inv_def simp del: split_paired_All\<close>)

lemma announce_one_inv:
  assumes inv: "rib_inv peer pol0 m r pol" and p: "prefix_ok p"
    and res: "announce_one peer (p, path) (r, pol, out) = (r', pol', out')"
  shows "rib_inv peer pol0 m r' pol'"
proof -
  note D = rib_invD [OF inv]
  define e where "e = (case lr_entries r (key p) of Some e \<Rightarrow> e | None \<Rightarrow> \<lparr>pp_peers = [], pp_best = None\<rparr>)"
  have e: "fst x = peer \<and> admit pol0 p (snd x) = Inr ()" if "x \<in> set (pp_peers e)" for x
    using that D(8) by (auto simp: e_def split: option.splits)
  have h: "key p \<in> held peer r \<longleftrightarrow> peer \<in> fst ` set (pp_peers e)"
    by (auto simp: held_def e_def split: option.split)
  have ok: "rib_ok r'"
    using announce_one_step [OF D(1) p res] by simp
  show ?thesis
  proof (cases "admit pol0 p path")
    case (Inl reason)
    then show ?thesis using inv res D(4) by (auto simp: announce_one_def)
  next
    case (Inr u)
    show ?thesis
    proof (cases "map_of (pp_peers e) peer")
      case (Some slot)
      then have k: "peer \<in> fst ` set (pp_peers e)" by (metis domI dom_map_of_conv_image_fst)
      obtain e1 where e1: "r' = r\<lparr>lr_entries := (lr_entries r)(key p \<mapsto> e1)\<rparr>" "pol' = pol"
        "pp_peers e1 = replace_peer peer path (pp_peers e)"
        using res Inr Some by (auto simp: announce_one_def Let_def e_def [symmetric] D(4) split: if_splits)
      have "held peer r' = held peer r"
        using h k unfolding e1(1) by (simp add: held_update e1(3) fst_replace_peer insert_absorb)
      then have "card (held peer r') = unat (ip_accepted pol)" by (simp add: D(5))
      moreover have "fst x = peer \<and> admit pol0 p (snd x) = Inr ()" if "x \<in> set (pp_peers e1)" for x
        using that [unfolded e1(3), THEN subsetD [OF set_replace_peer]] e Inr by (cases "x = (peer, path)") auto
      ultimately show ?thesis
        unfolding e1(2) using D(3,7) by (intro rib_inv_update [OF inv ok e1(1)]) simp_all
    next
      case None
      then have k: "key p \<notin> held peer r" by (simp add: h map_of_eq_None_iff)
      from note_accepted_counts [OF D(2,3)] show ?thesis
      proof
        assume "note_accepted pol = (Inl (MaxPrefixes m), pol)"
        then have "r' = r\<lparr>lr_entries := (lr_entries r)(key p \<mapsto> e)\<rparr>" "pol' = pol"
          using res Inr None by (auto simp: announce_one_def Let_def e_def [symmetric] D(4))
        then show ?thesis
          using D(3,5,7) e h k by (intro rib_inv_update [OF inv ok]) (auto simp: held_update)
      next
        let ?e = "\<lparr>pp_peers = pp_peers e @ [(peer, path)], pp_best = select_best (pp_peers e @ [(peer, path)])\<rparr>"
        assume n: "note_accepted pol = (Inr (), pol\<lparr>ip_accepted := ip_accepted pol + 1\<rparr>) \<and> ip_accepted pol + 1 \<le> m
          \<and> unat (ip_accepted pol + 1) = unat (ip_accepted pol) + 1"
        then have "r' = r\<lparr>lr_entries := (lr_entries r)(key p \<mapsto> ?e)\<rparr>" "pol' = pol\<lparr>ip_accepted := ip_accepted pol + 1\<rparr>"
          using res Inr None by (auto simp: announce_one_def Let_def e_def [symmetric] D(4))
        moreover have "fst x = peer \<and> admit pol0 p (snd x) = Inr ()" if "x \<in> set (pp_peers ?e)" for x
          using that e Inr by (cases "x = (peer, path)") auto
        ultimately show ?thesis
          using D(5,6) k n by (intro rib_inv_update [OF inv ok, where e = "Some ?e"]) (blast | simp add: held_update)+
      qed
    qed
  qed
qed

lemma announce_loop_inv:
  assumes "rib_inv peer pol0 m r pol" and "list_all (\<lambda>a. prefix_ok (fst a)) anns"
    and "announce_loop peer anns (r, pol, out) = (r', pol', out')"
  shows "rib_inv peer pol0 m r' pol'"
  using assms
proof (induction anns arbitrary: r pol out)
  case (Cons a anns)
  obtain r1 pol1 out1 where s: "announce_one peer a (r, pol, out) = (r1, pol1, out1)"
    by (cases "announce_one peer a (r, pol, out)")
  then have "rib_inv peer pol0 m r1 pol1"
    using Cons.prems announce_one_inv [of peer pol0 m r pol "fst a" "snd a"] by simp
  with s Cons show ?case by (auto split: if_splits)
qed simp

lemma remove_one_inv:
  assumes inv: "rib_inv peer pol0 m r pol" and p: "prefix_ok p" and res: "remove_one peer p r = (c, r')"
  shows "rib_inv peer pol0 m r' (case c of None \<Rightarrow> pol | Some _ \<Rightarrow> note_withdrawn pol)"
proof (cases c)
  case None
  with inv res show ?thesis by (auto simp: remove_one_def Let_def split: option.splits if_splits)
next
  case (Some cs)
  note D = rib_invD [OF inv]
  have ok: "rib_ok r'" using remove_one_replay [OF D(1) p res] by simp
  obtain e where e: "lr_entries r (key p) = Some e" "\<not> list_all (\<lambda>x. fst x \<noteq> peer) (pp_peers e)"
    using res Some by (auto simp: remove_one_def Let_def filter_keeps_all split: option.splits if_splits)
  then have f: "filter (\<lambda>x. fst x \<noteq> peer) (pp_peers e) = []" using D(8) by (simp add: filter_empty_conv)
  have r': "r' = r\<lparr>lr_entries := (lr_entries r)(key p := None)\<rparr>"
    using res Some e f by (auto simp: remove_one_def Let_def split: if_splits)
  have k: "key p \<in> held peer r" using e by (force simp: held_def list_all_iff)
  then have "0 < card (held peer r)" using D(6) by (auto simp: card_gt_0_iff)
  then have a: "ip_accepted pol \<noteq> 0" using D(5) by auto
  then have u: "unat (ip_accepted pol - 1) = unat (ip_accepted pol) - 1" by (metis unat_minus_one)
  then have "card (held peer r') = unat (ip_accepted pol - 1)"
    using D(5,6) k unfolding r' by (simp add: held_update)
  moreover have "ip_accepted pol - 1 \<le> m" using D(3) u by (simp add: word_le_nat_alt)
  ultimately show ?thesis
    using a Some by (intro rib_inv_update [OF inv ok r']) (simp_all add: note_withdrawn_def)
qed

lemma withdraw_loop_inv:
  assumes "rib_inv peer pol0 m r pol" and "list_all prefix_ok ps"
    and "withdraw_loop peer ps (r, pol, out) = (r', pol', out')"
  shows "rib_inv peer pol0 m r' pol'"
  using assms
proof (induction ps arbitrary: r pol out)
  case (Cons p ps)
  obtain c r1 where c: "remove_one peer p r = (c, r1)" by (cases "remove_one peer p r")
  have "rib_inv peer pol0 m r1 (case c of None \<Rightarrow> pol | Some _ \<Rightarrow> note_withdrawn pol)"
    using Cons.prems c by (intro remove_one_inv) auto
  with c Cons show ?case by (cases c) auto
qed simp

lemma rib_apply_inv:
  assumes "rib_inv peer pol0 m r pol" and "update_ok u" and "rib_apply peer u r pol = (r', pol', out)"
  shows "rib_inv peer pol0 m r' pol'"
proof -
  let ?out = "\<lparr>ao_changes = [], ao_rejected = [], ao_max_prefix_exceeded = False\<rparr>"
  obtain r1 pol1 out1 where a: "announce_loop peer (extract_announced u) (r, pol, ?out) = (r1, pol1, out1)"
    by (cases "announce_loop peer (extract_announced u) (r, pol, ?out)")
  have "rib_inv peer pol0 m r1 pol1" using assms(1,2) a by (auto intro: announce_loop_inv extract_announced_ok)
  then show ?thesis
    using assms(2,3) a withdraw_loop_inv [OF _ extract_withdrawn_ok]
    by (auto simp: rib_apply_def Let_def split: if_splits)
qed

text \<open>A session's table under one UPDATE after the other.\<close>

definition rib_step :: "string \<Rightarrow> loc_rib \<times> import_policy \<Rightarrow> update_msg \<Rightarrow> loc_rib \<times> import_policy" where
  "rib_step peer s u = (case rib_apply peer u (fst s) (snd s) of (r, pol, out) \<Rightarrow> (r, pol))"

interpretation rb: invariant_machine "rib_step peer" "\<lambda>s. rib_inv peer pol0 m (fst s) (snd s)" "\<lambda>_. update_ok"
  for peer pol0 m
  by unfold_locales (auto simp: rib_step_def intro: rib_apply_inv split: prod.split)

lemma rb_guarded: "list_all update_ok us \<Longrightarrow> rb.guarded peer s us"
  by (induction us arbitrary: s) simp_all

lemma rib_inv_new:
  "ip_max_prefixes pol = Some m \<Longrightarrow> ip_accepted pol = 0 \<Longrightarrow> rib_inv peer pol m loc_rib_new pol"
  by (simp add: rib_inv_def rib_ok_def loc_rib_new_def held_def)

text \<open>C28: Whatever UPDATEs a peer sends, each best path of the session's table has a next hop, does not run
  through the own AS, covers only addresses of the whitelist and is under no bogon prefix; and the table holds
  at most the configured number of prefixes of the peer, which is the number the policy has counted.\<close>

theorem session_routes_admitted:
  assumes "list_all update_ok us" and "list_all prefix_ok whitelist"
    and "foldl (rib_step peer) (loc_rib_new, import_policy_new whitelist bogons own_as (Some m)) us = (r, pol)"
  shows "card (held peer r) = unat (ip_accepted pol) \<and> ip_accepted pol \<le> m
    \<and> (\<forall>p path. best r p = Some path \<longrightarrow>
        bp_next_hop path \<noteq> None \<and> own_as \<notin> set (bp_as_path path)
        \<and> addrs p \<subseteq> \<Union> (addrs ` set whitelist)
        \<and> \<not> list_ex (is_covered_by p) (case bogons of Some bs \<Rightarrow> bs | None \<Rightarrow> default_bogons))"
proof -
  let ?pol = "import_policy_new whitelist bogons own_as (Some m)"
  have "rib_inv peer ?pol m loc_rib_new ?pol" by (rule rib_inv_new) (simp_all add: import_policy_new_def)
  then have inv: "rib_inv peer ?pol m r pol"
    using rb.run_inv [of peer ?pol m "(loc_rib_new, ?pol)" us] rb_guarded [OF assms(1)] assms(3) by simp
  note D = rib_invD [OF inv]
  have "prefix_ok p \<and> admit ?pol p path = Inr ()" if b: "best r p = Some path" for p path
  proof -
    from b obtain e n where e: "lr_entries r (key p) = Some e" "(n, path) \<in> set (pp_peers e)"
      by (auto simp: best_def best_path_def dest: map_of_SomeD split: option.splits)
    then have "prefix_ok p" using D(1) unfolding rib_ok_def by (metis key_inject)
    with D(8) [OF e] show ?thesis by simp
  qed
  then have "prefix_ok p \<and> bp_next_hop path \<noteq> None \<and> own_as \<notin> set (bp_as_path path) \<and> list_ex (is_covered_by p) whitelist
      \<and> \<not> list_ex (is_covered_by p) (case bogons of Some bs \<Rightarrow> bs | None \<Rightarrow> default_bogons)" if "best r p = Some path" for p path
    using that unfolding admit_Inr import_policy_new_def by simp
  with D(3,5) wl.gate_sound [OF _ assms(2)] show ?thesis by blast
qed

section \<open>A session with one announcement\<close>

definition ex_path :: bgp_path where
  "ex_path = \<lparr>bp_as_path = [4242420001], bp_next_hop = Some (V4 [172, 20, 0, 1]), bp_origin = 0, bp_communities = []\<rparr>"

definition ex_update :: update_msg where
  "ex_update = \<lparr>um_withdrawn = [], um_attrs = [Origin 0, AsPath [\<lparr>seg_set = False, seg_asns = [4242420001]\<rparr>], NextHop [172, 20, 0, 1]],
     um_announced = [ex_net16]\<rparr>"

definition ex_policy :: import_policy where
  "ex_policy = import_policy_new [ex_net8] (Some []) 4242420002 (Some 1)"

definition ex_rib :: loc_rib where
  "ex_rib = \<lparr>lr_entries = [key ex_net16 \<mapsto> \<lparr>pp_peers = [(''a'', ex_path)], pp_best = Some ''a''\<rparr>]\<rparr>"

lemma ex_update_ok: "update_ok ex_update"
  using ex_nets_ok by (simp add: update_ok_def ex_update_def)

lemma ex_apply:
  "rib_apply ''a'' ex_update loc_rib_new ex_policy =
     (ex_rib, ex_policy\<lparr>ip_accepted := 1\<rparr>, \<lparr>ao_changes = [Learned ex_net16 ex_path], ao_rejected = [], ao_max_prefix_exceeded = False\<rparr>)"
  using ex_nets_covered
  by (simp add: rib_apply_def extract_announced_def extract_withdrawn_def ex_update_def announce_one_def admit_def ex_policy_def
      import_policy_new_def loc_rib_new_def note_accepted_def ex_rib_def ex_path_def push_learned_def best_path_def Let_def)

lemma ex_best: "best ex_rib = [ex_net16 \<mapsto> ex_path]"
  by (auto simp: best_def ex_rib_def best_path_def)

lemma new_rib_ok: "rib_ok loc_rib_new"
  by (simp add: rib_ok_def loc_rib_new_def)

theorem rib_changes_replay_witness:
  "rib_ok ex_rib \<and> foldl replay (best loc_rib_new) [Learned ex_net16 ex_path] = best ex_rib"
  using rib_changes_replay [OF new_rib_ok ex_update_ok ex_apply] by simp

theorem purge_peer_spec_witness:
  "\<exists>r' pol' changes. purge_peer [key ex_net16] ''a'' ex_rib ex_policy = Ok (r', pol', changes)
    \<and> foldl replay [ex_net16 \<mapsto> ex_path] changes = Map.empty"
proof -
  have ok: "rib_ok ex_rib" using rib_apply_tracks [OF new_rib_ok ex_update_ok, of "''a''" ex_policy] ex_apply by simp
  moreover have "set [key ex_net16] = dom (lr_entries ex_rib)" by (auto simp: ex_rib_def)
  moreover have "only_peer ''a'' ex_rib" by (auto simp: ex_rib_def only_peer_def)
  ultimately show ?thesis using purge_peer_spec [of ex_rib "[key ex_net16]" "''a''" ex_policy] ex_best by metis
qed

theorem session_routes_admitted_witness:
  "card (held ''a'' ex_rib) = 1 \<and> addrs ex_net16 \<subseteq> addrs ex_net8 \<and> 4242420002 \<notin> set (bp_as_path ex_path)"
proof -
  have "foldl (rib_step ''a'') (loc_rib_new, ex_policy) [ex_update] = (ex_rib, ex_policy\<lparr>ip_accepted := 1\<rparr>)"
    by (simp add: rib_step_def ex_apply)
  then show ?thesis
    using session_routes_admitted [of "[ex_update]" "[ex_net8]" "''a''" "Some []" 4242420002 1 ex_rib "ex_policy\<lparr>ip_accepted := 1\<rparr>"]
      ex_update_ok ex_nets_ok ex_best by (simp add: ex_policy_def)
qed

end
