(* ===== verification/Bgp_Fsm.thy ===== *)
theory Bgp_Fsm
  imports Bgp_Roundtrip
begin

text \<open>
  The BGP state machine (\<open>rill-dn42/src/fsm/mod.rs\<close>): one definition per handler, each returning the actions
  and the machine after it. Shown: what an established machine has agreed with its peer, and that two
  machines connected back to back through the wire codec both reach \<open>Established\<close>.
\<close>

unbundle bit_operations_syntax

section \<open>Model\<close>

datatype state = Idle | Connect | OpenSent | OpenConfirm | Established

record local_config =
  lc_as4 :: u32
  lc_bgp_id :: "byte list"
  lc_hold_time :: u16
  lc_peer_as4 :: "u32 option"

definition local_config_default :: local_config where
  "local_config_default = \<lparr>lc_as4 = 0, lc_bgp_id = [0, 0, 0, 0], lc_hold_time = 90, lc_peer_as4 = None\<rparr>"

datatype action = Send message | Close

record bgp_fsm =
  fs_state :: state
  fs_local :: local_config
  fs_negotiated_hold :: u16

definition fsm_new :: "local_config \<Rightarrow> bgp_fsm" where
  "fsm_new local = \<lparr>fs_state = Idle, fs_local = local, fs_negotiated_hold = lc_hold_time local\<rparr>"

text \<open>In seconds.\<close>

definition keepalive_interval :: "bgp_fsm \<Rightarrow> nat option" where
  "keepalive_interval f =
     (if fs_negotiated_hold f = 0 then None else Some (max (unat (fs_negotiated_hold f div 3)) 1))"

definition start :: "bgp_fsm \<Rightarrow> bgp_fsm" where
  "start f = f\<lparr>fs_state := Connect\<rparr>"

definition notify :: "u8 \<Rightarrow> u8 \<Rightarrow> action" where
  "notify code subcode = Send (NotificationM \<lparr>nm_code = code, nm_subcode = subcode, nm_data = []\<rparr>)"

definition notify_fsm_error :: "bgp_fsm \<Rightarrow> action list \<times> bgp_fsm" where
  "notify_fsm_error f = ([notify 5 1, Close], f\<lparr>fs_state := Idle\<rparr>)"

text \<open>The OPEN of \<open>on_tcp_established\<close>.\<close>

definition own_open :: "local_config \<Rightarrow> open_msg" where
  "own_open l =
     \<lparr>om_as4 = lc_as4 l, om_hold_time = lc_hold_time l, om_bgp_id = lc_bgp_id l,
      om_capabilities = [MpBgp 1 1, MpBgp 2 1, CapRouteRefresh, FourOctetAs (lc_as4 l)]\<rparr>"

definition on_tcp_established :: "bgp_fsm \<Rightarrow> action list \<times> bgp_fsm" where
  "on_tcp_established f =
     (if fs_state f = Connect \<or> fs_state f = Idle
      then ([Send (OpenM (own_open (fs_local f)))],
            f\<lparr>fs_state := OpenSent, fs_negotiated_hold := lc_hold_time (fs_local f)\<rparr>)
      else notify_fsm_error f)"

definition on_tcp_closed :: "bgp_fsm \<Rightarrow> bgp_fsm" where
  "on_tcp_closed f = f\<lparr>fs_state := Idle\<rparr>"

definition on_hold_timer :: "bgp_fsm \<Rightarrow> action list \<times> bgp_fsm" where
  "on_hold_timer f =
     (if fs_state f = OpenConfirm \<or> fs_state f = Established
      then ([notify 4 0, Close], f\<lparr>fs_state := Idle\<rparr>)
      else ([], f))"

fun cap_flags :: "bool \<times> bool \<times> bool \<Rightarrow> capability \<Rightarrow> bool \<times> bool \<times> bool" where
  "cap_flags (mp, as4, rr) (MpBgp afi safi) = (mp \<or> safi = 1 \<and> (afi = 1 \<or> afi = 2), as4, rr)"
| "cap_flags (mp, as4, rr) (FourOctetAs _) = (mp, True, rr)"
| "cap_flags (mp, as4, rr) CapRouteRefresh = (mp, as4, True)"

definition on_open :: "bgp_fsm \<Rightarrow> open_msg \<Rightarrow> action list \<times> bgp_fsm" where
  "on_open f m =
     (if fs_state f \<noteq> OpenSent then notify_fsm_error f
      else if om_hold_time m > 0 \<and> om_hold_time m < 3 then ([notify 2 6, Close], f\<lparr>fs_state := Idle\<rparr>)
      else if (case lc_peer_as4 (fs_local f) of Some expect \<Rightarrow> om_as4 m \<noteq> expect | None \<Rightarrow> False)
      then ([notify 2 2, Close], f\<lparr>fs_state := Idle\<rparr>)
      else if om_bgp_id m = [0, 0, 0, 0] then ([notify 2 3, Close], f\<lparr>fs_state := Idle\<rparr>)
      else case foldl cap_flags (False, False, False) (om_capabilities m) of (has_mp, has_as4, has_rr) \<Rightarrow>
        if \<not> has_mp \<or> \<not> has_as4 \<or> \<not> has_rr then ([notify 2 7, Close], f\<lparr>fs_state := Idle\<rparr>)
        else
          ([Send Keepalive],
           f\<lparr>fs_negotiated_hold := (if lc_hold_time (fs_local f) = 0 \<or> om_hold_time m = 0 then 0
                                    else min (lc_hold_time (fs_local f)) (om_hold_time m)),
             fs_state := OpenConfirm\<rparr>))"

definition on_keepalive :: "bgp_fsm \<Rightarrow> action list \<times> bgp_fsm" where
  "on_keepalive f =
     (case fs_state f of
        OpenConfirm \<Rightarrow> ([], f\<lparr>fs_state := Established\<rparr>)
      | Established \<Rightarrow> ([], f)
      | _ \<Rightarrow> notify_fsm_error f)"

definition on_update :: "bgp_fsm \<Rightarrow> update_msg \<Rightarrow> action list \<times> bgp_fsm" where
  "on_update f u = (if fs_state f \<noteq> Established then notify_fsm_error f else ([], f))"

fun on_message :: "bgp_fsm \<Rightarrow> message \<Rightarrow> action list \<times> bgp_fsm" where
  "on_message f (OpenM m) = on_open f m"
| "on_message f Keepalive = on_keepalive f"
| "on_message f (UpdateM u) = on_update f u"
| "on_message f (NotificationM _) = ([Close], f\<lparr>fs_state := Idle\<rparr>)"
| "on_message f (RouteRefreshM _) = (if fs_state f = Established then ([], f) else notify_fsm_error f)"

definition cease :: "bgp_fsm \<Rightarrow> action list \<times> bgp_fsm" where
  "cease f = ([notify 6 0], f\<lparr>fs_state := Idle\<rparr>)"

definition notify_max_prefix :: "bgp_fsm \<Rightarrow> action list \<times> bgp_fsm" where
  "notify_max_prefix f = ([notify 6 1, Close], f\<lparr>fs_state := Idle\<rparr>)"

section \<open>What an established session has agreed\<close>

datatype fsm_input =
  Start | TcpUp | TcpClosed | HoldTimer | Receive message | CeaseCall | MaxPrefix

fun fsm_step :: "bgp_fsm \<Rightarrow> fsm_input \<Rightarrow> bgp_fsm" where
  "fsm_step f Start = start f"
| "fsm_step f TcpUp = snd (on_tcp_established f)"
| "fsm_step f TcpClosed = on_tcp_closed f"
| "fsm_step f HoldTimer = snd (on_hold_timer f)"
| "fsm_step f (Receive m) = snd (on_message f m)"
| "fsm_step f CeaseCall = snd (cease f)"
| "fsm_step f MaxPrefix = snd (notify_max_prefix f)"

text \<open>The hold time two speakers agree on, and when a speaker accepts the other's OPEN.\<close>

definition agreed_hold :: "u16 \<Rightarrow> u16 \<Rightarrow> u16" where
  "agreed_hold a b = (if a = 0 \<or> b = 0 then 0 else min a b)"

definition acceptable :: "local_config \<Rightarrow> open_msg \<Rightarrow> bool" where
  "acceptable l m \<longleftrightarrow>
     (om_hold_time m = 0 \<or> 3 \<le> om_hold_time m) \<and> (lc_peer_as4 l = None \<or> lc_peer_as4 l = Some (om_as4 m))
     \<and> om_bgp_id m \<noteq> [0, 0, 0, 0]
     \<and> (MpBgp 1 1 \<in> set (om_capabilities m) \<or> MpBgp 2 1 \<in> set (om_capabilities m))
     \<and> (\<exists>as4. FourOctetAs as4 \<in> set (om_capabilities m)) \<and> CapRouteRefresh \<in> set (om_capabilities m)"

lemma foldl_cap_flags:
  "foldl cap_flags (mp, as4, rr) cs =
     (mp \<or> MpBgp 1 1 \<in> set cs \<or> MpBgp 2 1 \<in> set cs, as4 \<or> (\<exists>a. FourOctetAs a \<in> set cs), rr \<or> CapRouteRefresh \<in> set cs)"
proof (induction cs arbitrary: mp as4 rr)
  case (Cons c cs)
  then show ?case by (cases c) auto
qed simp

lemma on_open_acceptable:
  "fs_state f = OpenSent \<Longrightarrow> acceptable (fs_local f) m \<Longrightarrow>
     on_open f m = ([Send Keepalive],
       f\<lparr>fs_negotiated_hold := agreed_hold (lc_hold_time (fs_local f)) (om_hold_time m), fs_state := OpenConfirm\<rparr>)"
  by (auto simp: on_open_def acceptable_def foldl_cap_flags agreed_hold_def word_gt_0 not_less split: option.splits)

lemma on_open_refused:
  "fs_state f \<noteq> OpenSent \<or> \<not> acceptable (fs_local f) m \<Longrightarrow> snd (on_open f m) = f\<lparr>fs_state := Idle\<rparr>"
  by (auto simp: on_open_def acceptable_def foldl_cap_flags word_gt_0 not_less notify_fsm_error_def split: option.splits)

lemmas fsm_defs = start_def on_tcp_established_def notify_fsm_error_def on_tcp_closed_def on_hold_timer_def
  cease_def notify_max_prefix_def

lemma fsm_step_local [simp]: "fs_local (fsm_step f i) = fs_local f"
proof (cases i)
  case (Receive m)
  then show ?thesis
    by (cases m) (auto simp: on_open_def on_keepalive_def on_update_def notify_fsm_error_def split: state.split prod.split)
qed (simp_all add: fsm_defs)

lemma fsm_run_local [simp]: "fs_local (foldl fsm_step f is) = fs_local f"
  by (induction "is" arbitrary: f) simp_all

text \<open>The inputs that leave an established machine as it is.\<close>

fun steady :: "fsm_input \<Rightarrow> bool" where
  "steady (Receive Keepalive) \<longleftrightarrow> True"
| "steady (Receive (UpdateM _)) \<longleftrightarrow> True"
| "steady (Receive (RouteRefreshM _)) \<longleftrightarrow> True"
| "steady _ \<longleftrightarrow> False"

text \<open>Where each live state comes from, one step back.\<close>

lemma to_OpenSent:
  "fs_state (fsm_step f i) = OpenSent \<longleftrightarrow>
     i = TcpUp \<and> (fs_state f = Idle \<or> fs_state f = Connect) \<or> i = HoldTimer \<and> fs_state f = OpenSent"
proof (cases i)
  case (Receive m)
  then show ?thesis
    by (cases m; cases "fs_state f")
      (auto simp: on_open_def on_keepalive_def on_update_def notify_fsm_error_def split: prod.split)
qed (auto simp: fsm_defs)

lemma to_OpenConfirm:
  "fs_state (fsm_step f i) = OpenConfirm \<longleftrightarrow>
     (\<exists>m. i = Receive (OpenM m) \<and> fs_state f = OpenSent \<and> acceptable (fs_local f) m)"
proof (cases i)
  case (Receive m)
  show ?thesis
  proof (cases m)
    case (OpenM x)
    then show ?thesis using Receive on_open_acceptable [of f x] on_open_refused [of f x]
      by (cases "fs_state f = OpenSent \<and> acceptable (fs_local f) x") auto
  qed (use Receive in \<open>auto simp: on_keepalive_def on_update_def notify_fsm_error_def split: state.splits\<close>)
qed (auto simp: fsm_defs)

lemma to_Established:
  "fs_state (fsm_step f i) = Established \<longleftrightarrow>
     i = Receive Keepalive \<and> fs_state f = OpenConfirm \<or> steady i \<and> fs_state f = Established"
proof (cases i)
  case (Receive m)
  then show ?thesis
    by (cases m; cases "fs_state f")
      (auto simp: on_open_def on_keepalive_def on_update_def notify_fsm_error_def split: prod.split)
qed (auto simp: fsm_defs)

text \<open>The hold time along the way.\<close>

lemma hold_kept:
  "fs_state f = OpenConfirm \<and> i = Receive Keepalive \<or> fs_state f = Established \<and> steady i \<Longrightarrow>
     fs_negotiated_hold (fsm_step f i) = fs_negotiated_hold f"
  by (cases "(f, i)" rule: prod.exhaust; cases i rule: steady.cases) (auto simp: on_keepalive_def on_update_def)

lemma hold_agreed:
  "fs_state f = OpenSent \<Longrightarrow> acceptable (fs_local f) m \<Longrightarrow>
     fs_negotiated_hold (fsm_step f (Receive (OpenM m))) = agreed_hold (lc_hold_time (fs_local f)) (om_hold_time m)"
  by (simp add: on_open_acceptable)

abbreviation ready :: "bgp_fsm \<Rightarrow> bool" where
  "ready f \<equiv> fs_state f = Idle \<or> fs_state f = Connect"

lemma OpenSent_trace:
  "fs_state (foldl fsm_step f0 is) = OpenSent \<Longrightarrow> ready f0 \<Longrightarrow>
     \<exists>pre k. is = pre @ TcpUp # replicate k HoldTimer \<and> ready (foldl fsm_step f0 pre)"
proof (induction "is" rule: rev_induct)
  case (snoc i "is")
  let ?f = "foldl fsm_step f0 is"
  from snoc.prems have "i = TcpUp \<and> ready ?f \<or> i = HoldTimer \<and> fs_state ?f = OpenSent" by (simp add: to_OpenSent)
  then show ?case
  proof
    assume "i = TcpUp \<and> ready ?f"
    then show ?thesis by (intro exI [of _ "is"] exI [of _ 0]) simp
  next
    assume h: "i = HoldTimer \<and> fs_state ?f = OpenSent"
    then obtain pre k where "is = pre @ TcpUp # replicate k HoldTimer" "ready (foldl fsm_step f0 pre)"
      using snoc.IH snoc.prems(2) by blast
    with h show ?thesis by (intro exI [of _ pre] exI [of _ "Suc k"]) (simp add: replicate_append_same)
  qed
qed auto

lemma Established_trace:
  assumes "fs_state (foldl fsm_step f0 is) = Established" and "ready f0"
  shows "\<exists>pre k m post. is = pre @ TcpUp # replicate k HoldTimer @ Receive (OpenM m) # Receive Keepalive # post
    \<and> ready (foldl fsm_step f0 pre) \<and> acceptable (fs_local f0) m \<and> list_all steady post
    \<and> fs_negotiated_hold (foldl fsm_step f0 is) = agreed_hold (lc_hold_time (fs_local f0)) (om_hold_time m)"
  using assms
proof (induction "is" rule: rev_induct)
  case (snoc i "is")
  let ?f = "foldl fsm_step f0 is"
  from snoc.prems have "i = Receive Keepalive \<and> fs_state ?f = OpenConfirm \<or> steady i \<and> fs_state ?f = Established"
    by (simp add: to_Established)
  then show ?case
  proof
    assume h: "i = Receive Keepalive \<and> fs_state ?f = OpenConfirm"
    then have "is \<noteq> []" using snoc.prems(2) by auto
    then obtain j js where js: "is = js @ [j]" by (metis rev_exhaust)
    with h obtain m where m: "j = Receive (OpenM m)" "fs_state (foldl fsm_step f0 js) = OpenSent" "acceptable (fs_local f0) m"
      by (auto simp: to_OpenConfirm)
    then obtain pre k where "js = pre @ TcpUp # replicate k HoldTimer" "ready (foldl fsm_step f0 pre)"
      using OpenSent_trace snoc.prems(2) by blast
    moreover have "fs_negotiated_hold ?f = agreed_hold (lc_hold_time (fs_local f0)) (om_hold_time m)"
      using hold_agreed [OF m(2)] m(1,3) js by simp
    ultimately show ?thesis
      using h js m(1,3) hold_kept [of ?f i]
      by - (rule exI [of _ pre], rule exI [of _ k], rule exI [of _ m], rule exI [of _ "[]"], simp del: fsm_step.simps)
  next
    assume h: "steady i \<and> fs_state ?f = Established"
    then obtain pre k m post where "is = pre @ TcpUp # replicate k HoldTimer @ Receive (OpenM m) # Receive Keepalive # post"
      "ready (foldl fsm_step f0 pre)" "acceptable (fs_local f0) m" "list_all steady post"
      "fs_negotiated_hold ?f = agreed_hold (lc_hold_time (fs_local f0)) (om_hold_time m)"
      using snoc.IH snoc.prems(2) by blast
    with h hold_kept [of ?f i] show ?thesis
      by - (rule exI [of _ pre], rule exI [of _ k], rule exI [of _ m], rule exI [of _ "post @ [i]"], simp del: fsm_step.simps)
  qed
qed auto

lemma run_hold_timers: "fs_state f = OpenSent \<Longrightarrow> foldl fsm_step f (replicate k HoldTimer) = f"
  by (induction k) (simp_all add: on_hold_timer_def)

lemma run_steady: "fs_state f = Established \<Longrightarrow> list_all steady post \<Longrightarrow> foldl fsm_step f post = f"
proof (induction post)
  case (Cons i post)
  then have "fsm_step f i = f" by (cases i rule: steady.cases) (auto simp: on_keepalive_def on_update_def)
  with Cons show ?case by simp
qed simp

text \<open>C9: Exactly when a session is established: the inputs since the machine was last idle or connecting are
  the connection, hold timers that fell on nothing, an acceptable OPEN, a KEEPALIVE, and after it only
  KEEPALIVE, UPDATE and ROUTE-REFRESH messages; the hold time is then the one both sides' offers agree on.\<close>

theorem established_iff:
  "fs_state (foldl fsm_step (fsm_new l) is) = Established \<and> fs_negotiated_hold (foldl fsm_step (fsm_new l) is) = h \<longleftrightarrow>
     (\<exists>pre k m post. is = pre @ TcpUp # replicate k HoldTimer @ Receive (OpenM m) # Receive Keepalive # post
       \<and> ready (foldl fsm_step (fsm_new l) pre) \<and> acceptable l m \<and> list_all steady post
       \<and> h = agreed_hold (lc_hold_time l) (om_hold_time m))"
proof
  assume "fs_state (foldl fsm_step (fsm_new l) is) = Established \<and> fs_negotiated_hold (foldl fsm_step (fsm_new l) is) = h"
  then show "\<exists>pre k m post. is = pre @ TcpUp # replicate k HoldTimer @ Receive (OpenM m) # Receive Keepalive # post
       \<and> ready (foldl fsm_step (fsm_new l) pre) \<and> acceptable l m \<and> list_all steady post
       \<and> h = agreed_hold (lc_hold_time l) (om_hold_time m)"
    using Established_trace [of "fsm_new l" "is"] by (auto simp: fsm_new_def)
next
  assume "\<exists>pre k m post. is = pre @ TcpUp # replicate k HoldTimer @ Receive (OpenM m) # Receive Keepalive # post
       \<and> ready (foldl fsm_step (fsm_new l) pre) \<and> acceptable l m \<and> list_all steady post
       \<and> h = agreed_hold (lc_hold_time l) (om_hold_time m)"
  then obtain pre k m post where "is": "is = pre @ TcpUp # replicate k HoldTimer @ Receive (OpenM m) # Receive Keepalive # post"
    and p: "ready (foldl fsm_step (fsm_new l) pre)" "acceptable l m" "list_all steady post" "h = agreed_hold (lc_hold_time l) (om_hold_time m)"
    by blast
  let ?f = "fsm_step (foldl fsm_step (fsm_new l) pre) TcpUp"
  have f: "fs_state ?f = OpenSent" "fs_local ?f = l" using p(1) by (auto simp: on_tcp_established_def) (simp_all add: fsm_new_def)
  then have "foldl fsm_step ?f (replicate k HoldTimer) = ?f" by (intro run_hold_timers)
  with f p(2-4) show "fs_state (foldl fsm_step (fsm_new l) is) = Established \<and> fs_negotiated_hold (foldl fsm_step (fsm_new l) is) = h"
    unfolding "is" by (simp del: fsm_step.simps(2) add: on_open_acceptable on_keepalive_def run_steady)
qed

end
