(* ===== verification/Bgp_Session.thy ===== *)
theory Bgp_Session
  imports Bgp_Rib Bgp_Fsm
begin

text \<open>
  The BGP part of the peer driver (\<open>rill-dn42/src/session/mod.rs\<close>): one round of \<open>session_round\<close> over the
  state machine, the frame reader, the policy and the table. The user-space TCP socket and the tunnel are not
  part of the source: what the driver observes of the socket in a tick (its state, the reads it returns and
  whether it takes bytes) is the tick's argument, and what the driver does to it (abort, bytes sent) is
  recorded in the state. Instants are milliseconds.
\<close>

unbundle bit_operations_syntax

section \<open>Model\<close>

record bgp_session_config =
  sc_local_as :: u32
  sc_bgp_id :: "byte list"
  sc_peer_as :: u32
  sc_hold_time :: u16
  sc_own_prefixes :: "prefix list"
  sc_whitelist :: "prefix list"
  sc_max_prefixes :: "u32 option"

record peer_config =
  pc_name :: string
  pc_local_v4 :: "byte list"
  pc_local_v6 :: "byte list"
  pc_bgp :: bgp_session_config

datatype route_event = SessionUp | SessionDown | Changes "route_change list"

datatype destiny = Netstack "byte list" | Data "byte list"

definition classify :: "byte list \<Rightarrow> byte list \<Rightarrow> byte list \<Rightarrow> destiny option" where
  "classify pkt local_v4 local_v6 =
     (case pkt of
        [] \<Rightarrow> None
      | v # _ \<Rightarrow>
          if drop_bit 4 v = 4 \<and> 20 \<le> length pkt
          then Some (if slice 16 20 pkt = local_v4 then Netstack pkt else Data pkt)
          else if drop_bit 4 v = 6 \<and> 40 \<le> length pkt
          then Some (if slice 24 40 pkt = local_v6 then Netstack pkt else Data pkt)
          else None)"

definition queue_action :: "byte list \<Rightarrow> action \<Rightarrow> byte list" where
  "queue_action out act =
     (case act of
        Send msg \<Rightarrow> (case encode msg [] of (Ok _, buf) \<Rightarrow> out @ buf | _ \<Rightarrow> out)
      | Close \<Rightarrow> out)"

definition export_messages :: "peer_config \<Rightarrow> message list" where
  "export_messages cfg =
     (let own = sc_own_prefixes (pc_bgp cfg);
          v4 = filter pv4 own;
          v6 = filter (\<lambda>p. \<not> pv4 p) own;
          as_path = [\<lparr>seg_set = False, seg_asns = [sc_local_as (pc_bgp cfg)]\<rparr>]
      in (if v4 \<noteq> [] then
            [UpdateM \<lparr>um_withdrawn = [], um_attrs = [Origin 0, AsPath as_path, NextHop (pc_local_v4 cfg)], um_announced = v4\<rparr>]
          else [])
       @ (if v6 \<noteq> [] then
            [UpdateM \<lparr>um_withdrawn = [], um_attrs = [Origin 0, AsPath as_path, MpReach 2 1 (V6 (pc_local_v6 cfg)) v6], um_announced = []\<rparr>]
          else [])
       @ [UpdateM \<lparr>um_withdrawn = [], um_attrs = [], um_announced = []\<rparr>])"

text \<open>The locals of \<open>session_round\<close>; \<open>br_aborted\<close> says that the socket was aborted since the tick began,
  \<open>br_sent\<close> holds the bytes given to the socket and \<open>br_events\<close> those sent to the runtime.\<close>

record bgp_round =
  br_fsm :: bgp_fsm
  br_policy :: import_policy
  br_rib :: loc_rib
  br_reader :: frame_reader
  br_out :: "byte list"
  br_was_established :: bool
  br_ever_established :: bool
  br_open_sent :: bool
  br_last_rx :: nat
  br_last_keepalive :: nat
  br_started :: nat
  br_aborted :: bool
  br_sent :: "byte list"
  br_events :: "route_event list"

definition round_new :: "peer_config \<Rightarrow> nat \<Rightarrow> bgp_round" where
  "round_new cfg now =
     \<lparr>br_fsm = fsm_new \<lparr>lc_as4 = sc_local_as (pc_bgp cfg), lc_bgp_id = sc_bgp_id (pc_bgp cfg),
                        lc_hold_time = sc_hold_time (pc_bgp cfg), lc_peer_as4 = Some (sc_peer_as (pc_bgp cfg))\<rparr>,
      br_policy = import_policy_new (sc_whitelist (pc_bgp cfg)) None (sc_local_as (pc_bgp cfg)) (sc_max_prefixes (pc_bgp cfg)),
      br_rib = loc_rib_new, br_reader = \<lparr>fr_buf = []\<rparr>, br_out = [],
      br_was_established = False, br_ever_established = False, br_open_sent = False,
      br_last_rx = now, br_last_keepalive = now, br_started = now,
      br_aborted = False, br_sent = [], br_events = []\<rparr>"

text \<open>The table side of a message that arrives while established.\<close>

definition apply_update :: "peer_config \<Rightarrow> update_msg \<Rightarrow> bgp_round \<Rightarrow> bgp_round" where
  "apply_update cfg u s =
     (case rib_apply (pc_name cfg) u (br_rib s) (br_policy s) of (r, pol, out) \<Rightarrow>
        let s = s\<lparr>br_rib := r, br_policy := pol\<rparr>;
            s = (if ao_changes out \<noteq> [] then s\<lparr>br_events := br_events s @ [Changes (ao_changes out)]\<rparr> else s)
        in if ao_max_prefix_exceeded out then
             case notify_max_prefix (br_fsm s) of (acts, f) \<Rightarrow>
               s\<lparr>br_fsm := f, br_out := foldl queue_action (br_out s) acts\<rparr>
           else s)"

text \<open>One received message: the body of the \<open>for msg in msgs\<close> loop.\<close>

definition session_message :: "peer_config \<Rightarrow> bgp_round \<Rightarrow> message \<Rightarrow> bgp_round" where
  "session_message cfg s msg =
     (let established_before = (fs_state (br_fsm s) = Established);
          s = (case msg of UpdateM u \<Rightarrow> if established_before then apply_update cfg u s else s | _ \<Rightarrow> s);
          resend = ((case msg of RouteRefreshM _ \<Rightarrow> True | _ \<Rightarrow> False) \<and> established_before)
      in case on_message (br_fsm s) msg of (acts, f) \<Rightarrow>
           let s = s\<lparr>br_fsm := f, br_out := foldl queue_action (br_out s) acts,
                     br_aborted := br_aborted s \<or> Close \<in> set acts\<rparr>
           in if resend then s\<lparr>br_out := foldl queue_action (br_out s) (map Send (export_messages cfg))\<rparr> else s)"

text \<open>The reads of one tick: a stream error aborts the socket and ends them.\<close>

fun session_reads :: "peer_config \<Rightarrow> nat \<Rightarrow> byte list list \<Rightarrow> bgp_round \<Rightarrow> (unit, bgp_round) outcome" where
  "session_reads cfg now [] s = Ok s"
| "session_reads cfg now (data # reads) s =
     (if data = [] then Ok s
      else case feed (br_reader s) data [] of
        (Panic, _) \<Rightarrow> Panic
      | (Err _, reader, _) \<Rightarrow> Ok (s\<lparr>br_last_rx := now, br_reader := reader, br_aborted := True\<rparr>)
      | (Ok _, reader, msgs) \<Rightarrow>
          session_reads cfg now reads
            (foldl (session_message cfg) (s\<lparr>br_last_rx := now, br_reader := reader\<rparr>) msgs))"

datatype tcp_view = TcpEstablished "byte list list" bool | TcpIsClosed | TcpOther

definition send_open :: "bgp_round \<Rightarrow> bgp_round" where
  "send_open s =
     (if br_open_sent s then s
      else case on_tcp_established (br_fsm s) of (acts, f) \<Rightarrow>
        s\<lparr>br_open_sent := True, br_fsm := f, br_out := foldl queue_action (br_out s) acts\<rparr>)"

definition flush :: "bool \<Rightarrow> bgp_round \<Rightarrow> bgp_round" where
  "flush can_send s =
     (if \<not> br_aborted s \<and> can_send \<and> br_out s \<noteq> [] then s\<lparr>br_sent := br_sent s @ br_out s, br_out := []\<rparr> else s)"

definition note_established :: "peer_config \<Rightarrow> bgp_round \<Rightarrow> bgp_round" where
  "note_established cfg s =
     (if fs_state (br_fsm s) = Established \<and> \<not> br_was_established s then
        s\<lparr>br_was_established := True, br_ever_established := True,
          br_out := foldl queue_action (br_out s) (map Send (export_messages cfg)),
          br_events := br_events s @ [SessionUp]\<rparr>
      else s)"

definition poll_tick :: "peer_config \<Rightarrow> nat \<Rightarrow> tcp_view \<Rightarrow> bgp_round \<Rightarrow> (unit, bgp_round) outcome" where
  "poll_tick cfg now tcp s =
     (case tcp of
        TcpEstablished reads can_send \<Rightarrow>
          obind (session_reads cfg now reads (send_open (s\<lparr>br_aborted := False\<rparr>))) (\<lambda>s.
            Ok (note_established cfg (flush can_send s)))
      | TcpIsClosed \<Rightarrow> Ok (note_established cfg (s\<lparr>br_open_sent := False\<rparr>))
      | TcpOther \<Rightarrow> Ok (note_established cfg s))"

definition bgp_timers :: "nat \<Rightarrow> bgp_round \<Rightarrow> bgp_round" where
  "bgp_timers now s =
     (if fs_state (br_fsm s) = Established then
        let s = (case keepalive_interval (br_fsm s) of
                   Some interval \<Rightarrow>
                     if 1000 * interval \<le> now - br_last_keepalive s
                     then s\<lparr>br_out := queue_action (br_out s) (Send Keepalive), br_last_keepalive := now\<rparr>
                     else s
                 | None \<Rightarrow> s)
        in if 0 < fs_negotiated_hold (br_fsm s) \<and> 1000 * unat (fs_negotiated_hold (br_fsm s)) \<le> now - br_last_rx s
           then case on_hold_timer (br_fsm s) of (acts, f) \<Rightarrow>
             s\<lparr>br_fsm := f, br_out := foldl queue_action (br_out s) acts\<rparr>
           else s
      else s)"

text \<open>What an arm of the loop leads to: the next turn, or the round's return value.\<close>

datatype turn = Continue bgp_round | Return bool bgp_round

definition slow_tick :: "nat \<Rightarrow> bgp_round \<Rightarrow> turn" where
  "slow_tick now s =
     (if \<not> br_was_established s \<and> 90000 \<le> now - br_started s then Return (br_ever_established s) s
      else Continue (bgp_timers now s))"

text \<open>The check after every turn, with the order in which the table's keys are visited.\<close>

definition end_of_turn :: "pfx_key list \<Rightarrow> peer_config \<Rightarrow> bgp_round \<Rightarrow> (unit, turn) outcome" where
  "end_of_turn ks cfg s =
     (if fs_state (br_fsm s) = Idle \<and> br_was_established s then
        obind (purge_peer ks (pc_name cfg) (br_rib s) (br_policy s)) (\<lambda>(r, pol, changes).
          Ok (Return (br_ever_established s)
                (s\<lparr>br_rib := r, br_policy := pol, br_events := br_events s @ [Changes changes, SessionDown]\<rparr>)))
      else Ok (Continue s))"

datatype round_input = Poll nat tcp_view "pfx_key list" | Slow nat "pfx_key list"

fun round_turn :: "peer_config \<Rightarrow> bgp_round \<Rightarrow> round_input \<Rightarrow> (unit, turn) outcome" where
  "round_turn cfg s (Poll now tcp ks) = obind (poll_tick cfg now tcp s) (end_of_turn ks cfg)"
| "round_turn cfg s (Slow now ks) =
     (case slow_tick now s of Return b s \<Rightarrow> Ok (Return b s) | Continue s \<Rightarrow> end_of_turn ks cfg s)"

fun session_round :: "peer_config \<Rightarrow> bgp_round \<Rightarrow> round_input list \<Rightarrow> (unit, turn) outcome" where
  "session_round cfg s [] = Ok (Continue s)"
| "session_round cfg s (i # is) =
     obind (round_turn cfg s i) (\<lambda>t. case t of Continue s \<Rightarrow> session_round cfg s is | Return b s \<Rightarrow> Ok (Return b s))"

text \<open>The sleep before the next round and the one after it, in seconds.\<close>

definition backoff_step :: "bool \<Rightarrow> nat \<Rightarrow> nat \<times> nat" where
  "backoff_step established backoff =
     (let backoff = (if established then 1 else backoff) in (backoff, min (backoff * 2) 30))"

section \<open>Routes live as long as the session\<close>

text \<open>The routes the runtime holds after the events so far.\<close>

fun event_view :: "(prefix \<rightharpoonup> bgp_path) \<Rightarrow> route_event \<Rightarrow> (prefix \<rightharpoonup> bgp_path)" where
  "event_view v (Changes cs) = foldl replay v cs"
| "event_view v _ = v"

definition held_routes :: "bgp_round \<Rightarrow> (prefix \<rightharpoonup> bgp_path)" where
  "held_routes s = foldl event_view Map.empty (br_events s)"

definition round_inv :: "peer_config \<Rightarrow> bgp_round \<Rightarrow> bool" where
  "round_inv cfg s \<longleftrightarrow> rib_ok (br_rib s) \<and> only_peer (pc_name cfg) (br_rib s) \<and> held_routes s = best (br_rib s)"

text \<open>The decoder makes canonical prefixes only.\<close>

lemma read_nlris_ok: "read_nlris v4 bs = Ok ps \<Longrightarrow> list_all prefix_ok ps"
proof (induction bs arbitrary: ps rule: length_induct)
  case (1 bs)
  show ?case
  proof (cases "bs = []")
    case True
    with 1(2) show ?thesis by (simp add: read_nlris.simps)
  next
    case False
    with 1(2) obtain p rest where p: "prefix_new (slice 1 (1 + prefix_octets (bs ! 0)) bs @ replicate (16 - prefix_octets (bs ! 0)) 0) (bs ! 0) v4 = Some p"
      "read_nlris v4 (drop (1 + prefix_octets (bs ! 0)) bs) = Ok rest" "ps = p # rest"
      by (subst (asm) read_nlris.simps) (auto simp: Let_def outcome_simps split: if_splits option.splits)
    have "length (drop (1 + prefix_octets (bs ! 0)) bs) < length bs" using False by simp
    with 1(1) p(2) have "list_all prefix_ok rest" by blast
    with p prefix_new_ok [OF p(1)] show ?thesis by simp
  qed
qed

abbreviation attr_prefixes_ok :: "path_attr \<Rightarrow> bool" where
  "attr_prefixes_ok a \<equiv> (case a of MpReach _ _ _ nlri \<Rightarrow> list_all prefix_ok nlri
     | MpUnreach _ _ nlri \<Rightarrow> list_all prefix_ok nlri | _ \<Rightarrow> True)"

lemma decode_attr_ok:
  "decode_attr ty opt v acc = Ok acc' \<Longrightarrow> list_all attr_prefixes_ok (fst acc) \<Longrightarrow> list_all attr_prefixes_ok (fst acc')"
  by (auto simp: decode_attr_def decode_mp_reach_def decode_mp_unreach_def Let_def outcome_simps
      dest: read_nlris_ok split: if_splits prod.splits)

lemma attrs_loop_ok:
  "attrs_loop bs acc = Ok acc' \<Longrightarrow> list_all attr_prefixes_ok (fst acc) \<Longrightarrow> list_all attr_prefixes_ok (fst acc')"
proof (induction bs arbitrary: acc rule: length_induct)
  case (1 bs)
  show ?case
  proof (cases "bs = []")
    case True
    with 1(2,3) show ?thesis by (simp add: attrs_loop.simps)
  next
    case False
    with 1(2) obtain ty opt v acc1 n where a: "decode_attr ty opt v acc = Ok acc1" "attrs_loop (drop n bs) acc1 = Ok acc'" "0 < n"
      by (subst (asm) attrs_loop.simps) (auto simp: Let_def split: if_splits outcome.splits)
    then have "length (drop n bs) < length bs" using False by simp
    with 1(1) a(2) decode_attr_ok [OF a(1) 1(3)] show ?thesis by blast
  qed
qed

lemma decode_update_ok:
  assumes "decode bs = Ok (UpdateM u)"
  shows "update_ok u"
proof -
  have "decode_update b = Ok (UpdateM u) \<Longrightarrow> update_ok u" for b
    unfolding decode_update_def decode_attrs_def
    by (auto simp: Let_def outcome_simps update_ok_def dest: read_nlris_ok attrs_loop_ok split: if_splits prod.splits)
  with assms show ?thesis by (auto simp: decode_def decode_open_def Let_def outcome_simps split: if_splits)
qed

abbreviation message_prefixes_ok :: "message \<Rightarrow> bool" where
  "message_prefixes_ok m \<equiv> (case m of UpdateM u \<Rightarrow> update_ok u | _ \<Rightarrow> True)"

lemma feed_loop_prefixes_ok:
  "feed_loop bs out = (e, rest, msgs) \<Longrightarrow> list_all message_prefixes_ok out \<Longrightarrow> list_all message_prefixes_ok msgs"
proof (induction bs arbitrary: out rule: length_induct)
  case (1 bs)
  from 1(2) [unfolded feed_loop.simps [of bs out]] consider "msgs = out"
    | n m where "19 \<le> n" "n \<le> length bs" "decode (take n bs) = Ok m" "feed_loop (drop n bs) (out @ [m]) = (e, rest, msgs)"
    by (auto simp: Let_def not_less split: if_splits outcome.splits)
  then show ?case
  proof cases
    case 2
    then have "length (drop n bs) < length bs" "list_all message_prefixes_ok (out @ [m])"
      using 1(3) decode_update_ok by (auto split: message.split)
    with 1(1) 2(4) show ?thesis by blast
  qed (use 1(3) in simp)
qed

lemma held_routes_append: "foldl event_view v (es @ [Changes cs]) = foldl replay (foldl event_view v es) cs"
  by simp

lemma round_inv_cong:
  "br_rib s' = br_rib s \<Longrightarrow> br_events s' = br_events s \<Longrightarrow> round_inv cfg s' = round_inv cfg s"
  by (simp add: round_inv_def held_routes_def)

lemma apply_update_inv:
  assumes "round_inv cfg s" and "update_ok u"
  shows "round_inv cfg (apply_update cfg u s)"
proof -
  obtain r pol out where a: "rib_apply (pc_name cfg) u (br_rib s) (br_policy s) = (r, pol, out)"
    by (cases "rib_apply (pc_name cfg) u (br_rib s) (br_policy s)")
  have r: "rib_ok r" "foldl replay (best (br_rib s)) (ao_changes out) = best r" "only_peer (pc_name cfg) r"
    using assms rib_apply_tracks [of "br_rib s" u "pc_name cfg" "br_policy s"] rib_apply_only a by (auto simp: round_inv_def)
  let ?s = "s\<lparr>br_rib := r, br_policy := pol, br_events := br_events s @ (if ao_changes out \<noteq> [] then [Changes (ao_changes out)] else [])\<rparr>"
  have "round_inv cfg ?s" using assms(1) r by (auto simp: round_inv_def held_routes_def)
  then show ?thesis
    by (subst round_inv_cong [of _ ?s]) (simp_all add: apply_update_def a Let_def split: prod.split)
qed

lemma session_message_inv:
  assumes "round_inv cfg s" and "message_prefixes_ok m"
  shows "round_inv cfg (session_message cfg s m)"
proof -
  let ?s = "case m of UpdateM u \<Rightarrow> if fs_state (br_fsm s) = Established then apply_update cfg u s else s | _ \<Rightarrow> s"
  have "round_inv cfg ?s" using assms apply_update_inv by (auto split: message.split)
  then show ?thesis
    by (subst round_inv_cong [of _ ?s]) (simp_all add: session_message_def Let_def split: prod.split)
qed

lemma session_messages_inv:
  "round_inv cfg s \<Longrightarrow> list_all message_prefixes_ok ms \<Longrightarrow> round_inv cfg (foldl (session_message cfg) s ms)"
  by (induction ms arbitrary: s) (simp_all add: session_message_inv)

lemma session_reads_inv:
  "round_inv cfg s \<Longrightarrow> session_reads cfg now reads s = Ok s' \<Longrightarrow> round_inv cfg s'"
proof (induction reads arbitrary: s)
  case (Cons data reads)
  obtain e rest msgs where f: "feed_loop (fr_buf (br_reader s) @ data) [] = (e, rest, msgs)"
    by (cases "feed_loop (fr_buf (br_reader s) @ data) []")
  have "list_all message_prefixes_ok msgs" using feed_loop_prefixes_ok [OF f] by simp
  then have "round_inv cfg (foldl (session_message cfg) (s\<lparr>br_last_rx := now, br_reader := (br_reader s)\<lparr>fr_buf := rest\<rparr>\<rparr>) msgs)"
    using Cons.prems(1) by (intro session_messages_inv) (simp_all cong: round_inv_cong)
  moreover have "round_inv cfg (s\<lparr>br_last_rx := now, br_reader := (br_reader s)\<lparr>fr_buf := rest\<rparr>, br_aborted := True\<rparr>)"
    using Cons.prems(1) by (subst round_inv_cong [of _ s]) simp_all
  ultimately show ?case
    using Cons.prems Cons.IH f by (auto simp: feed_def split: if_splits outcome.splits)
qed simp

lemma poll_tick_inv:
  assumes "round_inv cfg s" and "poll_tick cfg now tcp s = Ok s'"
  shows "round_inv cfg s'"
proof -
  have same: "round_inv cfg (send_open (s\<lparr>br_aborted := False\<rparr>))" "round_inv cfg (s\<lparr>br_open_sent := False\<rparr>)"
    using assms(1) by (subst round_inv_cong [of _ s]; simp add: send_open_def split: prod.split)+
  have flush: "round_inv cfg (flush b t) = round_inv cfg t" for b t
    by (rule round_inv_cong) (simp_all add: flush_def)
  have up: "round_inv cfg (note_established cfg t) = round_inv cfg t" for t
    by (simp add: round_inv_def held_routes_def note_established_def)
  show ?thesis
    using assms session_reads_inv [OF same(1)] same(2)
    by (auto simp: poll_tick_def outcome_simps flush up split: tcp_view.splits)
qed

text \<open>The key lists of the inputs are the keys of the table they meet, in some order.\<close>

fun keys_fit :: "peer_config \<Rightarrow> bgp_round \<Rightarrow> round_input \<Rightarrow> bool" where
  "keys_fit cfg s (Poll now tcp ks) \<longleftrightarrow>
     (case poll_tick cfg now tcp s of Ok s \<Rightarrow> set ks = dom (lr_entries (br_rib s)) | _ \<Rightarrow> True)"
| "keys_fit cfg s (Slow now ks) \<longleftrightarrow> set ks = dom (lr_entries (br_rib s))"

fun inputs_fit :: "peer_config \<Rightarrow> bgp_round \<Rightarrow> round_input list \<Rightarrow> bool" where
  "inputs_fit cfg s [] \<longleftrightarrow> True"
| "inputs_fit cfg s (i # is) \<longleftrightarrow>
     keys_fit cfg s i \<and> (case round_turn cfg s i of Ok (Continue s) \<Rightarrow> inputs_fit cfg s is | _ \<Rightarrow> True)"

text \<open>What a turn leaves behind.\<close>

fun turn_inv :: "peer_config \<Rightarrow> turn \<Rightarrow> bool" where
  "turn_inv cfg (Continue s) \<longleftrightarrow> round_inv cfg s"
| "turn_inv cfg (Return b s) \<longleftrightarrow> round_inv cfg s
     \<and> (br_was_established s \<longrightarrow> held_routes s = Map.empty \<and> last (br_events s) = SessionDown)"

lemma end_of_turn_inv:
  assumes "round_inv cfg s" and "set ks = dom (lr_entries (br_rib s))"
  shows "\<exists>t. end_of_turn ks cfg s = Ok t \<and> turn_inv cfg t"
proof (cases "fs_state (br_fsm s) = Idle \<and> br_was_established s")
  case True
  have "rib_ok (br_rib s)" using assms(1) by (simp add: round_inv_def)
  then obtain r pol cs where p: "purge_peer ks (pc_name cfg) (br_rib s) (br_policy s) = Ok (r, pol, cs)" "rib_ok r"
    "foldl replay (best (br_rib s)) cs = best r" "only_peer (pc_name cfg) (br_rib s) \<longrightarrow> only_peer (pc_name cfg) r \<and> best r = Map.empty"
    by (rule purge_peer_Ok [OF _ assms(2)])
  then show ?thesis using True assms(1) by (auto simp: end_of_turn_def round_inv_def held_routes_def)
next
  case False
  then show ?thesis using assms(1) by (auto simp: end_of_turn_def)
qed

lemma bgp_timers_inv: "round_inv cfg (bgp_timers now s) = round_inv cfg s" "br_rib (bgp_timers now s) = br_rib s"
  by (auto simp: bgp_timers_def Let_def intro!: round_inv_cong split: option.split prod.split)

lemma round_turn_inv:
  assumes "round_inv cfg s" and "keys_fit cfg s i" and "round_turn cfg s i = Ok t"
  shows "turn_inv cfg t"
proof (cases i)
  case (Poll now tcp ks)
  then obtain s1 where "poll_tick cfg now tcp s = Ok s1" "end_of_turn ks cfg s1 = Ok t"
    using assms(3) by (auto simp: outcome_simps)
  with end_of_turn_inv [OF poll_tick_inv [OF assms(1)]] assms(2) Poll show ?thesis by fastforce
next
  case (Slow now ks)
  with end_of_turn_inv [of cfg "bgp_timers now s" ks] assms show ?thesis
    by (auto simp: slow_tick_def bgp_timers_inv split: if_splits)
qed

lemma session_round_inv:
  "round_inv cfg s \<Longrightarrow> inputs_fit cfg s is \<Longrightarrow> session_round cfg s is = Ok t \<Longrightarrow> turn_inv cfg t"
proof (induction "is" arbitrary: s)
  case (Cons i "is")
  then obtain t1 where t1: "round_turn cfg s i = Ok t1" by (auto simp: outcome_simps)
  then have "turn_inv cfg t1" using Cons.prems by (intro round_turn_inv) auto
  with t1 Cons show ?case by (cases t1) auto
qed auto

lemma round_new_inv: "round_inv cfg (round_new cfg now)"
  using new_rib_ok by (auto simp: round_inv_def round_new_def held_routes_def only_peer_def loc_rib_new_def best_def)


lemma session_message_open:
  "fs_state (br_fsm s) = OpenSent \<Longrightarrow> acceptable (fs_local (br_fsm s)) m \<Longrightarrow>
     session_message cfg s (OpenM m) = s\<lparr>br_fsm := (br_fsm s)\<lparr>
         fs_negotiated_hold := agreed_hold (lc_hold_time (fs_local (br_fsm s))) (om_hold_time m), fs_state := OpenConfirm\<rparr>,
       br_out := queue_action (br_out s) (Send Keepalive)\<rparr>"
  by (simp add: session_message_def on_open_acceptable)

lemma session_message_keepalive:
  "fs_state (br_fsm s) = OpenConfirm \<Longrightarrow> session_message cfg s Keepalive = s\<lparr>br_fsm := (br_fsm s)\<lparr>fs_state := Established\<rparr>\<rparr>"
  by (simp add: session_message_def on_keepalive_def)

lemma session_message_update:
  "fs_state (br_fsm s) = Established \<Longrightarrow> rib_apply (pc_name cfg) u (br_rib s) (br_policy s) = (r, pol, out) \<Longrightarrow>
   \<not> ao_max_prefix_exceeded out \<Longrightarrow>
     session_message cfg s (UpdateM u) = s\<lparr>br_rib := r, br_policy := pol,
       br_events := br_events s @ (if ao_changes out \<noteq> [] then [Changes (ao_changes out)] else [])\<rparr>"
  by (simp add: session_message_def apply_update_def on_update_def Let_def)

lemma session_message_notification:
  "session_message cfg s (NotificationM n) = s\<lparr>br_fsm := (br_fsm s)\<lparr>fs_state := Idle\<rparr>, br_aborted := True\<rparr>"
  by (simp add: session_message_def queue_action_def)

text \<open>A session that comes up and is closed by the peer within one read was never reported up, so nothing
  withdraws the routes it announced: the round gives up after 90 seconds without a \<open>SessionDown\<close>, and the
  runtime keeps every route of the UPDATE.\<close>

theorem short_session_keeps_routes:
  assumes s: "fs_state (br_fsm s) = OpenConfirm" "\<not> br_was_established s" "br_open_sent s"
    and f: "feed (br_reader s) data [] = (Ok (), reader, [Keepalive, UpdateM u, NotificationM n])"
    and a: "rib_apply (pc_name cfg) u (br_rib s) (br_policy s) = (r, pol, out)" "\<not> ao_max_prefix_exceeded out"
    and d: "data \<noteq> []" "br_started s + 90000 \<le> late"
  shows "\<exists>s'. session_round cfg s [Poll now (TcpEstablished [data] can_send) ks, Slow late ks'] = Ok (Return (br_ever_established s) s')
    \<and> held_routes s' = foldl replay (held_routes s) (ao_changes out)
    \<and> SessionDown \<notin> set (drop (length (br_events s)) (br_events s'))"
proof -
  have late: "90000 \<le> late - br_started s" using d(2) by simp
  let ?ev = "br_events s @ (if ao_changes out \<noteq> [] then [Changes (ao_changes out)] else [])"
  let ?s1 = "s\<lparr>br_aborted := True, br_last_rx := now, br_reader := reader, br_fsm := (br_fsm s)\<lparr>fs_state := Idle\<rparr>,
    br_rib := r, br_policy := pol, br_events := ?ev\<rparr>"
  have "foldl (session_message cfg) (s\<lparr>br_aborted := False, br_last_rx := now, br_reader := reader\<rparr>)
      [Keepalive, UpdateM u, NotificationM n] = ?s1"
    using s a by (simp add: session_message_keepalive session_message_update session_message_notification)
  then have "session_reads cfg now [data] (send_open (s\<lparr>br_aborted := False\<rparr>)) = Ok ?s1"
    using s(3) f d(1) by (simp add: send_open_def)
  then have "poll_tick cfg now (TcpEstablished [data] can_send) s = Ok ?s1"
    using s(2) by (simp add: poll_tick_def flush_def note_established_def)
  then have "session_round cfg s [Poll now (TcpEstablished [data] can_send) ks, Slow late ks'] = Ok (Return (br_ever_established s) ?s1)"
    using s(2) late by (simp add: end_of_turn_def slow_tick_def)
  then show ?thesis by (intro exI [of _ ?s1]) (simp add: held_routes_def)
qed

section \<open>Two speakers\<close>

definition wire :: "action list \<Rightarrow> byte list" where
  "wire acts = foldl queue_action [] acts"

definition receive :: "bgp_fsm \<Rightarrow> byte list \<Rightarrow> action list \<times> bgp_fsm" where
  "receive f data =
     (case feed \<lparr>fr_buf = []\<rparr> data [] of
        (Ok _, _, msgs) \<Rightarrow>
          foldl (\<lambda>s m. case on_message (snd s) m of (acts, f) \<Rightarrow> (fst s @ acts, f)) ([], f) msgs
      | _ \<Rightarrow> ([], f))"

definition accepts_peer :: "local_config \<Rightarrow> local_config \<Rightarrow> bool" where
  "accepts_peer a b \<longleftrightarrow>
     (lc_hold_time b = 0 \<or> 3 \<le> lc_hold_time b) \<and> (lc_peer_as4 a = None \<or> lc_peer_as4 a = Some (lc_as4 b))
     \<and> length (lc_bgp_id b) = 4 \<and> lc_bgp_id b \<noteq> [0, 0, 0, 0]"

lemma accepts_peer_acceptable: "accepts_peer a b \<Longrightarrow> acceptable a (own_open b)"
  by (auto simp: accepts_peer_def acceptable_def own_open_def)

text \<open>A message sent alone arrives as itself.\<close>

lemma wire_one:
  assumes "message_ok m" and "fst (encode m []) = Ok ()" and "norm_message m = m"
  shows "feed \<lparr>fr_buf = []\<rparr> (wire [Send m]) [] = (Ok (), \<lparr>fr_buf = []\<rparr>, [m])"
proof -
  obtain frame where e: "encode m [] = (Ok (), frame)" using assms(2) by (cases "encode m []") auto
  then have "feed_loop (frame @ []) [] = (Ok (), [], [m])"
    using feed_loop_frame [OF assms(1) e, of "[]" "[]"] assms(3) by (simp add: feed_loop.simps)
  then show ?thesis using e by (simp add: wire_def queue_action_def feed_def)
qed

lemma own_open_wire:
  assumes "length (lc_bgp_id l) = 4"
  shows "message_ok (OpenM (own_open l))" "fst (encode (OpenM (own_open l)) []) = Ok ()"
  using assms by (simp_all add: own_open_def encode_def Let_def)

lemma receive_one:
  assumes "message_ok m" "fst (encode m []) = Ok ()" "norm_message m = m"
  shows "receive f (wire [Send m]) = on_message f m"
  by (simp add: receive_def wire_one [OF assms] split: prod.split)

lemma receive_keepalive: "receive f (wire [Send Keepalive]) = on_keepalive f"
  by (simp add: receive_one encode_def Let_def)

text \<open>C17: Two state machines that accept each other's configuration, connected back to back through the encoder
  and the frame reader, both become established, with the same hold time, after they exchanged an OPEN and a
  KEEPALIVE each.\<close>

theorem two_speakers_establish:
  assumes "ready a" "ready b" and "accepts_peer (fs_local a) (fs_local b)" "accepts_peer (fs_local b) (fs_local a)"
  shows "\<exists>open_a open_b ka kb a1 b1 a2 b2 a3 b3.
     on_tcp_established a = (open_a, a1) \<and> on_tcp_established b = (open_b, b1)
   \<and> receive a1 (wire open_b) = (ka, a2) \<and> receive b1 (wire open_a) = (kb, b2)
   \<and> receive a2 (wire kb) = ([], a3) \<and> receive b2 (wire ka) = ([], b3)
   \<and> fs_state a3 = Established \<and> fs_state b3 = Established
   \<and> fs_negotiated_hold a3 = agreed_hold (lc_hold_time (fs_local a)) (lc_hold_time (fs_local b))
   \<and> fs_negotiated_hold b3 = fs_negotiated_hold a3"
proof -
  have ids: "length (lc_bgp_id (fs_local a)) = 4" "length (lc_bgp_id (fs_local b)) = 4"
    using assms(3,4) by (simp_all add: accepts_peer_def)
  have step: "receive f (wire [Send (OpenM (own_open l))]) =
      ([Send Keepalive], f\<lparr>fs_negotiated_hold := agreed_hold (lc_hold_time (fs_local f)) (lc_hold_time l), fs_state := OpenConfirm\<rparr>)"
    if "fs_state f = OpenSent" "accepts_peer (fs_local f) l" "length (lc_bgp_id l) = 4" for f l
    using receive_one [OF own_open_wire, OF that(3,3)] on_open_acceptable [OF that(1) accepts_peer_acceptable [OF that(2)]]
    by (simp add: own_open_def)
  have "agreed_hold (lc_hold_time (fs_local b)) (lc_hold_time (fs_local a)) = agreed_hold (lc_hold_time (fs_local a)) (lc_hold_time (fs_local b))"
    by (auto simp: agreed_hold_def min.commute)
  then show ?thesis
    using assms ids by (simp add: on_tcp_established_def step receive_keepalive on_keepalive_def disj_commute)
qed

section \<open>Example sessions\<close>

definition ex_cfg :: peer_config where
  "ex_cfg = \<lparr>pc_name = ''a'', pc_local_v4 = [172, 20, 0, 2], pc_local_v6 = replicate 16 1,
     pc_bgp = \<lparr>sc_local_as = 4242420002, sc_bgp_id = [10, 0, 0, 2], sc_peer_as = 4242420001, sc_hold_time = 90,
       sc_own_prefixes = [], sc_whitelist = [ex_net8], sc_max_prefixes = Some 1\<rparr>\<rparr>"

definition ex_local :: local_config where
  "ex_local = \<lparr>lc_as4 = 4242420002, lc_bgp_id = [10, 0, 0, 2], lc_hold_time = 90, lc_peer_as4 = Some 4242420001\<rparr>"

definition ex_remote :: local_config where
  "ex_remote = \<lparr>lc_as4 = 4242420001, lc_bgp_id = [10, 0, 0, 1], lc_hold_time = 30, lc_peer_as4 = Some 4242420002\<rparr>"

lemma ex_accepts: "accepts_peer ex_local ex_remote" "accepts_peer ex_remote ex_local"
  by (simp_all add: accepts_peer_def ex_local_def ex_remote_def)

theorem two_speakers_establish_witness:
  "\<exists>open_a open_b ka kb a1 b1 a2 b2 a3 b3.
     on_tcp_established (fsm_new ex_local) = (open_a, a1) \<and> on_tcp_established (fsm_new ex_remote) = (open_b, b1)
   \<and> receive a1 (wire open_b) = (ka, a2) \<and> receive b1 (wire open_a) = (kb, b2)
   \<and> receive a2 (wire kb) = ([], a3) \<and> receive b2 (wire ka) = ([], b3)
   \<and> fs_state a3 = Established \<and> fs_state b3 = Established \<and> fs_negotiated_hold a3 = 30"
proof -
  have "agreed_hold (lc_hold_time ex_local) (lc_hold_time ex_remote) = 30"
    by (simp add: agreed_hold_def ex_local_def ex_remote_def)
  then show ?thesis
    using two_speakers_establish [of "fsm_new ex_local" "fsm_new ex_remote"] ex_accepts
    by (simp add: fsm_new_def) metis
qed

text \<open>The peer's OPEN, KEEPALIVE and NOTIFICATION in one read.\<close>

definition ex_messages :: "message list" where
  "ex_messages = [OpenM (own_open ex_remote), Keepalive]"

lemma feed_encoded:
  assumes "list_all message_ok ms" "encode_all ms [] = (Ok (), stream)" "map norm_message ms = ms"
  shows "feed \<lparr>fr_buf = []\<rparr> stream [] = (Ok (), \<lparr>fr_buf = []\<rparr>, ms)"
  using feed_loop_encode_all [OF assms(1,2)] assms(3) by (auto simp: feed_def feed_loop.simps [of "[]"] dest: spec [of _ "[]"])

lemma ex_stream:
  "\<exists>stream. encode_all [Keepalive, UpdateM ex_update, NotificationM \<lparr>nm_code = 6, nm_subcode = 0, nm_data = []\<rparr>] [] = (Ok (), stream)
     \<and> stream \<noteq> []"
  by (simp add: ex_update_def ex_net16_def encode_def write_attr_def attr_flags_def write_segments_def write_segment_def
      write_asn_def write_nlri_def prefix_octets_def Let_def)

theorem short_session_keeps_routes_witness:
  "\<exists>s data ks s'. session_round ex_cfg s [Poll 1000 (TcpEstablished [data] True) ks, Slow 90000 ks] = Ok (Return False s')
    \<and> held_routes s' = [ex_net16 \<mapsto> ex_path]"
proof -
  let ?s = "(round_new ex_cfg 0)\<lparr>br_fsm := (fsm_new ex_local)\<lparr>fs_state := OpenConfirm\<rparr>, br_open_sent := True, br_policy := ex_policy\<rparr>"
  let ?n = "\<lparr>nm_code = 6, nm_subcode = 0, nm_data = []\<rparr>"
  obtain stream where e: "encode_all [Keepalive, UpdateM ex_update, NotificationM ?n] [] = (Ok (), stream)" "stream \<noteq> []"
    using ex_stream by auto
  have "feed \<lparr>fr_buf = []\<rparr> stream [] = (Ok (), \<lparr>fr_buf = []\<rparr>, [Keepalive, UpdateM ex_update, NotificationM ?n])"
    using ex_nets_ok by (intro feed_encoded [OF _ e(1)]) (simp_all add: ex_update_def segment_ok_def norm_attrs_def)
  then have "\<exists>s'. session_round ex_cfg ?s [Poll 1000 (TcpEstablished [stream] True) [], Slow 90000 []] = Ok (Return False s')
      \<and> held_routes s' = [ex_net16 \<mapsto> ex_path]"
    using short_session_keeps_routes [of ?s stream "\<lparr>fr_buf = []\<rparr>" ex_update ?n ex_cfg ex_rib "ex_policy\<lparr>ip_accepted := 1\<rparr>"
      "\<lparr>ao_changes = [Learned ex_net16 ex_path], ao_rejected = [], ao_max_prefix_exceeded = False\<rparr>" 90000 1000 True "[]" "[]"]
      ex_apply e(2)
    by (auto simp: round_new_def ex_cfg_def held_routes_def)
  then show ?thesis by blast
qed


end
