(* ===== verification/Coord_Tables.thy ===== *)
theory Coord_Tables
  imports Registry "HOL-Library.List_Lexorder" "HOL-Library.Char_ord" "HOL-Library.Product_Lexorder"
begin

text \<open>
  The coordinator's tables of what nodes report: leases (\<open>rill-coord/src/liveness.rs\<close>), the endpoint directory
  (\<open>rill-coord/src/directory.rs\<close>) and the dynamic routes of external nodes (\<open>rill-coord/src/route_map.rs\<close>).
  Hash maps are maps; where the code iterates over one, the order of its keys is an argument.
\<close>

unbundle bit_operations_syntax

definition saturating_sub :: "u64 \<Rightarrow> u64 \<Rightarrow> u64" where
  "saturating_sub a b = (if a < b then 0 else a - b)"

lemma unat_saturating_sub [simp]: "unat (saturating_sub a b) = unat a - unat b"
  by (auto simp: saturating_sub_def word_less_nat_alt unat_sub_if_size not_less)

section \<open>Leases\<close>

record liveness =
  lv_last_seen :: "u32 \<rightharpoonup> u64"
  lv_offline :: "u32 list"

abbreviation (input) LEASE_EXPIRY_SECS :: u64 where "LEASE_EXPIRY_SECS \<equiv> 60"

definition liveness_new :: liveness where
  "liveness_new = \<lparr>lv_last_seen = Map.empty, lv_offline = []\<rparr>"

definition lv_heartbeat :: "u32 \<Rightarrow> u64 \<Rightarrow> liveness \<Rightarrow> bool \<times> liveness" where
  "lv_heartbeat node_id now l =
     (node_id \<in> set (lv_offline l),
      l\<lparr>lv_last_seen := (lv_last_seen l)(node_id \<mapsto> now), lv_offline := filter (\<lambda>id. id \<noteq> node_id) (lv_offline l)\<rparr>)"

definition sweep :: "u32 list \<Rightarrow> u64 \<Rightarrow> liveness \<Rightarrow> u32 list \<times> liveness" where
  "sweep ids now l =
     (let expired = filter (\<lambda>id. id \<notin> set (lv_offline l))
            (filter (\<lambda>id. case lv_last_seen l id of
                Some seen \<Rightarrow> LEASE_EXPIRY_SECS < saturating_sub now seen | None \<Rightarrow> False) ids)
      in (expired, l\<lparr>lv_offline := lv_offline l @ expired\<rparr>))"

definition lv_mark_offline :: "u32 \<Rightarrow> liveness \<Rightarrow> bool \<times> liveness" where
  "lv_mark_offline node_id l =
     (if node_id \<in> set (lv_offline l) then (False, l) else (True, l\<lparr>lv_offline := lv_offline l @ [node_id]\<rparr>))"

definition is_offline :: "u32 \<Rightarrow> liveness \<Rightarrow> bool" where
  "is_offline node_id l = (node_id \<in> set (lv_offline l))"

definition last_seen_of :: "u32 \<Rightarrow> liveness \<Rightarrow> u64 option" where
  "last_seen_of node_id l = lv_last_seen l node_id"

definition lv_remove :: "u32 \<Rightarrow> liveness \<Rightarrow> liveness" where
  "lv_remove node_id l =
     l\<lparr>lv_last_seen := (lv_last_seen l)(node_id := None), lv_offline := filter (\<lambda>id. id \<noteq> node_id) (lv_offline l)\<rparr>"

section \<open>Directory\<close>

record node_endpoints =
  ep_local :: "string list"
  ep_seen :: "string list"

definition merged :: "node_endpoints \<Rightarrow> string list" where
  "merged e = foldl (\<lambda>out s. if s \<in> set out then out else out @ [s]) (ep_local e) (ep_seen e)"

record directory =
  dr_netmap_version :: u64
  dr_endpoints :: "u32 \<rightharpoonup> node_endpoints"
  dr_protocol_versions :: "u32 \<rightharpoonup> u32"
  dr_build_versions :: "u32 \<rightharpoonup> string"

definition directory_new :: directory where
  "directory_new = \<lparr>dr_netmap_version = 0, dr_endpoints = Map.empty, dr_protocol_versions = Map.empty,
     dr_build_versions = Map.empty\<rparr>"

definition bump_netmap :: "directory \<Rightarrow> directory" where
  "bump_netmap d = d\<lparr>dr_netmap_version := dr_netmap_version d + 1\<rparr>"

definition dr_set_endpoints :: "u32 \<Rightarrow> string list \<Rightarrow> string list \<Rightarrow> directory \<Rightarrow> directory" where
  "dr_set_endpoints node_id lcl seen d =
     bump_netmap (d\<lparr>dr_endpoints := (dr_endpoints d)(node_id \<mapsto> \<lparr>ep_local = lcl, ep_seen = seen\<rparr>)\<rparr>)"

definition merged_endpoints_of :: "directory \<Rightarrow> u32 \<Rightarrow> string list" where
  "merged_endpoints_of d node_id = (case dr_endpoints d node_id of Some e \<Rightarrow> merged e | None \<Rightarrow> [])"

text \<open>\<open>str::rsplit_once(':')\<close>, keeping the part before the last separator, or all of it.\<close>

definition host_part :: "string \<Rightarrow> string" where
  "host_part s = (if CHR '':'' \<in> set s then rev (tl (dropWhile (\<lambda>c. c \<noteq> CHR '':'') (rev s))) else s)"

definition public_direct :: "directory \<Rightarrow> u32 \<Rightarrow> bool" where
  "public_direct d node_id =
     (case dr_endpoints d node_id of
        None \<Rightarrow> False
      | Some e \<Rightarrow> list_ex (\<lambda>s. host_part s \<in> set (map host_part (ep_local e))) (ep_seen e))"

definition dr_restore :: "u64 \<Rightarrow> (u32 \<rightharpoonup> node_endpoints) \<Rightarrow> directory \<Rightarrow> directory" where
  "dr_restore version eps d = d\<lparr>dr_netmap_version := version, dr_endpoints := eps\<rparr>"

definition set_protocol_version :: "u32 \<Rightarrow> u32 \<Rightarrow> directory \<Rightarrow> directory" where
  "set_protocol_version node_id v d = d\<lparr>dr_protocol_versions := (dr_protocol_versions d)(node_id \<mapsto> v)\<rparr>"

definition protocol_version :: "directory \<Rightarrow> u32 \<Rightarrow> u32" where
  "protocol_version d node_id = (case dr_protocol_versions d node_id of Some v \<Rightarrow> v | None \<Rightarrow> 1)"

definition set_build_version :: "u32 \<Rightarrow> string \<Rightarrow> directory \<Rightarrow> directory" where
  "set_build_version node_id v d = d\<lparr>dr_build_versions := (dr_build_versions d)(node_id \<mapsto> v)\<rparr>"

definition dr_remove_node :: "u32 \<Rightarrow> directory \<Rightarrow> directory" where
  "dr_remove_node node_id d =
     d\<lparr>dr_endpoints := (dr_endpoints d)(node_id := None), dr_protocol_versions := (dr_protocol_versions d)(node_id := None),
       dr_build_versions := (dr_build_versions d)(node_id := None)\<rparr>"

section \<open>Dynamic routes\<close>

abbreviation (input) ROUTE_MAP_MAX_PER_NODE :: nat where "ROUTE_MAP_MAX_PER_NODE \<equiv> 2000"
abbreviation (input) FLAP_WINDOW_SECS :: u64 where "FLAP_WINDOW_SECS \<equiv> 600"
abbreviation (input) FLAP_LIMIT :: nat where "FLAP_LIMIT \<equiv> 3"

record route_sync_outcome =
  so_accepted :: nat
  so_rejected_coverage :: nat
  so_rejected_cap :: nat
  so_damped :: nat
  so_changed :: bool

record route_map_service =
  rm_entries :: "prefix \<times> u32 \<rightharpoonup> string"
  rm_per_node :: "u32 \<rightharpoonup> nat"
  rm_flaps :: "prefix \<times> u32 \<rightharpoonup> u64 list"
  rm_damped_until :: "prefix \<times> u32 \<rightharpoonup> u64"
  rm_version :: u64

definition route_map_new :: route_map_service where
  "route_map_new = \<lparr>rm_entries = Map.empty, rm_per_node = Map.empty, rm_flaps = Map.empty,
     rm_damped_until = Map.empty, rm_version = 0\<rparr>"

definition rm_damped :: "route_map_service \<Rightarrow> prefix \<times> u32 \<Rightarrow> u64 \<Rightarrow> bool" where
  "rm_damped m k now = (case rm_damped_until m k of Some until \<Rightarrow> now < until | None \<Rightarrow> False)"

definition node_count :: "route_map_service \<Rightarrow> u32 \<Rightarrow> nat" where
  "node_count m node = (case rm_per_node m node of Some n \<Rightarrow> n | None \<Rightarrow> 0)"

definition flip :: "u32 \<Rightarrow> prefix \<Rightarrow> u64 \<Rightarrow> route_map_service \<Rightarrow> bool \<times> route_map_service" where
  "flip node p now m =
     (let k = (p, node);
          ts = (case rm_flaps m k of Some ts \<Rightarrow> ts | None \<Rightarrow> []);
          ts = filter (\<lambda>t. saturating_sub now t \<le> FLAP_WINDOW_SECS) ts @ [now]
      in (FLAP_LIMIT \<le> length ts, m\<lparr>rm_flaps := (rm_flaps m)(k \<mapsto> ts)\<rparr>))"

definition remove_entry :: "prefix \<times> u32 \<Rightarrow> route_map_service \<Rightarrow> bool \<times> route_map_service" where
  "remove_entry k m =
     (if rm_entries m k \<noteq> None then
        (True, m\<lparr>rm_entries := (rm_entries m)(k := None),
                 rm_per_node := (case rm_per_node m (snd k) of
                     Some n \<Rightarrow> (rm_per_node m)(snd k \<mapsto> n - 1) | None \<Rightarrow> rm_per_node m)\<rparr>)
      else (False, m))"

text \<open>One announced prefix and one withdrawn prefix: the bodies of the two loops of \<open>apply_sync\<close>.\<close>

definition sync_announce :: "u32 \<Rightarrow> prefix list \<Rightarrow> nat \<Rightarrow> u64 \<Rightarrow> route_map_service \<times> route_sync_outcome \<Rightarrow> prefix \<times> string
    \<Rightarrow> route_map_service \<times> route_sync_outcome" where
  "sync_announce node coverage max_per_node now s ann =
     (case (s, ann) of ((m, out), (p, next_hop)) \<Rightarrow>
        let k = (p, node) in
        if rm_damped m k now then (m, out\<lparr>so_damped := so_damped out + 1\<rparr>)
        else if \<not> list_ex (is_covered_by p) coverage then (m, out\<lparr>so_rejected_coverage := so_rejected_coverage out + 1\<rparr>)
        else
          let is_new = (rm_entries m k = None) in
          if is_new \<and> max_per_node \<le> node_count m node then (m, out\<lparr>so_rejected_cap := so_rejected_cap out + 1\<rparr>)
          else
            case (if is_new then flip node p now m else (False, m)) of (trip, m) \<Rightarrow>
              if trip then
                (m\<lparr>rm_damped_until := (rm_damped_until m)(k \<mapsto> now + FLAP_WINDOW_SECS)\<rparr>, out\<lparr>so_damped := so_damped out + 1\<rparr>)
              else
                (if is_new then
                   m\<lparr>rm_entries := (rm_entries m)(k \<mapsto> next_hop), rm_per_node := (rm_per_node m)(node \<mapsto> node_count m node + 1)\<rparr>
                 else m\<lparr>rm_entries := (rm_entries m)(k \<mapsto> next_hop)\<rparr>,
                 out\<lparr>so_changed := so_changed out \<or> is_new, so_accepted := so_accepted out + 1\<rparr>))"

definition sync_withdraw :: "u32 \<Rightarrow> u64 \<Rightarrow> route_map_service \<times> route_sync_outcome \<Rightarrow> prefix
    \<Rightarrow> route_map_service \<times> route_sync_outcome" where
  "sync_withdraw node now s p =
     (case s of (m, out) \<Rightarrow>
        let k = (p, node) in
        if rm_damped m k now then (m, out\<lparr>so_damped := so_damped out + 1\<rparr>)
        else
          case (if rm_entries m k \<noteq> None then flip node p now m else (False, m)) of (trip, m) \<Rightarrow>
            let m = (if trip then m\<lparr>rm_damped_until := (rm_damped_until m)(k \<mapsto> now + FLAP_WINDOW_SECS)\<rparr> else m) in
            case remove_entry k m of (gone, m) \<Rightarrow> (m, out\<lparr>so_changed := so_changed out \<or> gone\<rparr>))"

definition saturating_inc :: "u64 \<Rightarrow> u64" where
  "saturating_inc v = (if v = - 1 then v else v + 1)"

definition apply_sync :: "u32 \<Rightarrow> (prefix \<times> string) list \<Rightarrow> prefix list \<Rightarrow> prefix list \<Rightarrow> nat \<Rightarrow> u64
    \<Rightarrow> route_map_service \<Rightarrow> route_map_service \<times> route_sync_outcome" where
  "apply_sync node announced withdrawn coverage max_per_node now m =
     (let out = \<lparr>so_accepted = 0, so_rejected_coverage = 0, so_rejected_cap = 0, so_damped = 0, so_changed = False\<rparr>;
          s = foldl (sync_announce node coverage max_per_node now) (m, out) announced;
          (m, out) = foldl (sync_withdraw node now) s withdrawn
      in (if so_changed out then m\<lparr>rm_version := saturating_inc (rm_version m)\<rparr> else m, out))"

definition rm_withdraw_node :: "(prefix \<times> u32) list \<Rightarrow> u32 \<Rightarrow> route_map_service \<Rightarrow> bool \<times> route_map_service" where
  "rm_withdraw_node ks node m =
     (if list_ex (\<lambda>k. snd k = node) ks then
        (True, m\<lparr>rm_entries := (\<lambda>k. if snd k = node then None else rm_entries m k),
                 rm_per_node := (rm_per_node m)(node := None),
                 rm_flaps := (\<lambda>k. if snd k = node then None else rm_flaps m k),
                 rm_damped_until := (\<lambda>k. if snd k = node then None else rm_damped_until m k),
                 rm_version := saturating_inc (rm_version m)\<rparr>)
      else (False, m))"

record route_map_snapshot_entry =
  rs_prefix :: prefix
  rs_node_id :: u32
  rs_next_hop :: string

definition rm_snapshot :: "(prefix \<times> u32) list \<Rightarrow> route_map_service \<Rightarrow> route_map_snapshot_entry list" where
  "rm_snapshot ks m =
     sort_key (\<lambda>e. (to_cidr (rs_prefix e), rs_node_id e))
       (map (\<lambda>(p, n). \<lparr>rs_prefix = p, rs_node_id = n, rs_next_hop = the (rm_entries m (p, n))\<rparr>) ks)"

definition rm_len :: "(prefix \<times> u32) list \<Rightarrow> nat" where
  "rm_len ks = length ks"

definition rm_has :: "route_map_service \<Rightarrow> prefix \<Rightarrow> u32 \<Rightarrow> bool" where
  "rm_has m p node \<longleftrightarrow> rm_entries m (p, node) \<noteq> None"

section \<open>Lease expiry\<close>

datatype lease_event = Beat u32 u64 | Sweep "u32 list" u64 | Offline u32 | Forget u32

fun lease_step :: "liveness \<Rightarrow> lease_event \<Rightarrow> liveness" where
  "lease_step l (Beat n now) = snd (lv_heartbeat n now l)"
| "lease_step l (Sweep ids now) = snd (sweep ids now l)"
| "lease_step l (Offline n) = snd (lv_mark_offline n l)"
| "lease_step l (Forget n) = lv_remove n l"

text \<open>An event that does not end the lease node \<open>n\<close> took at time \<open>t\<close>.\<close>

fun keeps_lease :: "u32 \<Rightarrow> u64 \<Rightarrow> lease_event \<Rightarrow> bool" where
  "keeps_lease n t (Beat m now) \<longleftrightarrow> m \<noteq> n"
| "keeps_lease n t (Sweep ids now) \<longleftrightarrow> unat now \<le> unat t + 60"
| "keeps_lease n t (Offline m) \<longleftrightarrow> m \<noteq> n"
| "keeps_lease n t (Forget m) \<longleftrightarrow> m \<noteq> n"

lemma lease_step_keeps:
  assumes "keeps_lease n t ev" and "lv_last_seen l n = Some t" and "\<not> is_offline n l"
  shows "lv_last_seen (lease_step l ev) n = Some t \<and> \<not> is_offline n (lease_step l ev)"
  using assms
  by (cases ev) (auto simp: lv_heartbeat_def sweep_def lv_mark_offline_def lv_remove_def is_offline_def Let_def word_less_nat_alt)

interpretation lease: invariant_machine lease_step "\<lambda>l. lv_last_seen l n = Some t \<and> \<not> is_offline n l" "\<lambda>_. keeps_lease n t"
  for n t
  by unfold_locales (rule lease_step_keeps, auto)

lemma lease_guarded: "list_all (keeps_lease n t) evs \<Longrightarrow> lease.guarded n t l evs"
  by (induction evs arbitrary: l) simp_all

text \<open>C36: A lease is exact: after a heartbeat at time \<open>t\<close> the node is online through everything that happens to
  other nodes and every sweep up to \<open>t + 60\<close>, and the first sweep later than that which visits it puts it in
  the list of newly offline nodes.\<close>

theorem lease_is_exact:
  assumes "list_all (keeps_lease n t) evs" and "l = foldl lease_step (snd (lv_heartbeat n t l0)) evs"
  shows "\<not> is_offline n l
    \<and> (unat t + 60 < unat now \<longrightarrow> n \<in> set ids \<longrightarrow> n \<in> set (fst (sweep ids now l)) \<and> is_offline n (snd (sweep ids now l)))"
proof -
  have "lv_last_seen (snd (lv_heartbeat n t l0)) n = Some t \<and> \<not> is_offline n (snd (lv_heartbeat n t l0))"
    by (simp add: lv_heartbeat_def is_offline_def)
  from lease.run_inv [OF this lease_guarded [OF assms(1)]]
  show ?thesis unfolding assms(2) by (auto simp: sweep_def Let_def is_offline_def word_less_nat_alt)
qed

theorem lease_is_exact_witness:
  "\<not> is_offline 7 (foldl lease_step (snd (lv_heartbeat 7 100 liveness_new)) [Sweep [7, 8] 160, Offline 8])
   \<and> 7 \<in> set (fst (sweep [7, 8] 161 (foldl lease_step (snd (lv_heartbeat 7 100 liveness_new)) [Sweep [7, 8] 160, Offline 8])))"
  using lease_is_exact [of 7 100 "[Sweep [7, 8] 160, Offline 8]" _ liveness_new 161 "[7, 8]", OF _ refl] by simp

section \<open>The route map's gate\<close>

definition routes_of :: "route_map_service \<Rightarrow> u32 \<Rightarrow> prefix set" where
  "routes_of m n = {p. rm_entries m (p, n) \<noteq> None}"

text \<open>Counts are right and bounded, and every route is inside what its node registered.\<close>

definition route_map_ok :: "(u32 \<Rightarrow> prefix list) \<Rightarrow> nat \<Rightarrow> route_map_service \<Rightarrow> bool" where
  "route_map_ok cov mx m \<longleftrightarrow>
     (\<forall>n. finite (routes_of m n) \<and> card (routes_of m n) = node_count m n \<and> node_count m n \<le> mx
       \<and> (\<forall>p \<in> routes_of m n. list_ex (is_covered_by p) (cov n)))"

lemma flip_frame [simp]:
  "rm_entries (snd (flip n p now m)) = rm_entries m" "rm_per_node (snd (flip n p now m)) = rm_per_node m"
  "rm_damped_until (snd (flip n p now m)) = rm_damped_until m" "rm_version (snd (flip n p now m)) = rm_version m"
  by (simp_all add: flip_def Let_def)

lemma route_map_ok_cong:
  "rm_entries m' = rm_entries m \<Longrightarrow> rm_per_node m' = rm_per_node m \<Longrightarrow> route_map_ok cov mx m' = route_map_ok cov mx m"
  by (simp add: route_map_ok_def routes_of_def node_count_def)

lemma route_map_ok_insert:
  assumes "route_map_ok cov mx m" and "rm_entries m (p, n) = None" and "node_count m n < mx" and "list_ex (is_covered_by p) (cov n)"
  shows "route_map_ok cov mx (m\<lparr>rm_entries := (rm_entries m)((p, n) \<mapsto> nh), rm_per_node := (rm_per_node m)(n \<mapsto> node_count m n + 1)\<rparr>)"
proof -
  let ?m = "m\<lparr>rm_entries := (rm_entries m)((p, n) \<mapsto> nh), rm_per_node := (rm_per_node m)(n \<mapsto> node_count m n + 1)\<rparr>"
  have "routes_of ?m k = (if k = n then insert p (routes_of m k) else routes_of m k)" for k by (auto simp: routes_of_def)
  moreover have "p \<notin> routes_of m n" using assms(2) by (simp add: routes_of_def)
  moreover have "node_count ?m k = (if k = n then node_count m n + 1 else node_count m k)" for k by (simp add: node_count_def)
  ultimately show ?thesis using assms unfolding route_map_ok_def by auto
qed

lemma route_map_ok_refresh:
  assumes "route_map_ok cov mx m" and "rm_entries m (p, n) \<noteq> None"
  shows "route_map_ok cov mx (m\<lparr>rm_entries := (rm_entries m)((p, n) \<mapsto> nh)\<rparr>)"
proof -
  have "routes_of (m\<lparr>rm_entries := (rm_entries m)((p, n) \<mapsto> nh)\<rparr>) = routes_of m" using assms(2) by (intro ext) (auto simp: routes_of_def)
  with assms(1) show ?thesis by (simp add: route_map_ok_def node_count_def)
qed

lemma route_map_ok_remove:
  assumes "route_map_ok cov mx m"
  shows "route_map_ok cov mx (snd (remove_entry (p, n) m))"
proof (cases "rm_entries m (p, n) = None")
  case False
  let ?m = "snd (remove_entry (p, n) m)"
  have r: "routes_of ?m k = (if k = n then routes_of m k - {p} else routes_of m k)" for k
    using False by (auto simp: remove_entry_def routes_of_def)
  have p: "p \<in> routes_of m n" using False by (simp add: routes_of_def)
  moreover have "finite (routes_of m n)" using assms by (simp add: route_map_ok_def)
  ultimately have "0 < card (routes_of m n)" by (auto simp: card_gt_0_iff)
  then have "node_count ?m k = (if k = n then node_count m n - 1 else node_count m k)" for k
    using False assms by (auto simp: remove_entry_def node_count_def split: option.split)
  then show ?thesis using assms r p unfolding route_map_ok_def by (auto simp: le_diff_conv intro: le_SucI)
qed (simp add: remove_entry_def assms)

lemma sync_announce_ok:
  assumes "route_map_ok cov mx (fst s)"
  shows "route_map_ok cov mx (fst (sync_announce n (cov n) mx now s ann))"
proof -
  obtain m out p nh where s: "s = (m, out)" "ann = (p, nh)" by (cases s, cases ann) auto
  let ?m = "snd (flip n p now m)"
  have f: "route_map_ok cov mx ?m" using assms s by (subst route_map_ok_cong [of _ m]) simp_all
  show ?thesis
  proof (cases "rm_damped m (p, n) now \<or> \<not> list_ex (is_covered_by p) (cov n) \<or> rm_entries m (p, n) = None \<and> mx \<le> node_count m n")
    case True
    then show ?thesis using assms s by (auto simp: sync_announce_def Let_def)
  next
    case c: False
    show ?thesis
    proof (cases "rm_entries m (p, n) = None")
      case True
      then have "route_map_ok cov mx (?m\<lparr>rm_entries := (rm_entries ?m)((p, n) \<mapsto> nh), rm_per_node := (rm_per_node ?m)(n \<mapsto> node_count ?m n + 1)\<rparr>)"
        using f c by (intro route_map_ok_insert) (auto simp: node_count_def)
      moreover have "route_map_ok cov mx (?m\<lparr>rm_damped_until := d\<rparr>)" for d using f by (subst route_map_ok_cong [of _ ?m]) simp_all
      ultimately show ?thesis
        using True c s by (cases "flip n p now m") (auto simp: sync_announce_def Let_def)
    next
      case False
      then show ?thesis
        using c s assms route_map_ok_refresh [of cov mx m p n] by (auto simp: sync_announce_def Let_def)
    qed
  qed
qed

lemma sync_withdraw_ok:
  assumes "route_map_ok cov mx (fst s)"
  shows "route_map_ok cov mx (fst (sync_withdraw n now s p))"
proof -
  obtain m out where s: "s = (m, out)" by (cases s)
  obtain trip m1 where f: "(if rm_entries m (p, n) \<noteq> None then flip n p now m else (False, m)) = (trip, m1)" by fastforce
  let ?m = "if trip then m1\<lparr>rm_damped_until := (rm_damped_until m1)((p, n) \<mapsto> now + 600)\<rparr> else m1"
  have "rm_entries m1 = rm_entries m" "rm_per_node m1 = rm_per_node m"
    using f by (auto split: if_splits) (metis flip_frame snd_conv)+
  then have "route_map_ok cov mx ?m" using assms s by (subst route_map_ok_cong [of _ m]) simp_all
  then have "route_map_ok cov mx (snd (remove_entry (p, n) ?m))" by (rule route_map_ok_remove)
  then show ?thesis using assms s f by (auto simp: sync_withdraw_def Let_def split: prod.split)
qed

lemma apply_sync_ok:
  assumes "route_map_ok cov mx m"
  shows "route_map_ok cov mx (fst (apply_sync n ann wd (cov n) mx now m))"
proof -
  have a: "route_map_ok cov mx (fst s) \<Longrightarrow> route_map_ok cov mx (fst (foldl (sync_announce n (cov n) mx now) s xs))" for s xs
    by (induction xs arbitrary: s) (simp_all add: sync_announce_ok)
  have w: "route_map_ok cov mx (fst s) \<Longrightarrow> route_map_ok cov mx (fst (foldl (sync_withdraw n now) s xs))" for s xs
    by (induction xs arbitrary: s) (simp_all add: sync_withdraw_ok)
  have v: "route_map_ok cov mx (m'\<lparr>rm_version := v\<rparr>) = route_map_ok cov mx m'" for m' v by (rule route_map_ok_cong) simp_all
  show ?thesis
    using w [OF a, of "(m, o1)" ann wd for o1] assms
    by (auto simp: apply_sync_def Let_def v split: prod.split) (metis fst_conv)+
qed

lemma rm_withdraw_node_ok:
  assumes "route_map_ok cov mx m"
  shows "route_map_ok cov mx (snd (rm_withdraw_node ks n m))"
proof (cases "list_ex (\<lambda>k. snd k = n) ks")
  case True
  then have "routes_of (snd (rm_withdraw_node ks n m)) k = (if k = n then {} else routes_of m k)"
    "node_count (snd (rm_withdraw_node ks n m)) k = (if k = n then 0 else node_count m k)" for k
    by (auto simp: rm_withdraw_node_def routes_of_def node_count_def)
  with assms show ?thesis by (simp add: route_map_ok_def)
qed (simp add: rm_withdraw_node_def assms)

text \<open>What happens to the map: a report of one node, or the removal of a node whose keys are among \<open>ks\<close>.\<close>

datatype map_event = Sync u32 "(prefix \<times> string) list" "prefix list" u64 | Gone "(prefix \<times> u32) list" u32

fun map_step :: "(u32 \<Rightarrow> prefix list) \<Rightarrow> nat \<Rightarrow> route_map_service \<Rightarrow> map_event \<Rightarrow> route_map_service" where
  "map_step cov mx m (Sync n ann wd now) = fst (apply_sync n ann wd (cov n) mx now m)"
| "map_step cov mx m (Gone ks n) = snd (rm_withdraw_node ks n m)"

lemma map_step_ok: "route_map_ok cov mx m \<Longrightarrow> route_map_ok cov mx (map_step cov mx m ev)"
  by (cases ev) (simp_all add: apply_sync_ok rm_withdraw_node_ok)

interpretation gate: invariant_machine "map_step cov mx" "route_map_ok cov mx" "\<lambda>_ _. True"
  for cov mx
  by unfold_locales (erule map_step_ok)

lemma route_map_new_ok: "route_map_ok cov mx route_map_new"
  by (simp add: route_map_ok_def route_map_new_def routes_of_def node_count_def)

text \<open>C29: Whatever nodes report and whichever nodes are removed, in any order, the map holds at most the configured
  number of routes of each node, its counter is that number, and every route lies inside an aggregate its node
  registered.\<close>

theorem route_gate_holds:
  fixes cov mx evs
  defines "m \<equiv> foldl (map_step cov mx) route_map_new evs"
  shows "card (routes_of m n) = node_count m n \<and> finite (routes_of m n) \<and> node_count m n \<le> mx
    \<and> routes_of m n \<subseteq> {p. list_ex (is_covered_by p) (cov n)}"
  using gate.run_inv_unguarded [OF route_map_new_ok, of cov mx evs] unfolding m_def route_map_ok_def by auto

section \<open>Damping\<close>

definition frozen :: "prefix \<times> u32 \<Rightarrow> u64 \<Rightarrow> string option \<Rightarrow> route_map_service \<Rightarrow> bool" where
  "frozen k u e m \<longleftrightarrow> rm_damped_until m k = Some u \<and> rm_entries m k = e"

lemma sync_announce_frozen:
  assumes "frozen k u e (fst s)" and "now < u"
  shows "frozen k u e (fst (sync_announce n cov mx now s ann))"
  using assms by (cases s; cases ann) (auto simp: frozen_def rm_damped_def sync_announce_def flip_def Let_def)

lemma sync_withdraw_frozen:
  assumes "frozen k u e (fst s)" and "now < u"
  shows "frozen k u e (fst (sync_withdraw n now s p))"
  using assms by (cases s) (auto simp: frozen_def rm_damped_def sync_withdraw_def flip_def remove_entry_def Let_def)

lemma apply_sync_frozen:
  assumes "frozen k u e m" and "now < u"
  shows "frozen k u e (fst (apply_sync n ann wd cov mx now m))"
proof -
  have a: "frozen k u e (fst s) \<Longrightarrow> frozen k u e (fst (foldl (sync_announce n cov mx now) s xs))" for s xs
    by (induction xs arbitrary: s) (simp_all add: sync_announce_frozen assms(2))
  have w: "frozen k u e (fst s) \<Longrightarrow> frozen k u e (fst (foldl (sync_withdraw n now) s xs))" for s xs
    by (induction xs arbitrary: s) (simp_all add: sync_withdraw_frozen assms(2))
  have v: "frozen k u e (m'\<lparr>rm_version := v\<rparr>) = frozen k u e m'" for m' v by (simp add: frozen_def)
  show ?thesis
    using w [OF a, of "(m, o1)" ann wd for o1] assms(1)
    by (auto simp: apply_sync_def Let_def v split: prod.split) (metis fst_conv)+
qed

fun before_release :: "u32 \<Rightarrow> u64 \<Rightarrow> map_event \<Rightarrow> bool" where
  "before_release n u (Sync _ _ _ now) \<longleftrightarrow> now < u"
| "before_release n u (Gone _ k) \<longleftrightarrow> k \<noteq> n"

lemma map_step_frozen: "frozen (p, n) u e m \<Longrightarrow> before_release n u ev \<Longrightarrow> frozen (p, n) u e (map_step cov mx m ev)"
  by (cases ev) (simp_all add: apply_sync_frozen, simp add: frozen_def rm_withdraw_node_def)

interpretation damp: invariant_machine "map_step cov mx" "frozen (p, n) u e" "\<lambda>_. before_release n u"
  for cov mx p n u e
  by unfold_locales (rule map_step_frozen)

lemma damp_guarded: "list_all (before_release n u) evs \<Longrightarrow> damp.guarded cov mx n u m evs"
  by (induction evs arbitrary: m) simp_all

definition recent_flips :: "route_map_service \<Rightarrow> prefix \<times> u32 \<Rightarrow> u64 \<Rightarrow> nat" where
  "recent_flips m k now = (case rm_flaps m k of None \<Rightarrow> 0 | Some ts \<Rightarrow> length (filter (\<lambda>t. saturating_sub now t \<le> 600) ts))"

lemma third_flip_freezes:
  assumes "\<not> rm_damped m (p, n) now" and "2 \<le> recent_flips m (p, n) now" and "list_ex (is_covered_by p) cov"
    and "rm_entries m (p, n) = None" and "node_count m n < mx"
  shows "frozen (p, n) (now + 600) None (fst (apply_sync n [(p, nh)] [] cov mx now m))"
  using assms
  by (auto simp: apply_sync_def sync_announce_def flip_def frozen_def recent_flips_def Let_def split: option.splits)

text \<open>Flap damping. When an absent prefix is announced as its third change of state within 600 seconds it is not
  entered, and for the next 600 seconds no report of any node, in any number and order, brings it back, as long as
  the node itself is not removed.\<close>

theorem flapping_route_stays_out:
  assumes "\<not> rm_damped m (p, n) now" and "2 \<le> recent_flips m (p, n) now" and "list_ex (is_covered_by p) (cov n)"
    and "rm_entries m (p, n) = None" and "node_count m n < mx" and "list_all (before_release n (now + 600)) evs"
  shows "rm_entries (foldl (map_step cov mx) m (Sync n [(p, nh)] [] now # evs)) (p, n) = None"
  using damp.run_inv [OF third_flip_freezes [OF assms(1-5), of nh] damp_guarded [OF assms(6)]] by (simp add: frozen_def)

definition ex_flapped :: route_map_service where
  "ex_flapped = foldl (map_step (\<lambda>_. [ex_net8]) 2000) route_map_new [Sync 7 [(ex_net16, ''a'')] [] 100, Sync 7 [] [ex_net16] 110]"

lemma ex_flapped_eq:
  "\<not> rm_damped ex_flapped (ex_net16, 7) 120" "recent_flips ex_flapped (ex_net16, 7) 120 = 2"
  "rm_entries ex_flapped (ex_net16, 7) = None" "node_count ex_flapped 7 = 0"
  by (simp_all add: ex_flapped_def apply_sync_def sync_announce_def sync_withdraw_def flip_def remove_entry_def rm_damped_def
      recent_flips_def node_count_def route_map_new_def ex_nets_covered saturating_sub_def Let_def)

theorem flapping_route_stays_out_witness:
  "rm_entries (foldl (map_step (\<lambda>_. [ex_net8]) 2000) ex_flapped
     [Sync 7 [(ex_net16, ''a'')] [] 120, Sync 7 [(ex_net16, ''a'')] [] 719]) (ex_net16, 7) = None"
  using flapping_route_stays_out [of ex_flapped ex_net16 7 120 "\<lambda>_. [ex_net8]" 2000 "[Sync 7 [(ex_net16, ''a'')] [] 719]" "''a''"]
  by (simp add: ex_flapped_eq ex_nets_covered del: map_step.simps)

text \<open>A new next hop for a route already in the map is stored, but the report counts as no change and the version
  stays: nothing tells the other nodes.\<close>

theorem refresh_not_versioned:
  assumes "rm_entries m (p, n) = Some old" and "\<not> rm_damped m (p, n) now" and "list_ex (is_covered_by p) cov"
  shows "case apply_sync n [(p, nh)] [] cov mx now m of (m', out) \<Rightarrow>
    rm_entries m' (p, n) = Some nh \<and> rm_version m' = rm_version m \<and> \<not> so_changed out \<and> so_accepted out = 1"
  using assms by (simp add: apply_sync_def sync_announce_def Let_def)

section \<open>Snapshots\<close>

lemma to_cidr_inj: "inj_on to_cidr {p. prefix_ok p}"
  by (rule inj_onI) (metis mem_Collect_eq outcome.inject(1) prefix_parse_to_cidr)

text \<open>The snapshot that is pushed to the nodes is canonical: two enumerations of the same entries, in any two
  orders of the hash map, give the same list, which holds every route once.\<close>

theorem rm_snapshot_canonical:
  assumes "distinct ks" "distinct ks'" "set ks = set ks'" "list_all (prefix_ok \<circ> fst) ks"
  shows "rm_snapshot ks m = rm_snapshot ks' m \<and> distinct (rm_snapshot ks m) \<and> length (rm_snapshot ks m) = rm_len ks"
proof -
  let ?f = "\<lambda>e. (to_cidr (rs_prefix e), rs_node_id e)"
  let ?e = "\<lambda>(p, n). \<lparr>rs_prefix = p, rs_node_id = n, rs_next_hop = the (rm_entries m (p, n))\<rparr>"
  have "inj_on (?f \<circ> ?e) (set ks)"
    using assms(4) inj_onD [OF to_cidr_inj] by (fastforce simp: inj_on_def list_all_iff)
  then have f: "inj_on ?f (?e ` set ks)" and e: "inj_on ?e (set ks)" by (simp_all add: comp_inj_on_iff inj_on_imageI2 inj_on_imageI)
  have d: "distinct (map ?f (sort_key ?f (map ?e xs)))" if "distinct xs" "set xs = set ks" for xs
    using that f e by (simp add: distinct_map)
  have "rm_snapshot ks m = rm_snapshot ks' m"
    unfolding rm_snapshot_def
    using f assms d [of ks] d [of ks'] by (intro map_sorted_distinct_set_unique [where f = ?f]) simp_all
  moreover have "length ks = length ks'" using assms by (metis distinct_card)
  ultimately show ?thesis using d [OF assms(1) refl] by (simp add: rm_snapshot_def rm_len_def distinct_map)
qed

theorem rm_snapshot_canonical_witness:
  "rm_snapshot [(ex_net16, 7), (ex_net8, 9)] ex_flapped = rm_snapshot [(ex_net8, 9), (ex_net16, 7)] ex_flapped"
  using rm_snapshot_canonical [of "[(ex_net16, 7), (ex_net8, 9)]" "[(ex_net8, 9), (ex_net16, 7)]" ex_flapped]
  by (auto simp: ex_nets_ok)

end
