(* ===== verification/Path_Service.thy ===== *)
theory Path_Service
  imports Prelude "HOL-Library.Product_Lexorder"
begin

text \<open>
  The path service of the coordinator (\<open>rill-coord/src/path_service.rs\<close>): candidate paths per pair of nodes,
  the allocator of path ids, the queues of events that heartbeats deliver, and the changes that follow a
  revocation or a change of the relay roster. The order in which the hash map yields its keys is an argument of
  the operations that iterate over it.
\<close>

section \<open>Data\<close>

abbreviation (input) PATH_DEFAULT_TTL :: u64 where "PATH_DEFAULT_TTL \<equiv> 3600"
abbreviation (input) PENDING_EVENTS_MAX :: nat where "PENDING_EVENTS_MAX \<equiv> 1024"

record path_candidate =
  path_id :: u64
  path_epoch :: u32
  hops :: "u32 list"
  expires_at :: u64

record path_set =
  set_version :: u64
  candidates :: "path_candidate list"
  set_max :: u32

definition default_path_max :: u32 where
  "default_path_max = 4"

definition expired :: "path_set \<Rightarrow> u64 \<Rightarrow> bool" where
  "expired ps now \<longleftrightarrow> candidates ps = [] \<or> list_all (\<lambda>c. expires_at c \<noteq> 0 \<and> expires_at c < now) (candidates ps)"

datatype path_event = PathUpdate u32 u32 path_set | PathWithdraw u32 u64

record path_service =
  ps_map :: "u32 \<times> u32 \<rightharpoonup> path_set"
  ps_seq :: u64
  ps_pending :: "u32 \<rightharpoonup> path_event list"
  ps_relays :: "u32 list"

definition path_service_new :: path_service where
  "path_service_new = \<lparr>ps_map = Map.empty, ps_seq = 0, ps_pending = Map.empty, ps_relays = []\<rparr>"

definition set_relays :: "u32 list \<Rightarrow> path_service \<Rightarrow> path_service" where
  "set_relays rs s = s\<lparr>ps_relays := rs\<rparr>"

section \<open>Operations\<close>

definition alloc_path_id :: "path_service \<Rightarrow> u64 \<times> path_service" where
  "alloc_path_id s = (ps_seq s + 1, s\<lparr>ps_seq := ps_seq s + 1\<rparr>)"

definition new_candidate :: "u32 list \<Rightarrow> u64 \<Rightarrow> path_service \<Rightarrow> path_candidate \<times> path_service" where
  "new_candidate hs now s =
     (case alloc_path_id s of (i, s) \<Rightarrow>
        (\<lparr>path_id = i, path_epoch = 1, hops = hs, expires_at = now + PATH_DEFAULT_TTL\<rparr>, s))"

definition clamp_max :: "u32 \<Rightarrow> u32" where
  "clamp_max m = (if m < 2 then 2 else if 4 < m then 4 else m)"

definition other_relays :: "path_service \<Rightarrow> u32 \<Rightarrow> u32 \<Rightarrow> u32 list" where
  "other_relays s source dest = filter (\<lambda>r. r \<noteq> source \<and> r \<noteq> dest) (ps_relays s)"

definition push_event :: "u32 \<Rightarrow> path_event \<Rightarrow> path_service \<Rightarrow> path_service" where
  "push_event node ev s =
     (let queue = (case ps_pending s node of Some q \<Rightarrow> q | None \<Rightarrow> [])
      in s\<lparr>ps_pending := (ps_pending s)(node \<mapsto> (if length queue < PENDING_EVENTS_MAX then queue @ [ev] else queue))\<rparr>)"

definition push_to_participants :: "u32 \<Rightarrow> u32 \<Rightarrow> u32 list \<Rightarrow> path_set \<Rightarrow> path_service \<Rightarrow> path_service" where
  "push_to_participants source dest relays ps s =
     foldl (\<lambda>s participant. push_event participant (PathUpdate source dest ps) s)
       (push_event source (PathUpdate source dest ps) s) (dest # relays)"

text \<open>The relay loop of \<open>request\<close>: one candidate per relay, until the budget is reached.\<close>

fun relay_candidates :: "u32 \<Rightarrow> u32 \<Rightarrow> u64 \<Rightarrow> u32 list \<Rightarrow> path_candidate list \<Rightarrow> path_service
    \<Rightarrow> path_candidate list \<times> path_service" where
  "relay_candidates dest mx now [] cs s = (cs, s)"
| "relay_candidates dest mx now (relay # rs) cs s =
     (case new_candidate [relay, dest] now s of (c, s) \<Rightarrow>
        if unat (clamp_max mx) \<le> length (cs @ [c]) then (cs @ [c], s)
        else relay_candidates dest mx now rs (cs @ [c]) s)"

definition request :: "u32 \<Rightarrow> u32 \<Rightarrow> u32 \<Rightarrow> u64 \<Rightarrow> path_service \<Rightarrow> path_candidate list \<times> path_service" where
  "request source dest mx now s =
     (let relays = other_relays s source dest;
          rebuild =
            (let version = (case ps_map s (source, dest) of Some ps \<Rightarrow> set_version ps | None \<Rightarrow> 0) + 1;
                 (direct, s) = new_candidate [dest] now s;
                 (cs, s) = relay_candidates dest mx now relays [direct] s;
                 ps = \<lparr>set_version = version, candidates = cs, set_max = clamp_max mx\<rparr>;
                 s = push_to_participants source dest relays ps s
             in (cs, s\<lparr>ps_map := (ps_map s)((source, dest) \<mapsto> ps)\<rparr>))
      in case ps_map s (source, dest) of
           Some ps \<Rightarrow> if \<not> expired ps now then (candidates ps, push_to_participants source dest relays ps s) else rebuild
         | None \<Rightarrow> rebuild)"

text \<open>An event to each of a list of nodes, once per node (the \<open>seen\<close> set of the code).\<close>

fun push_once :: "path_event \<Rightarrow> u32 list \<Rightarrow> u32 list \<Rightarrow> path_service \<Rightarrow> path_service" where
  "push_once ev seen [] s = s"
| "push_once ev seen (t # ts) s =
     (if t \<in> set seen then push_once ev seen ts s else push_once ev (t # seen) ts (push_event t ev s))"

definition push_withdraw :: "u32 list \<Rightarrow> u32 \<Rightarrow> u64 \<Rightarrow> path_service \<Rightarrow> path_service" where
  "push_withdraw targets dest i s = push_once (PathWithdraw dest i) [] targets s"

definition withdraw_candidates :: "u32 \<Rightarrow> u32 \<Rightarrow> path_candidate list \<Rightarrow> path_service \<Rightarrow> path_service" where
  "withdraw_candidates source dest cs s =
     foldl (\<lambda>s c. push_withdraw ([source, dest] @ hops c) dest (path_id c) s) s cs"

definition withdraw_relay_in_set :: "u32 \<Rightarrow> u32 \<Rightarrow> u32 \<Rightarrow> path_service \<Rightarrow> path_service" where
  "withdraw_relay_in_set source dest node s =
     (case ps_map s (source, dest) of
        None \<Rightarrow> s
      | Some ps \<Rightarrow>
          let withdrawn = filter (\<lambda>c. node \<in> set (hops c)) (candidates ps) in
          if withdrawn = [] then s
          else
            let ps = ps\<lparr>candidates := filter (\<lambda>c. node \<notin> set (hops c)) (candidates ps), set_version := set_version ps + 1\<rparr>;
                remaining_empty = (candidates ps = []);
                s = s\<lparr>ps_map := (ps_map s)((source, dest) := (if remaining_empty then None else Some ps))\<rparr>;
                s = withdraw_candidates source dest withdrawn s
            in if remaining_empty then s
               else push_once (PathUpdate source dest ps) [] ([source, dest] @ concat (map hops (candidates ps))) s)"

definition touches :: "path_service \<Rightarrow> u32 \<Rightarrow> u32 \<times> u32 \<Rightarrow> bool" where
  "touches s node k = (case ps_map s k of Some ps \<Rightarrow> list_ex (\<lambda>c. node \<in> set (hops c)) (candidates ps) | None \<Rightarrow> False)"

definition withdraw_key :: "u32 \<Rightarrow> path_service \<Rightarrow> u32 \<times> u32 \<Rightarrow> path_service" where
  "withdraw_key node s k =
     (case k of (source, dest) \<Rightarrow>
        if source = node \<or> dest = node then
          (case ps_map s k of
             None \<Rightarrow> s
           | Some ps \<Rightarrow> withdraw_candidates source dest (candidates ps) (s\<lparr>ps_map := (ps_map s)(k := None)\<rparr>))
        else withdraw_relay_in_set source dest node s)"

definition withdraw_node :: "(u32 \<times> u32) list \<Rightarrow> u32 \<Rightarrow> path_service \<Rightarrow> path_service" where
  "withdraw_node ks node s =
     foldl (withdraw_key node) s (filter (\<lambda>k. fst k = node \<or> snd k = node \<or> touches s node k) ks)"

definition withdraw_relay :: "(u32 \<times> u32) list \<Rightarrow> u32 \<Rightarrow> path_service \<Rightarrow> path_service" where
  "withdraw_relay ks node s =
     foldl (\<lambda>s (source, dest). withdraw_relay_in_set source dest node s) s (filter (touches s node) ks)"

text \<open>The three stages of \<open>expand_relay_candidates\<close> for one pair: the direct path, the relays still in the
  roster, the missing relays within the budget.\<close>

definition first_hop_is :: "u32 \<Rightarrow> path_candidate \<Rightarrow> bool" where
  "first_hop_is r c = (case hops c of [] \<Rightarrow> False | h # _ \<Rightarrow> h = r)"

fun fill_relays :: "u32 \<Rightarrow> nat \<Rightarrow> u64 \<Rightarrow> u32 list \<Rightarrow> path_candidate list \<Rightarrow> path_service
    \<Rightarrow> path_candidate list \<times> path_service" where
  "fill_relays dest budget now [] cs s = (cs, s)"
| "fill_relays dest budget now (relay # rs) cs s =
     (if budget \<le> length cs then (cs, s)
      else if list_ex (first_hop_is relay) cs then fill_relays dest budget now rs cs s
      else case new_candidate [relay, dest] now s of (c, s) \<Rightarrow> fill_relays dest budget now rs (cs @ [c]) s)"

definition kept_relays :: "u32 list \<Rightarrow> path_candidate list \<Rightarrow> path_candidate list" where
  "kept_relays relays cs = filter (\<lambda>c. 1 < length (hops c) \<and> hd (hops c) \<in> set relays) cs"

definition expand_key :: "u64 \<Rightarrow> path_service \<Rightarrow> u32 \<times> u32 \<Rightarrow> path_service" where
  "expand_key now s k =
     (case k of (source, dest) \<Rightarrow>
        let relays = other_relays s source dest in
        case ps_map s k of
          None \<Rightarrow> s
        | Some ps \<Rightarrow>
            if expired ps now then s
            else if list_all (\<lambda>r. list_ex (first_hop_is r) (candidates ps)) relays then s
            else
              let budget = unat (clamp_max (set_max ps));
                  direct = filter (\<lambda>c. length (hops c) = 1) (candidates ps);
                  (direct, s) = (if direct = [] then (case new_candidate [dest] now s of (c, s) \<Rightarrow> ([c], s)) else (direct, s));
                  (cs, s) = fill_relays dest budget now relays (direct @ kept_relays relays (candidates ps)) s;
                  new_set = \<lparr>set_version = set_version ps + 1, candidates = cs, set_max = set_max ps\<rparr>;
                  s = push_to_participants source dest relays new_set s
              in s\<lparr>ps_map := (ps_map s)(k \<mapsto> new_set)\<rparr>)"

definition expand_relay_candidates :: "(u32 \<times> u32) list \<Rightarrow> u64 \<Rightarrow> path_service \<Rightarrow> path_service" where
  "expand_relay_candidates ks now s = foldl (expand_key now) s ks"

definition take_events :: "u32 \<Rightarrow> path_service \<Rightarrow> path_event list \<times> path_service" where
  "take_events source s =
     ((case ps_pending s source of Some q \<Rightarrow> q | None \<Rightarrow> []), s\<lparr>ps_pending := (ps_pending s)(source := None)\<rparr>)"

definition persistent :: "(u32 \<times> u32) list \<Rightarrow> path_service \<Rightarrow> (u32 \<times> u32 \<times> path_set) list \<times> u64" where
  "persistent ks s =
     (sort_key (\<lambda>(a, d, _). (a, d)) (map (\<lambda>(a, d). (a, d, the (ps_map s (a, d)))) ks), ps_seq s)"

definition ps_restore :: "(u32 \<times> u32 \<rightharpoonup> path_set) \<Rightarrow> u64 \<Rightarrow> path_service \<Rightarrow> path_service" where
  "ps_restore m sq s = s\<lparr>ps_map := m, ps_seq := sq\<rparr>"

section \<open>Queues\<close>

definition queue :: "path_service \<Rightarrow> u32 \<Rightarrow> path_event list" where
  "queue s n = (case ps_pending s n of Some q \<Rightarrow> q | None \<Rightarrow> [])"

lemma push_event_frame [simp]:
  "ps_map (push_event n ev s) = ps_map s" "ps_seq (push_event n ev s) = ps_seq s" "ps_relays (push_event n ev s) = ps_relays s"
  by (simp_all add: push_event_def Let_def)

lemma queue_push_event:
  "queue (push_event n ev s) m = (if m = n \<and> length (queue s n) < 1024 then queue s n @ [ev] else queue s m)"
  by (simp add: queue_def push_event_def Let_def)

lemma queue_frame [simp]: "queue (s\<lparr>ps_map := m\<rparr>) = queue s" "queue (s\<lparr>ps_seq := q\<rparr>) = queue s" "queue (s\<lparr>ps_relays := rs\<rparr>) = queue s"
  by (simp_all add: queue_def fun_eq_iff)

text \<open>Queues only grow at the end, and never past their bound.\<close>

definition queued :: "path_service \<Rightarrow> path_service \<Rightarrow> bool" where
  "queued s s' \<longleftrightarrow> ps_map s' = ps_map s \<and> ps_seq s' = ps_seq s \<and> ps_relays s' = ps_relays s
     \<and> (\<forall>n. length (queue s n) \<le> 1024 \<longrightarrow> length (queue s' n) \<le> 1024) \<and> (\<forall>n. \<exists>q. queue s' n = queue s n @ q)"

lemma queued_refl [simp]: "queued s s"
  by (simp add: queued_def)

lemma queued_trans: "queued s t \<Longrightarrow> queued t u \<Longrightarrow> queued s u"
  unfolding queued_def by (metis append_assoc)

lemma queued_push_event: "queued s (push_event n ev s)"
  by (simp add: queued_def queue_push_event)

lemma queued_foldl: "(\<And>s x. queued s (f s x)) \<Longrightarrow> queued s (foldl f s xs)"
  by (induction xs arbitrary: s) (auto intro: queued_trans)

lemma queued_push_to_participants: "queued s (push_to_participants a d rs ps s)"
  unfolding push_to_participants_def by (rule queued_trans [OF queued_push_event queued_foldl]) (rule queued_push_event)

lemma queued_push_once: "queued s (push_once ev seen ts s)"
  by (induction ev seen ts s rule: push_once.induct) (auto intro: queued_trans queued_push_event)

lemma queued_withdraw_candidates: "queued s (withdraw_candidates a d cs s)"
  unfolding withdraw_candidates_def push_withdraw_def by (rule queued_foldl) (rule queued_push_once)

text \<open>A node that an event is pushed to has it in its queue, unless the queue is full.\<close>

definition delivered :: "path_event \<Rightarrow> u32 \<Rightarrow> path_service \<Rightarrow> bool" where
  "delivered ev n s \<longleftrightarrow> ev \<in> set (queue s n) \<or> 1024 \<le> length (queue s n)"

lemma delivered_queued: "delivered ev n s \<Longrightarrow> queued s s' \<Longrightarrow> delivered ev n s'"
  unfolding delivered_def queued_def by (metis UnCI le_add1 le_trans length_append set_append)

lemma delivered_push_event [simp]: "delivered ev n (push_event n ev s)"
  by (simp add: delivered_def queue_push_event)

lemma delivered_push_once: "t \<in> set ts \<Longrightarrow> t \<notin> set seen \<Longrightarrow> delivered ev t (push_once ev seen ts s)"
  by (induction ev seen ts s rule: push_once.induct)
    (auto intro: delivered_queued [OF delivered_push_event queued_push_once])

lemma delivered_withdraw_candidates:
  assumes "c \<in> set cs" and "t \<in> {a, d} \<union> set (hops c)"
  shows "delivered (PathWithdraw d (path_id c)) t (withdraw_candidates a d cs s)"
proof -
  have "delivered (PathWithdraw d (path_id c)) t (withdraw_candidates a d [c] s1)" for s1
    using delivered_push_once [of t "[a, d] @ hops c" "[]"] assms(2) by (auto simp: withdraw_candidates_def push_withdraw_def simp del: push_once.simps)
  moreover obtain xs ys where "cs = xs @ c # ys" using assms(1) by (auto simp: in_set_conv_decomp)
  then have "withdraw_candidates a d cs s = withdraw_candidates a d ys (withdraw_candidates a d [c] (withdraw_candidates a d xs s))"
    by (simp add: withdraw_candidates_def)
  ultimately show ?thesis using delivered_queued queued_withdraw_candidates by metis
qed

section \<open>Fresh path ids\<close>

definition fresh :: "path_service \<Rightarrow> path_candidate list \<Rightarrow> path_service \<Rightarrow> bool" where
  "fresh s cs s' \<longleftrightarrow> s' = s\<lparr>ps_seq := ps_seq s'\<rparr> \<and> unat (ps_seq s') = unat (ps_seq s) + length cs
     \<and> distinct (map path_id cs) \<and> path_id ` set cs \<subseteq> {ps_seq s <.. ps_seq s'}"

lemma fresh_nil [simp]: "fresh s [] s' \<longleftrightarrow> s' = s"
  by (cases s; cases s') (auto simp: fresh_def simp flip: word_unat_eq_iff)

lemma fresh_append:
  assumes "fresh s cs t" and "fresh t ds u"
  shows "fresh s (cs @ ds) u"
proof -
  have "u = s\<lparr>ps_seq := ps_seq u\<rparr>" using assms by (cases s; cases t; cases u) (simp add: fresh_def)
  moreover have "ps_seq s \<le> ps_seq t" "ps_seq t \<le> ps_seq u" using assms by (simp_all add: fresh_def word_le_nat_alt)
  moreover from this assms have "path_id ` set cs \<inter> path_id ` set ds = {}" unfolding fresh_def by fastforce
  ultimately show ?thesis using assms unfolding fresh_def by (fastforce simp: distinct_append)
qed

lemma fresh_new_candidate:
  assumes "new_candidate hs now s = (c, s')" and "unat (ps_seq s) + 1 < 2 ^ 64"
  shows "fresh s [c] s'" "hops c = hs"
proof -
  have "unat (ps_seq s + 1) = unat (ps_seq s) + 1" using assms(2) by (simp add: unat_word_ariths)
  then show "fresh s [c] s'" "hops c = hs"
    using assms(1) by (auto simp: new_candidate_def alloc_path_id_def fresh_def word_less_nat_alt)
qed

lemma fresh_relay_candidates:
  assumes "relay_candidates d mx now rs cs s = (cs', s')" and "length cs < unat (clamp_max mx)"
    and "unat (ps_seq s) + (unat (clamp_max mx) - length cs) < 2 ^ 64"
  shows "\<exists>new. cs' = cs @ new \<and> fresh s new s' \<and> length cs' \<le> unat (clamp_max mx) \<and> (\<forall>c \<in> set new. \<exists>r \<in> set rs. hops c = [r, d])"
  using assms
proof (induction rs arbitrary: cs s)
  case (Cons r rs)
  obtain c t where c: "new_candidate [r, d] now s = (c, t)" by fastforce
  have f: "fresh s [c] t" "hops c = [r, d]" using fresh_new_candidate [OF c] Cons.prems by auto
  show ?case
  proof (cases "unat (clamp_max mx) \<le> length (cs @ [c])")
    case True
    then show ?thesis using Cons.prems c f by (intro exI [of _ "[c]"]) auto
  next
    case False
    then obtain new where "cs' = (cs @ [c]) @ new" "fresh t new s'" "length cs' \<le> unat (clamp_max mx)"
      "\<forall>c \<in> set new. \<exists>r \<in> set rs. hops c = [r, d]"
      using Cons.IH [of "cs @ [c]" t] Cons.prems c f by (auto simp: fresh_def)
    then show ?thesis using fresh_append [OF f(1)] f(2) by (intro exI [of _ "c # new"]) auto
  qed
qed simp

lemma fresh_fill_relays:
  assumes "fill_relays d b now rs cs s = (cs', s')" and "length cs \<le> b" and "unat (ps_seq s) + (b - length cs) < 2 ^ 64"
  shows "\<exists>new. cs' = cs @ new \<and> fresh s new s' \<and> length cs' \<le> b \<and> (\<forall>c \<in> set new. \<exists>r \<in> set rs. hops c = [r, d])"
  using assms
proof (induction rs arbitrary: cs s)
  case (Cons r rs)
  consider "b \<le> length cs" | "length cs < b" "list_ex (first_hop_is r) cs" | "length cs < b" "\<not> list_ex (first_hop_is r) cs" by linarith
  then show ?case
  proof cases
    case 2
    then show ?thesis using Cons.IH [of cs s] Cons.prems by auto
  next
    case 3
    obtain c t where c: "new_candidate [r, d] now s = (c, t)" by fastforce
    have f: "fresh s [c] t" "hops c = [r, d]" using fresh_new_candidate [OF c] Cons.prems 3 by auto
    obtain new where "cs' = (cs @ [c]) @ new" "fresh t new s'" "length cs' \<le> b" "\<forall>c \<in> set new. \<exists>r \<in> set rs. hops c = [r, d]"
      using Cons.IH [of "cs @ [c]" t] Cons.prems c f 3 by (auto simp: fresh_def)
    then show ?thesis using fresh_append [OF f(1)] f(2) by (intro exI [of _ "c # new"]) auto
  qed (use Cons.prems in auto)
qed simp

section \<open>The invariant\<close>

text \<open>A set has the direct path first, then paths over one relay that is neither end, within the budget of the
  request; ids are distinct in a set and between sets, positive and not above the allocator; queues are bounded.\<close>

definition set_ok :: "u32 \<times> u32 \<Rightarrow> path_set \<Rightarrow> bool" where
  "set_ok k ps \<longleftrightarrow>
     (\<exists>c cs. candidates ps = c # cs \<and> hops c = [snd k]
        \<and> (\<forall>c \<in> set cs. \<exists>r. r \<noteq> fst k \<and> r \<noteq> snd k \<and> hops c = [r, snd k]))
     \<and> length (candidates ps) \<le> unat (clamp_max (set_max ps)) \<and> distinct (map path_id (candidates ps))"

definition ids :: "path_set \<Rightarrow> u64 set" where
  "ids ps = path_id ` set (candidates ps)"

definition paths_ok :: "path_service \<Rightarrow> bool" where
  "paths_ok s \<longleftrightarrow>
     (\<forall>k ps. ps_map s k = Some ps \<longrightarrow> set_ok k ps \<and> ids ps \<subseteq> {0 <.. ps_seq s})
     \<and> (\<forall>k k' ps ps'. ps_map s k = Some ps \<and> ps_map s k' = Some ps' \<and> k \<noteq> k' \<longrightarrow> ids ps \<inter> ids ps' = {})
     \<and> (\<forall>n. length (queue s n) \<le> 1024)"

lemma paths_okD:
  assumes "paths_ok s"
  shows "ps_map s k = Some ps \<Longrightarrow> set_ok k ps" "ps_map s k = Some ps \<Longrightarrow> i \<in> ids ps \<Longrightarrow> 0 < i \<and> i \<le> ps_seq s"
    "ps_map s k = Some ps \<Longrightarrow> ps_map s k' = Some ps' \<Longrightarrow> k \<noteq> k' \<Longrightarrow> ids ps \<inter> ids ps' = {}"
    "length (queue s n) \<le> 1024"
  using assms unfolding paths_ok_def greaterThanAtMost_iff subset_iff by blast+

lemma paths_okI:
  assumes "\<And>k ps. ps_map s k = Some ps \<Longrightarrow> set_ok k ps" "\<And>k ps i. ps_map s k = Some ps \<Longrightarrow> i \<in> ids ps \<Longrightarrow> 0 < i \<and> i \<le> ps_seq s"
    "\<And>k ps k' ps'. ps_map s k = Some ps \<Longrightarrow> ps_map s k' = Some ps' \<Longrightarrow> k \<noteq> k' \<Longrightarrow> ids ps \<inter> ids ps' = {}"
    "\<And>n. length (queue s n) \<le> 1024"
  shows "paths_ok s"
  using assms unfolding paths_ok_def greaterThanAtMost_iff subset_iff by blast

lemma paths_ok_put:
  assumes ok: "paths_ok s" and le: "ps_seq s \<le> ps_seq s'" and m: "ps_map s' = (ps_map s)(k \<mapsto> ps)" and "set_ok k ps"
    and new: "\<And>i. i \<in> ids ps \<Longrightarrow> (\<exists>old. ps_map s k = Some old \<and> i \<in> ids old) \<or> ps_seq s < i \<and> i \<le> ps_seq s'"
    and "\<And>n. length (queue s' n) \<le> 1024"
  shows "paths_ok s'"
proof (rule paths_okI)
  show "set_ok j q" if "ps_map s' j = Some q" for j q
    using that assms(4) paths_okD(1) [OF ok, of j] by (auto simp: m split: if_splits)
  have new0: "0 < i \<and> i \<le> ps_seq s'" if "i \<in> ids ps" for i
    using new [OF that] paths_okD(2) [OF ok, of k] le by (auto intro: order.trans le_less_trans [OF word_zero_le])
  then show "0 < i \<and> i \<le> ps_seq s'" if "ps_map s' j = Some q" "i \<in> ids q" for j q i
    using that paths_okD(2) [OF ok, of j q i] le by (auto simp: m split: if_splits)
  have d: "ids ps \<inter> ids q = {}" if "ps_map s j = Some q" "j \<noteq> k" for j q
  proof -
    have "i \<notin> ids q" if "i \<in> ids ps" for i
      using new [OF that] paths_okD(3) [OF ok _ \<open>ps_map s j = Some q\<close>] paths_okD(2) [OF ok \<open>ps_map s j = Some q\<close>, of i] \<open>j \<noteq> k\<close>
      by (metis disjoint_iff linorder_not_le)
    then show ?thesis by blast
  qed
  show "ids q \<inter> ids q' = {}" if "ps_map s' j = Some q" "ps_map s' j' = Some q'" "j \<noteq> j'" for j q j' q'
    using that d [of j q] d [of j' q'] paths_okD(3) [OF ok, of j q j' q'] by (auto simp: m split: if_splits)
qed (fact assms(6))

lemma paths_ok_del:
  assumes ok: "paths_ok s" and "ps_seq s' = ps_seq s" and "ps_map s' = (ps_map s)(k := None)" and "\<And>n. length (queue s' n) \<le> 1024"
  shows "paths_ok s'"
proof (rule paths_okI)
  have m: "ps_map s' j = Some q \<Longrightarrow> ps_map s j = Some q" for j q by (simp add: assms(3) split: if_splits)
  show "set_ok j q" if "ps_map s' j = Some q" for j q using paths_okD(1) [OF ok m [OF that]] .
  show "0 < i \<and> i \<le> ps_seq s'" if "ps_map s' j = Some q" "i \<in> ids q" for j q i
    using paths_okD(2) [OF ok m [OF that(1)] that(2)] by (simp add: assms(2))
  show "ids q \<inter> ids q' = {}" if "ps_map s' j = Some q" "ps_map s' j' = Some q'" "j \<noteq> j'" for j q j' q'
    using paths_okD(3) [OF ok m [OF that(1)] m [OF that(2)] that(3)] .
qed (fact assms(4))

lemma paths_ok_queued: "paths_ok s \<Longrightarrow> queued s s' \<Longrightarrow> paths_ok s'"
  unfolding paths_ok_def queued_def by simp

lemma clamp_max_bounds: "2 \<le> unat (clamp_max m)" "unat (clamp_max m) \<le> 4" "clamp_max (clamp_max m) = clamp_max m"
  by (auto simp: clamp_max_def word_less_nat_alt)

lemma fresh_frame: "fresh s cs u \<Longrightarrow> ps_map u = ps_map s \<and> queue u = queue s \<and> ps_relays u = ps_relays s \<and> ps_seq s \<le> ps_seq u"
  by (cases u; cases s) (auto simp: fresh_def queue_def word_le_nat_alt fun_eq_iff)

lemma paths_ok_rebuilt:
  assumes ok: "paths_ok s" and f: "fresh s new u" and q: "queued u v" and "set_ok k ps"
    and i: "\<And>i. i \<in> ids ps \<Longrightarrow> i \<in> path_id ` set new \<or> (\<exists>old. ps_map s k = Some old \<and> i \<in> ids old)"
  shows "paths_ok (v\<lparr>ps_map := (ps_map v)(k \<mapsto> ps)\<rparr>)"
proof (rule paths_ok_put [OF ok])
  have v: "ps_map v = ps_map s" "ps_seq v = ps_seq u" using q fresh_frame [OF f] by (simp_all add: queued_def)
  show "ps_seq s \<le> ps_seq (v\<lparr>ps_map := (ps_map v)(k \<mapsto> ps)\<rparr>)" using v fresh_frame [OF f] by simp
  show "ps_map (v\<lparr>ps_map := (ps_map v)(k \<mapsto> ps)\<rparr>) = (ps_map s)(k \<mapsto> ps)" using v by simp
  show "length (queue (v\<lparr>ps_map := (ps_map v)(k \<mapsto> ps)\<rparr>) n) \<le> 1024" for n
    using q fresh_frame [OF f] paths_okD(4) [OF ok, of n] by (simp add: queued_def)
  show "(\<exists>old. ps_map s k = Some old \<and> i \<in> ids old) \<or> ps_seq s < i \<and> i \<le> ps_seq (v\<lparr>ps_map := (ps_map v)(k \<mapsto> ps)\<rparr>)"
    if "i \<in> ids ps" for i
    using i [OF that] f v by (auto simp: fresh_def)
qed (fact assms(4))

lemma paths_ok_request:
  assumes ok: "paths_ok s" and room: "unat (ps_seq s) + 4 < 2 ^ 64"
  shows "paths_ok (snd (request a d mx now s))"
proof (cases "case ps_map s (a, d) of None \<Rightarrow> True | Some ps \<Rightarrow> expired ps now")
  case False
  then obtain ps where "snd (request a d mx now s) = push_to_participants a d (other_relays s a d) ps s"
    by (auto simp: request_def split: option.splits)
  then show ?thesis using paths_ok_queued [OF ok queued_push_to_participants] by simp
next
  case True
  obtain c t where c: "new_candidate [d] now s = (c, t)" by fastforce
  obtain cs u where cs: "relay_candidates d mx now (other_relays s a d) [c] t = (cs, u)" by fastforce
  have fc: "fresh s [c] t" "hops c = [d]" using fresh_new_candidate [OF c] room by auto
  obtain new where new: "cs = [c] @ new" "fresh t new u" "length cs \<le> unat (clamp_max mx)"
    "\<forall>c \<in> set new. \<exists>r \<in> set (other_relays s a d). hops c = [r, d]"
    using fresh_relay_candidates [OF cs] clamp_max_bounds [of mx] fc room by (auto simp: fresh_def)
  have f: "fresh s cs u" using fresh_append [OF fc(1) new(2)] new(1) by simp
  define ps where "ps = \<lparr>set_version = (case ps_map s (a, d) of Some ps \<Rightarrow> set_version ps | None \<Rightarrow> 0) + 1,
    candidates = cs, set_max = clamp_max mx\<rparr>"
  define v where "v = push_to_participants a d (other_relays s a d) ps u"
  have v: "snd (request a d mx now s) = v\<lparr>ps_map := (ps_map v)((a, d) \<mapsto> ps)\<rparr>"
    using True c cs by (auto simp: request_def ps_def v_def Let_def split: option.splits)
  have q: "queued u v" unfolding v_def by (rule queued_push_to_participants)
  have "set_ok (a, d) ps"
    using new f fc(2) by (fastforce simp: set_ok_def ps_def fresh_def other_relays_def clamp_max_bounds)
  then show ?thesis unfolding v by (rule paths_ok_rebuilt [OF ok f q]) (simp add: ids_def ps_def)
qed

lemma set_ok_drop_relay:
  assumes "set_ok k ps" and "n \<noteq> snd k"
  shows "set_ok k (ps\<lparr>candidates := filter (\<lambda>c. n \<notin> set (hops c)) (candidates ps), set_version := v\<rparr>)"
proof -
  have "length (filter (\<lambda>c. n \<notin> set (hops c)) (candidates ps)) \<le> unat (clamp_max (set_max ps))"
    using assms(1) length_filter_le [of _ "candidates ps"] unfolding set_ok_def by (meson le_trans)
  then show ?thesis using assms by (auto simp: set_ok_def distinct_map_filter)
qed

text \<open>What removing a relay from a set does to the map: the candidates over that node go, an empty set goes.\<close>

definition without :: "u32 \<Rightarrow> path_set \<Rightarrow> path_set option" where
  "without n ps =
     (if list_all (\<lambda>c. n \<notin> set (hops c)) (candidates ps) then Some ps
      else if list_all (\<lambda>c. n \<in> set (hops c)) (candidates ps) then None
      else Some (ps\<lparr>candidates := filter (\<lambda>c. n \<notin> set (hops c)) (candidates ps), set_version := set_version ps + 1\<rparr>))"

lemma withdraw_relay_in_set_effect:
  "queued (s\<lparr>ps_map := (ps_map s)((a, d) := Option.bind (ps_map s (a, d)) (without n))\<rparr>) (withdraw_relay_in_set a d n s)"
proof (cases "ps_map s (a, d)")
  case None
  then show ?thesis by (simp add: withdraw_relay_in_set_def fun_upd_idem)
next
  case (Some ps)
  let ?w = "filter (\<lambda>c. n \<in> set (hops c)) (candidates ps)"
  have w: "?w = [] \<longleftrightarrow> list_all (\<lambda>c. n \<notin> set (hops c)) (candidates ps)"
    "filter (\<lambda>c. n \<notin> set (hops c)) (candidates ps) = [] \<longleftrightarrow> list_all (\<lambda>c. n \<in> set (hops c)) (candidates ps)"
    by (simp_all add: filter_empty_conv list_all_iff)
  show ?thesis
  proof (cases "?w = []")
    case True
    then show ?thesis using Some w by (simp add: withdraw_relay_in_set_def without_def fun_upd_idem Let_def)
  next
    case False
    then show ?thesis
      using Some w
      by (auto simp: withdraw_relay_in_set_def without_def Let_def simp del: push_once.simps
          intro: queued_withdraw_candidates queued_trans [OF queued_withdraw_candidates queued_push_once])
  qed
qed

lemma without_ok:
  assumes "set_ok k ps" and "without n ps = Some ps'"
  shows "set_ok k ps'" "ids ps' \<subseteq> ids ps"
proof -
  have "n \<noteq> snd k \<or> ps' = ps"
    using assms by (fastforce simp: set_ok_def without_def list_all_iff split: if_splits)
  then show "set_ok k ps'" "ids ps' \<subseteq> ids ps"
    using assms set_ok_drop_relay [OF assms(1)] by (auto simp: without_def ids_def split: if_splits)
qed

lemma paths_ok_bind:
  assumes ok: "paths_ok s" and h: "\<And>ps ps'. set_ok k ps \<Longrightarrow> h ps = Some ps' \<Longrightarrow> set_ok k ps' \<and> ids ps' \<subseteq> ids ps"
  shows "paths_ok (s\<lparr>ps_map := (ps_map s)(k := Option.bind (ps_map s k) h)\<rparr>)"
proof (cases "Option.bind (ps_map s k) h")
  case None
  then show ?thesis by (simp add: paths_ok_del [OF ok, where k = k] paths_okD(4) [OF ok])
next
  case (Some ps')
  then obtain ps where ps: "ps_map s k = Some ps" "h ps = Some ps'" by (auto simp: bind_eq_Some_conv)
  then show ?thesis
    using h [OF paths_okD(1) [OF ok ps(1)] ps(2)] Some
    by (auto intro!: paths_ok_put [OF ok, where k = k and ps = ps'] simp: paths_okD(4) [OF ok])
qed

lemma paths_ok_withdraw_relay_in_set: "paths_ok s \<Longrightarrow> paths_ok (withdraw_relay_in_set a d n s)"
  by (rule paths_ok_queued [OF paths_ok_bind withdraw_relay_in_set_effect]) (auto dest: without_ok)

text \<open>The pair's set after \<open>withdraw_key\<close>: gone if the node is an end, else without the candidates over it.\<close>

definition withdrawn_set :: "u32 \<Rightarrow> u32 \<times> u32 \<Rightarrow> path_set \<Rightarrow> path_set option" where
  "withdrawn_set n k ps = (if fst k = n \<or> snd k = n then None else without n ps)"

lemma withdraw_key_effect: "queued (s\<lparr>ps_map := (ps_map s)(k := Option.bind (ps_map s k) (withdrawn_set n k))\<rparr>) (withdraw_key n s k)"
proof (cases "fst k = n \<or> snd k = n")
  case True
  then have "Option.bind (ps_map s k) (withdrawn_set n k) = None" by (cases "ps_map s k") (auto simp: withdrawn_set_def)
  then show ?thesis using True by (cases k) (auto simp: withdraw_key_def fun_upd_idem queued_withdraw_candidates split: option.split)
next
  case False
  then have "withdrawn_set n k = without n" by (simp add: withdrawn_set_def fun_eq_iff)
  then show ?thesis using withdraw_relay_in_set_effect [of s "fst k" "snd k" n] False by (cases k) (auto simp: withdraw_key_def)
qed

lemma paths_ok_withdraw_key: "paths_ok s \<Longrightarrow> paths_ok (withdraw_key n s k)"
  by (rule paths_ok_queued [OF paths_ok_bind withdraw_key_effect]) (auto simp: withdrawn_set_def dest: without_ok split: if_splits)

lemma foldl_inv: "P s \<Longrightarrow> (\<And>s x. P s \<Longrightarrow> P (f s x)) \<Longrightarrow> P (foldl f s xs)"
  by (induction xs arbitrary: s) simp_all

lemma paths_ok_withdraw_node: "paths_ok s \<Longrightarrow> paths_ok (withdraw_node ks n s)"
  unfolding withdraw_node_def by (erule foldl_inv) (rule paths_ok_withdraw_key)

lemma paths_ok_withdraw_relay: "paths_ok s \<Longrightarrow> paths_ok (withdraw_relay ks n s)"
  unfolding withdraw_relay_def by (erule foldl_inv) (simp add: paths_ok_withdraw_relay_in_set split: prod.split)

lemma direct_of_ok:
  assumes "set_ok k ps"
  shows "\<exists>c cs. candidates ps = c # cs \<and> hops c = [snd k] \<and> filter (\<lambda>c. length (hops c) = 1) (candidates ps) = [c]
    \<and> kept_relays rs (candidates ps) = filter (\<lambda>c. hd (hops c) \<in> set rs) cs"
proof -
  obtain c cs where c: "candidates ps = c # cs" "hops c = [snd k]" "\<forall>c \<in> set cs. \<exists>r. r \<noteq> fst k \<and> r \<noteq> snd k \<and> hops c = [r, snd k]"
    using assms by (auto simp: set_ok_def)
  moreover from c(3) have "filter (\<lambda>c. length (hops c) = 1) cs = []" by (auto simp: filter_empty_conv)
  moreover from c(3) have "filter (\<lambda>c. 1 < length (hops c) \<and> hd (hops c) \<in> set rs) cs = filter (\<lambda>c. hd (hops c) \<in> set rs) cs"
    by (intro filter_cong) auto
  ultimately show ?thesis by (simp add: kept_relays_def)
qed

lemma expand_keeps:
  assumes "set_ok k ps"
  shows "\<exists>c cs. filter (\<lambda>c. length (hops c) = 1) (candidates ps) @ kept_relays rs (candidates ps) = c # cs
    \<and> hops c = [snd k] \<and> (\<forall>c \<in> set cs. \<exists>r. r \<noteq> fst k \<and> r \<noteq> snd k \<and> hops c = [r, snd k])
    \<and> length (c # cs) \<le> unat (clamp_max (set_max ps)) \<and> distinct (map path_id (c # cs)) \<and> set (c # cs) \<subseteq> set (candidates ps)"
proof -
  obtain c cs where c: "candidates ps = c # cs" "hops c = [snd k]" "filter (\<lambda>c. length (hops c) = 1) (candidates ps) = [c]"
    "kept_relays rs (candidates ps) = filter (\<lambda>c. hd (hops c) \<in> set rs) cs" using direct_of_ok [OF assms] by blast
  have "Suc (length cs) \<le> unat (clamp_max (set_max ps))" using assms c(1) by (simp add: set_ok_def)
  then have "Suc (length (filter (\<lambda>c. hd (hops c) \<in> set rs) cs)) \<le> unat (clamp_max (set_max ps))"
    using length_filter_le [of _ cs] by (meson Suc_le_mono le_trans)
  with assms c show ?thesis by (auto simp: set_ok_def distinct_map_filter)
qed

lemma paths_ok_expand_key:
  assumes ok: "paths_ok s" and room: "unat (ps_seq s) + 4 < 2 ^ 64"
  shows "paths_ok (expand_key now s k)" "unat (ps_seq (expand_key now s k)) \<le> unat (ps_seq s) + 4"
proof -
  have "paths_ok (expand_key now s k) \<and> unat (ps_seq (expand_key now s k)) \<le> unat (ps_seq s) + 4"
  proof (cases "expand_key now s k = s")
    case False
    then obtain ps where ps: "ps_map s k = Some ps" by (cases k; cases "ps_map s k") (auto simp: expand_key_def)
    let ?rs = "other_relays s (fst k) (snd k)" and ?b = "unat (clamp_max (set_max ps))"
    let ?old = "filter (\<lambda>c. length (hops c) = 1) (candidates ps) @ kept_relays ?rs (candidates ps)"
    obtain cs u where cs: "fill_relays (snd k) ?b now ?rs ?old s = (cs, u)" by fastforce
    obtain c rest where old: "?old = c # rest" "hops c = [snd k]" "\<forall>c \<in> set rest. \<exists>r. r \<noteq> fst k \<and> r \<noteq> snd k \<and> hops c = [r, snd k]"
      "length (c # rest) \<le> ?b" "distinct (map path_id (c # rest))" "set (c # rest) \<subseteq> set (candidates ps)"
      using expand_keeps [OF paths_okD(1) [OF ok ps], of ?rs] by auto
    have room': "unat (ps_seq s) + (?b - length (c # rest)) < 2 ^ 64" using clamp_max_bounds(2) [of "set_max ps"] room by linarith
    obtain new where new: "cs = (c # rest) @ new" "fresh s new u" "length cs \<le> ?b"
      "\<forall>c \<in> set new. \<exists>r \<in> set ?rs. hops c = [r, snd k]"
      using fresh_fill_relays [OF cs [unfolded old(1)] old(4) room'] by auto
    define ps' where "ps' = \<lparr>set_version = set_version ps + 1, candidates = cs, set_max = set_max ps\<rparr>"
    define v where "v = push_to_participants (fst k) (snd k) ?rs ps' u"
    have v: "expand_key now s k = v\<lparr>ps_map := (ps_map v)(k \<mapsto> ps')\<rparr>"
      using False ps cs direct_of_ok [OF paths_okD(1) [OF ok ps]]
      by (cases k) (auto simp: expand_key_def Let_def ps'_def v_def split: if_splits)
    have q: "queued u v" unfolding v_def by (rule queued_push_to_participants)
    have old_le: "i \<le> ps_seq s" if "i \<in> path_id ` set (c # rest)" for i
      using paths_okD(2) [OF ok ps, of i] that old(6) by (auto simp: ids_def)
    have "path_id ` set (c # rest) \<inter> path_id ` set new = {}"
      using new(2) old_le unfolding fresh_def disjoint_iff subset_iff greaterThanAtMost_iff by (meson linorder_not_le)
    then have "distinct (map path_id cs)" using new(1,2) old(5) by (auto simp: fresh_def)
    then have "set_ok k ps'"
      using new old(2,3) by (fastforce simp: set_ok_def ps'_def other_relays_def)
    then have "paths_ok (expand_key now s k)"
      unfolding v using old(6) new(1) ps by (intro paths_ok_rebuilt [OF ok new(2) q]) (auto simp: ids_def ps'_def)
    moreover have "length new \<le> 4" using new(1,3) clamp_max_bounds [of "set_max ps"] by simp
    then have "unat (ps_seq (expand_key now s k)) \<le> unat (ps_seq s) + 4" using v q new(2) by (simp add: queued_def fresh_def)
    ultimately show ?thesis ..
  qed (simp add: ok)
  then show "paths_ok (expand_key now s k)" "unat (ps_seq (expand_key now s k)) \<le> unat (ps_seq s) + 4" by simp_all
qed

section \<open>Runs of the service\<close>

datatype path_op = Request u32 u32 u32 u64 | SetRelays "u32 list" | WithdrawNode "(u32 \<times> u32) list" u32
  | WithdrawRelay "(u32 \<times> u32) list" u32 | Expand "(u32 \<times> u32) list" u64 | Take u32

fun path_step :: "path_service \<Rightarrow> path_op \<Rightarrow> path_service" where
  "path_step s (Request a d mx now) = snd (request a d mx now s)"
| "path_step s (SetRelays rs) = set_relays rs s"
| "path_step s (WithdrawNode ks n) = withdraw_node ks n s"
| "path_step s (WithdrawRelay ks n) = withdraw_relay ks n s"
| "path_step s (Expand ks now) = expand_relay_candidates ks now s"
| "path_step s (Take n) = snd (take_events n s)"

text \<open>The 64-bit allocator has ids left for what an operation may allocate.\<close>

fun ids_left :: "path_service \<Rightarrow> path_op \<Rightarrow> bool" where
  "ids_left s (Request _ _ _ _) \<longleftrightarrow> unat (ps_seq s) + 4 < 2 ^ 64"
| "ids_left s (Expand ks _) \<longleftrightarrow> unat (ps_seq s) + 4 * length ks < 2 ^ 64"
| "ids_left s _ \<longleftrightarrow> True"

lemma paths_ok_expand:
  "paths_ok s \<Longrightarrow> unat (ps_seq s) + 4 * length ks < 2 ^ 64 \<Longrightarrow> paths_ok (expand_relay_candidates ks now s)"
  unfolding expand_relay_candidates_def
proof (induction ks arbitrary: s)
  case (Cons k ks)
  then have "paths_ok (expand_key now s k)" "unat (ps_seq (expand_key now s k)) \<le> unat (ps_seq s) + 4"
    using paths_ok_expand_key [of s now k] by auto
  then show ?case using Cons.IH [of "expand_key now s k"] Cons.prems by simp
qed simp

lemma paths_ok_step: "paths_ok s \<Longrightarrow> ids_left s p \<Longrightarrow> paths_ok (path_step s p)"
  by (cases p)
    (auto simp: paths_ok_request paths_ok_withdraw_node paths_ok_withdraw_relay paths_ok_expand,
      simp_all add: paths_ok_def set_relays_def take_events_def queue_def)

interpretation paths: invariant_machine path_step paths_ok ids_left
  by unfold_locales (rule paths_ok_step)

lemma path_service_new_ok: "paths_ok path_service_new"
  by (simp add: paths_ok_def path_service_new_def queue_def)

text \<open>C21: In every state the path service can reach, as long as the 64-bit allocator is not exhausted, a pair of nodes
  has two kinds of candidates only: the direct path first, then paths over one relay that is neither end, at most
  four in all. No path id is shared by two candidates anywhere in the map, none is 0 or above the allocator, and no
  queue of pending events exceeds 1024.\<close>

theorem reachable_paths_ok:
  assumes "paths.guarded path_service_new ops" and "s = foldl path_step path_service_new ops" and "ps_map s (a, d) = Some ps"
  shows "length (candidates ps) \<le> 4 \<and> hops (hd (candidates ps)) = [d]
    \<and> list_all (\<lambda>c. \<exists>r. r \<noteq> a \<and> r \<noteq> d \<and> hops c = [r, d]) (tl (candidates ps))
    \<and> distinct (map path_id (candidates ps)) \<and> path_id ` set (candidates ps) \<subseteq> {0 <.. ps_seq s}
    \<and> (ps_map s (a', d') = Some ps' \<and> (a', d') \<noteq> (a, d) \<longrightarrow> path_id ` set (candidates ps') \<inter> path_id ` set (candidates ps) = {})
    \<and> length (queue s n) \<le> 1024"
proof -
  have ok: "paths_ok s" unfolding assms(2) by (rule paths.run_inv [OF path_service_new_ok assms(1)])
  have "length (candidates ps) \<le> 4"
    using paths_okD(1) [OF ok assms(3)] clamp_max_bounds(2) [of "set_max ps"] by (auto simp: set_ok_def)
  moreover have "hops (hd (candidates ps)) = [d]" "list_all (\<lambda>c. \<exists>r. r \<noteq> a \<and> r \<noteq> d \<and> hops c = [r, d]) (tl (candidates ps))"
    "distinct (map path_id (candidates ps))"
    using paths_okD(1) [OF ok assms(3)] by (auto simp: set_ok_def list_all_iff)
  moreover have "path_id ` set (candidates ps) \<subseteq> {0 <.. ps_seq s}" using paths_okD(2) [OF ok assms(3)] by (auto simp: ids_def)
  moreover have "path_id ` set (candidates ps') \<inter> path_id ` set (candidates ps) = {}"
    if "ps_map s (a', d') = Some ps'" "(a', d') \<noteq> (a, d)"
    using paths_okD(3) [OF ok that(1) assms(3) that(2)] by (simp add: ids_def)
  ultimately show ?thesis using paths_okD(4) [OF ok] by blast
qed

definition ex_path_ops :: "path_op list" where
  "ex_path_ops = [SetRelays [5, 6], Request 1 2 4 100, Request 3 2 2 100]"

definition ex_paths :: path_service where
  "ex_paths = foldl path_step path_service_new ex_path_ops"

lemma ex_paths_eval:
  "ps_map ex_paths (1, 2) = Some \<lparr>set_version = 1, candidates =
     [\<lparr>path_id = 1, path_epoch = 1, hops = [2], expires_at = 3700\<rparr>, \<lparr>path_id = 2, path_epoch = 1, hops = [5, 2], expires_at = 3700\<rparr>,
      \<lparr>path_id = 3, path_epoch = 1, hops = [6, 2], expires_at = 3700\<rparr>], set_max = 4\<rparr>"
  "ps_map ex_paths (3, 2) = Some \<lparr>set_version = 1, candidates =
     [\<lparr>path_id = 4, path_epoch = 1, hops = [2], expires_at = 3700\<rparr>, \<lparr>path_id = 5, path_epoch = 1, hops = [5, 2], expires_at = 3700\<rparr>],
      set_max = 2\<rparr>"
  "paths.guarded path_service_new ex_path_ops"
  by (simp_all add: ex_paths_def ex_path_ops_def path_service_new_def set_relays_def request_def other_relays_def new_candidate_def
      alloc_path_id_def clamp_max_def push_to_participants_def push_event_def Let_def)

theorem reachable_paths_ok_witness:
  "path_id ` set (candidates (the (ps_map ex_paths (3, 2)))) \<inter> path_id ` set (candidates (the (ps_map ex_paths (1, 2)))) = {}"
  using reachable_paths_ok [OF ex_paths_eval(3) ex_paths_def ex_paths_eval(1)] ex_paths_eval by simp

section \<open>Revocation reaches every path and every participant\<close>

lemma ps_map_withdraw_key: "ps_map (withdraw_key n s k) = (ps_map s)(k := Option.bind (ps_map s k) (withdrawn_set n k))"
  using withdraw_key_effect [of s k n] by (simp add: queued_def)

lemma ps_map_withdraw_keys:
  "distinct ks \<Longrightarrow> ps_map (foldl (withdraw_key n) s ks) k = (if k \<in> set ks then Option.bind (ps_map s k) (withdrawn_set n k) else ps_map s k)"
  by (induction ks arbitrary: s) (auto simp: ps_map_withdraw_key)

lemma delivered_frame [simp]: "delivered ev t (s\<lparr>ps_map := m\<rparr>) = delivered ev t s"
  by (simp add: delivered_def)

lemma delivered_withdraw_keys: "delivered ev t s \<Longrightarrow> delivered ev t (foldl (withdraw_key n) s ks)"
  by (rule foldl_inv) (auto intro: delivered_queued [OF _ withdraw_key_effect])

lemma delivered_withdraw_relay_in_set:
  assumes "ps_map s (a, d) = Some ps" and "c \<in> set (candidates ps)" and "n \<in> set (hops c)" and "t \<in> {a, d} \<union> set (hops c)"
  shows "delivered (PathWithdraw d (path_id c)) t (withdraw_relay_in_set a d n s)"
proof -
  let ?w = "filter (\<lambda>c. n \<in> set (hops c)) (candidates ps)"
  have c: "c \<in> set ?w" using assms by simp
  then have "?w \<noteq> []" by (metis empty_iff empty_set)
  then show ?thesis
    using assms(1) delivered_withdraw_candidates [OF c assms(4)]
    by (auto simp: withdraw_relay_in_set_def Let_def simp del: push_once.simps intro: delivered_queued [OF _ queued_push_once])
qed

lemma delivered_withdraw_key:
  assumes "ps_map s (a, d) = Some ps" and "c \<in> set (candidates ps)" and "n \<in> {a, d} \<union> set (hops c)" and "t \<in> {a, d} \<union> set (hops c)"
  shows "delivered (PathWithdraw d (path_id c)) t (withdraw_key n s (a, d))"
  using assms delivered_withdraw_candidates [OF assms(2,4)] delivered_withdraw_relay_in_set [OF assms(1,2) _ assms(4), of n]
  by (auto simp: withdraw_key_def)

lemma withdrawn_set_spec:
  "withdrawn_set n (a, d) ps = Some ps' \<Longrightarrow>
     a \<noteq> n \<and> d \<noteq> n \<and> set (candidates ps') = {c \<in> set (candidates ps). n \<notin> set (hops c)}"
  by (auto simp: withdrawn_set_def without_def list_all_iff split: if_splits)

lemma withdrawn_set_keeps:
  assumes "c \<in> set (candidates ps)" and "n \<notin> {a, d} \<union> set (hops c)"
  shows "\<exists>ps'. withdrawn_set n (a, d) ps = Some ps' \<and> c \<in> set (candidates ps')"
  using assms by (auto simp: withdrawn_set_def without_def list_all_iff)

lemma ps_map_withdraw_node:
  assumes "distinct ks" and "dom (ps_map s) \<subseteq> set ks"
  shows "ps_map (withdraw_node ks n s) k = Option.bind (ps_map s k) (withdrawn_set n k)"
proof (cases "fst k = n \<or> snd k = n \<or> touches s n k")
  case True
  then show ?thesis using assms by (cases "ps_map s k") (auto simp: withdraw_node_def ps_map_withdraw_keys)
next
  case False
  then have "ps_map s k = Some ps \<Longrightarrow> withdrawn_set n k ps = Some ps" for ps
    by (auto simp: touches_def withdrawn_set_def without_def list_all_iff list_ex_iff)
  then show ?thesis using assms False by (cases "ps_map s k") (auto simp: withdraw_node_def ps_map_withdraw_keys)
qed

lemma delivered_withdraw_node:
  assumes "distinct ks" and "(a, d) \<in> set ks" and "ps_map s (a, d) = Some ps" and "c \<in> set (candidates ps)"
    and "n \<in> {a, d} \<union> set (hops c)" and "t \<in> {a, d} \<union> set (hops c)"
  shows "delivered (PathWithdraw d (path_id c)) t (withdraw_node ks n s)"
proof -
  let ?f = "\<lambda>k. fst k = n \<or> snd k = n \<or> touches s n k"
  have "?f (a, d)" using assms(3-5) by (auto simp: touches_def list_ex_iff)
  then have "(a, d) \<in> set (filter ?f ks)" using assms(2) by simp
  then obtain xs ys where ks: "filter ?f ks = xs @ (a, d) # ys" by (meson split_list)
  then have "distinct xs" "(a, d) \<notin> set xs" using assms(1) distinct_filter [OF assms(1), of ?f] by auto
  then have "ps_map (foldl (withdraw_key n) s xs) (a, d) = Some ps" using assms(3) by (simp add: ps_map_withdraw_keys)
  from delivered_withdraw_keys [OF delivered_withdraw_key [OF this assms(4-6)]]
  show ?thesis unfolding withdraw_node_def ks by simp
qed

text \<open>C10: Revoking a node is complete. Afterwards it is no end and no hop of any path; for every candidate it was on,
  the source, the destination and every hop have the withdrawal in their queue, unless that queue is full; and every
  candidate it was not on is still there.\<close>

theorem revoked_node_leaves_paths:
  assumes "distinct ks" and "dom (ps_map s) \<subseteq> set ks" and "s' = withdraw_node ks n s"
  shows "(ps_map s' (a, d) = Some ps' \<longrightarrow> a \<noteq> n \<and> d \<noteq> n \<and> list_all (\<lambda>c. n \<notin> set (hops c)) (candidates ps'))
    \<and> (ps_map s (a, d) = Some ps \<and> c \<in> set (candidates ps) \<longrightarrow>
         (if n \<in> {a, d} \<union> set (hops c) then \<forall>t \<in> {a, d} \<union> set (hops c). delivered (PathWithdraw d (path_id c)) t s'
          else \<exists>ps'. ps_map s' (a, d) = Some ps' \<and> c \<in> set (candidates ps')))"
proof (intro conjI impI)
  note m = ps_map_withdraw_node [OF assms(1,2), of n "(a, d)", folded assms(3)]
  show "a \<noteq> n" "d \<noteq> n" "list_all (\<lambda>c. n \<notin> set (hops c)) (candidates ps')" if "ps_map s' (a, d) = Some ps'"
    using that unfolding m bind_eq_Some_conv by (auto simp: list_all_iff dest: withdrawn_set_spec)
  assume c: "ps_map s (a, d) = Some ps \<and> c \<in> set (candidates ps)"
  then have "(a, d) \<in> set ks" using assms(2) by auto
  then show "if n \<in> {a, d} \<union> set (hops c) then \<forall>t \<in> {a, d} \<union> set (hops c). delivered (PathWithdraw d (path_id c)) t s'
      else \<exists>ps'. ps_map s' (a, d) = Some ps' \<and> c \<in> set (candidates ps')"
    using c delivered_withdraw_node [OF assms(1)] withdrawn_set_keeps [of c ps n a d] unfolding m by (simp add: assms(3))
qed

lemma ex_paths_dom: "dom (ps_map ex_paths) \<subseteq> set [(1, 2), (3, 2)]"
  by (auto simp: ex_paths_def ex_path_ops_def path_service_new_def set_relays_def request_def other_relays_def new_candidate_def
      alloc_path_id_def clamp_max_def push_to_participants_def push_event_def Let_def split: if_splits)

theorem revoked_node_leaves_paths_witness:
  "delivered (PathWithdraw 2 3) 2 (withdraw_node [(1, 2), (3, 2)] 6 ex_paths)
   \<and> delivered (PathWithdraw 2 3) 1 (withdraw_node [(1, 2), (3, 2)] 6 ex_paths)"
  using revoked_node_leaves_paths [OF _ ex_paths_dom refl, of 6 1 2 _ "the (ps_map ex_paths (1, 2))" "\<lparr>path_id = 3, path_epoch = 1, hops = [6, 2], expires_at = 3700\<rparr>"]
    ex_paths_eval(1) by simp

section \<open>Answers are stable until they expire\<close>

text \<open>What may happen to the service without touching an answer given for \<open>(a, d)\<close> that is good until \<open>till\<close>:
  requests of any pair, deliveries, a new roster that is not yet expanded.\<close>

fun keeps_answer :: "u64 \<Rightarrow> path_op \<Rightarrow> bool" where
  "keeps_answer till (Request _ _ _ now) \<longleftrightarrow> now \<le> till"
| "keeps_answer till (SetRelays _) \<longleftrightarrow> True"
| "keeps_answer till (Take _) \<longleftrightarrow> True"
| "keeps_answer till _ \<longleftrightarrow> False"

lemma expired_mono: "expired ps t \<Longrightarrow> t \<le> t' \<Longrightarrow> expired ps t'"
  by (auto simp: expired_def list_all_iff intro: less_le_trans)

lemma request_hit: "ps_map s (a, d) = Some ps \<Longrightarrow> \<not> expired ps now
    \<Longrightarrow> request a d mx now s = (candidates ps, push_to_participants a d (other_relays s a d) ps s)"
  by (simp add: request_def)

lemma relay_candidates_spec:
  "relay_candidates d mx now rs cs s = (cs', s') \<Longrightarrow> ps_map s' = ps_map s \<and> (\<exists>new. cs' = cs @ new \<and> list_all (\<lambda>c. expires_at c = now + 3600) new)"
  by (induction rs arbitrary: cs s)
    (fastforce simp: new_candidate_def alloc_path_id_def split: if_splits)+

lemma request_answer:
  assumes "request a d mx now s = (cs, s')"
  shows "\<exists>ps. ps_map s' = (ps_map s)((a, d) \<mapsto> ps) \<and> candidates ps = cs
    \<and> (ps_map s (a, d) = None \<longrightarrow> cs \<noteq> [] \<and> list_all (\<lambda>c. expires_at c = now + 3600) cs)"
proof (cases "case ps_map s (a, d) of None \<Rightarrow> True | Some ps \<Rightarrow> expired ps now")
  case False
  then show ?thesis
    using assms queued_push_to_participants by (fastforce simp: request_hit queued_def split: option.splits)
next
  case True
  obtain c t where c: "new_candidate [d] now s = (c, t)" by fastforce
  obtain cs' u where u: "relay_candidates d mx now (other_relays s a d) [c] t = (cs', u)" by fastforce
  have t: "ps_map t = ps_map s" "expires_at c = now + 3600" using c by (auto simp: new_candidate_def alloc_path_id_def)
  have "ps_map (push_to_participants a d rs ps v) = ps_map v" for rs ps v
    using queued_push_to_participants by (simp add: queued_def)
  then show ?thesis
    using True assms c u t relay_candidates_spec [OF u] by (auto simp: request_def Let_def split: option.splits)
qed

lemma step_keeps_answer:
  assumes "keeps_answer till p" and "ps_map s (a, d) = Some ps" and "\<not> expired ps till"
  shows "ps_map (path_step s p) (a, d) = Some ps"
proof (cases p)
  case (Request a' d' mx now)
  have "\<not> expired ps now" using assms(1,3) Request expired_mono by auto
  show ?thesis
  proof (cases "(a', d') = (a, d)")
    case True
    then have "path_step s p = push_to_participants a d (other_relays s a d) ps s"
      using Request request_hit [OF assms(2) \<open>\<not> expired ps now\<close>] by simp
    then show ?thesis using assms(2) queued_push_to_participants by (simp add: queued_def)
  next
    case False
    obtain cs s' where "request a' d' mx now s = (cs, s')" by fastforce
    then show ?thesis using request_answer [of a' d' mx now s cs s'] Request False assms(2) by auto
  qed
qed (use assms in \<open>simp_all add: set_relays_def take_events_def\<close>)

interpretation answer: invariant_machine path_step "\<lambda>s. ps_map s (a, d) = Some ps \<and> \<not> expired ps till" "\<lambda>_. keeps_answer till"
  for a d ps till
  by unfold_locales (simp add: step_keeps_answer)

lemma answer_guarded: "list_all (keeps_answer till) ps \<Longrightarrow> answer.guarded till s ps"
  by (induction ps arbitrary: s) simp_all

text \<open>A first request for a pair is answered with at least one candidate, and until those expire, one hour later,
  every further request for the pair is answered with the same candidates and path ids and allocates none,
  whatever else is requested, delivered or changed in the roster in between.\<close>

theorem answer_stable_until_expiry:
  assumes "ps_map s (a, d) = None" and "request a d mx now s = (cs, s')"
    and "list_all (keeps_answer (now + 3600)) ops" and "later \<le> now + 3600"
  shows "cs \<noteq> [] \<and> fst (request a d mx' later (foldl path_step s' ops)) = cs
    \<and> ps_seq (snd (request a d mx' later (foldl path_step s' ops))) = ps_seq (foldl path_step s' ops)"
proof -
  obtain ps where ps: "ps_map s' (a, d) = Some ps" "candidates ps = cs" "cs \<noteq> []" "list_all (\<lambda>c. expires_at c = now + 3600) cs"
    using request_answer [OF assms(2)] assms(1) by auto
  then have "\<not> expired ps (now + 3600)" by (cases cs) (simp_all add: expired_def)
  then have "ps_map (foldl path_step s' ops) (a, d) = Some ps \<and> \<not> expired ps (now + 3600)"
    using answer.run_inv [OF _ answer_guarded [OF assms(3)]] ps(1) by blast
  moreover from this have "\<not> expired ps later" using assms(4) expired_mono by blast
  ultimately show ?thesis using ps queued_push_to_participants by (simp add: request_hit queued_def)
qed

theorem answer_stable_until_expiry_witness:
  "fst (request 1 2 2 3600 (foldl path_step (snd (request 1 2 4 100 path_service_new)) [SetRelays [5, 6], Request 3 2 2 200]))
   = fst (request 1 2 4 100 path_service_new)"
  using answer_stable_until_expiry [of path_service_new 1 2 4 100 "fst (request 1 2 4 100 path_service_new)"
      "snd (request 1 2 4 100 path_service_new)" "[SetRelays [5, 6], Request 3 2 2 200]" 3600 2]
  by (simp add: path_service_new_def del: foldl_Cons path_step.simps)

section \<open>Restart\<close>

lemma persistent_map_of:
  assumes "distinct ks" and "set ks = dom (ps_map s)"
  shows "map_of (map (\<lambda>(a, d, ps). ((a, d), ps)) (fst (persistent ks s))) = ps_map s"
    and "distinct (map (\<lambda>(a, d, _). (a, d)) (fst (persistent ks s)))"
proof -
  let ?e = "\<lambda>(a, d). (a, d, the (ps_map s (a, d)))" and ?g = "\<lambda>(a, d, ps). ((a, d), ps)" and ?k = "\<lambda>(a, d, _). (a, d)"
  let ?m = "fst (persistent ks s)"
  have m: "?m = sort_key ?k (map ?e ks)" by (simp add: persistent_def)
  have "map ?k (map ?e ks) = ks" by (simp add: comp_def case_prod_beta)
  then have "distinct (map ?k (map ?e ks))" using assms(1) by metis
  then show d: "distinct (map ?k ?m)" unfolding m by (simp only: distinct_map distinct_sort set_sort)
  have f: "map fst (map ?g ?m) = map ?k ?m" by (simp add: case_prod_beta comp_def)
  have d1: "distinct (map fst (map ?g ?m))" unfolding f by (rule d)
  have s: "set (map ?g ?m) = {(k, ps). ps_map s k = Some ps}" unfolding m using assms(2) by (force simp: image_iff)
  show "map_of (map ?g ?m) = ps_map s"
  proof (rule ext)
    show "map_of (map ?g ?m) k = ps_map s k" for k
    proof (cases "ps_map s k")
      case None
      then show ?thesis using s by (auto simp: map_of_eq_None_iff)
    next
      case (Some ps)
      then have "(k, ps) \<in> set (map ?g ?m)" using s by blast
      then show ?thesis using Some map_of_is_SomeI [OF d1] by simp
    qed
  qed
qed

text \<open>The service survives a restart: restoring what \<open>persistent\<close> wrote, in whatever order the map was read,
  gives back the map and the allocator, so an id in use before the restart is never handed out again.\<close>

theorem persistent_restore:
  assumes "distinct ks" and "set ks = dom (ps_map s)" and "persistent ks s = (m, sq)"
  shows "ps_map (ps_restore (map_of (map (\<lambda>(a, d, ps). ((a, d), ps)) m)) sq t) = ps_map s
    \<and> ps_seq (ps_restore (map_of (map (\<lambda>(a, d, ps). ((a, d), ps)) m)) sq t) = ps_seq s
    \<and> sorted (map (\<lambda>(a, d, _). (a, d)) m)"
  using persistent_map_of(1) [OF assms(1,2)] assms(3) sorted_sort_key [of "\<lambda>(a, d, _). (a, d)"]
  by (auto simp: ps_restore_def persistent_def)

theorem persistent_restore_witness:
  "ps_map (ps_restore (map_of (map (\<lambda>(a, d, ps). ((a, d), ps)) (fst (persistent [(3, 2), (1, 2)] ex_paths)))) 5 path_service_new) (1, 2)
   = ps_map ex_paths (1, 2)"
  using persistent_restore [of "[(3, 2), (1, 2)]" ex_paths "fst (persistent [(3, 2), (1, 2)] ex_paths)" "ps_seq ex_paths" path_service_new]
    ex_paths_dom ex_paths_eval by (auto simp: persistent_def ps_restore_def)

section \<open>Order of the hash map, and the reach of a narrowed roster\<close>

definition ex_grown :: path_service where
  "ex_grown = foldl path_step path_service_new [Request 1 2 4 100, Request 3 2 4 100, SetRelays [5]]"

text \<open>A new relay gets its path ids in the order in which the hash map yields the pairs. Two replicas that apply the
  same roster change to the same state therefore disagree on which path has which id.\<close>

theorem expand_depends_on_key_order:
  "set [(1, 2), (3, 2)] = dom (ps_map ex_grown)
   \<and> map path_id (candidates (the (ps_map (expand_relay_candidates [(1, 2), (3, 2)] 200 ex_grown) (1, 2)))) = [1, 3]
   \<and> map path_id (candidates (the (ps_map (expand_relay_candidates [(3, 2), (1, 2)] 200 ex_grown) (1, 2)))) = [1, 4]"
  by (auto simp: ex_grown_def path_service_new_def set_relays_def request_def other_relays_def new_candidate_def alloc_path_id_def
      clamp_max_def push_to_participants_def push_event_def expand_relay_candidates_def expand_key_def kept_relays_def
      first_hop_is_def expired_def Let_def)

lemma ps_map_withdraw_relay_in_set:
  "ps_map (withdraw_relay_in_set a d n s) = (ps_map s)((a, d) := Option.bind (ps_map s (a, d)) (without n))"
  using withdraw_relay_in_set_effect [of s a d n] by (simp add: queued_def)

lemma without_end: "set_ok (a, n) ps \<Longrightarrow> without n ps = None"
proof -
  assume "set_ok (a, n) ps"
  then have "candidates ps \<noteq> []" "\<forall>c \<in> set (candidates ps). n \<in> set (hops c)" by (fastforce simp: set_ok_def)+
  then show ?thesis by (cases "candidates ps") (auto simp: without_def list_all_iff)
qed

lemma withdraw_relay_none:
  "ps_map s (a, n) = None \<Longrightarrow> ps_map (foldl (\<lambda>s (source, dest). withdraw_relay_in_set source dest n s) s ks) (a, n) = None"
  by (erule foldl_inv) (auto simp: ps_map_withdraw_relay_in_set)

text \<open>Taking a node out of the relay roster also withdraws every path to it, the direct ones included: every
  candidate to a node has that node as its last hop.\<close>

theorem narrowed_roster_drops_paths_to_node:
  assumes "paths_ok s" and "ps_map s (a, n) = Some ps" and "(a, n) \<in> set ks"
  shows "ps_map (withdraw_relay ks n s) (a, n) = None"
proof -
  let ?w = "\<lambda>s (source, dest). withdraw_relay_in_set source dest n s"
  have "touches s n (a, n)" using assms(2) paths_okD(1) [OF assms(1,2)] by (auto simp: touches_def set_ok_def)
  then have "(a, n) \<in> set (filter (touches s n) ks)" using assms(3) by simp
  then obtain xs ys where ks: "filter (touches s n) ks = xs @ (a, n) # ys" by (meson split_list)
  let ?t = "foldl ?w s xs"
  have "paths_ok ?t" using assms(1) by (rule foldl_inv) (simp add: paths_ok_withdraw_relay_in_set split: prod.split)
  then have "Option.bind (ps_map ?t (a, n)) (without n) = None"
    by (cases "ps_map ?t (a, n)") (auto dest: paths_okD(1) without_end)
  then have "ps_map (?w ?t (a, n)) (a, n) = None" by (simp add: ps_map_withdraw_relay_in_set)
  from withdraw_relay_none [OF this, of ys] show ?thesis unfolding withdraw_relay_def ks by simp
qed

end
