(* ===== verification/Auth_Key.thy ===== *)
theory Auth_Key
  imports Net_Addr
begin

text \<open>
  Auth keys \<open>lrk-<network>-<expiry>-<secret>\<close> (\<open>rill-coord/src/authkey/mod.rs\<close>): base32 over a shifting 64-bit
  buffer, generation, parsing, expiry, and the duration argument of the command line. The clock and the random
  secret are arguments. Strings are lists of bytes, as \<open>str::len\<close> and the base32 loops see them.
\<close>

unbundle bit_operations_syntax

section \<open>Base32\<close>

definition BASE32_ALPHABET :: string where
  "BASE32_ALPHABET = ''ABCDEFGHIJKLMNOPQRSTUVWXYZ234567''"

definition base32_char :: "u64 \<Rightarrow> char" where
  "base32_char v = BASE32_ALPHABET ! unat (v AND 0x1f)"

text \<open>The inner \<open>while bits >= 5\<close> loop of the encoder, and its outer loop with the final partial group.\<close>

fun drain5 :: "u64 \<Rightarrow> nat \<Rightarrow> string \<Rightarrow> string \<times> nat" where
  "drain5 buffer bits out =
     (if 5 \<le> bits then drain5 buffer (bits - 5) (out @ [base32_char (drop_bit (bits - 5) buffer)]) else (out, bits))"

fun encode_loop :: "byte list \<Rightarrow> u64 \<Rightarrow> nat \<Rightarrow> string \<Rightarrow> string" where
  "encode_loop [] buffer bits out =
     (if 0 < bits then out @ [base32_char (push_bit (5 - bits) buffer)] else out)"
| "encode_loop (b # data) buffer bits out =
     (let buffer = push_bit 8 buffer OR ucast b
      in case drain5 buffer (bits + 8) out of (out, bits) \<Rightarrow> encode_loop data buffer bits out)"

definition base32_encode :: "byte list \<Rightarrow> string" where
  "base32_encode data = encode_loop data 0 0 []"

fun position :: "('a \<Rightarrow> bool) \<Rightarrow> 'a list \<Rightarrow> nat option" where
  "position p [] = None"
| "position p (x # xs) = (if p x then Some 0 else map_option Suc (position p xs))"

fun decode_loop :: "string \<Rightarrow> u64 \<Rightarrow> nat \<Rightarrow> byte list \<Rightarrow> byte list option" where
  "decode_loop [] buffer bits out =
     (if 0 < bits \<and> buffer AND (push_bit bits 1 - 1) \<noteq> 0 then None else Some out)"
| "decode_loop (c # s) buffer bits out =
     (case position (\<lambda>a. a = c) BASE32_ALPHABET of
        None \<Rightarrow> None
      | Some v \<Rightarrow>
          let buffer = push_bit 5 buffer OR word_of_nat v; bits = bits + 5
          in if 8 \<le> bits then decode_loop s buffer (bits - 8) (out @ [ucast (drop_bit (bits - 8) buffer)])
             else decode_loop s buffer bits out)"

definition base32_decode :: "string \<Rightarrow> byte list option" where
  "base32_decode s = decode_loop s 0 0 []"

section \<open>Keys\<close>

datatype auth_key_error = BadPrefix | BadFormat | BadNetwork | BadExpiry | BadSecretLen | BadSecret

abbreviation (input) AUTH_KEY_PREFIX :: string where "AUTH_KEY_PREFIX \<equiv> ''lrk-''"
abbreviation (input) AUTH_KEY_SECRET_LEN :: nat where "AUTH_KEY_SECRET_LEN \<equiv> 32"
abbreviation (input) AUTH_KEY_SECRET_CHARS :: nat where "AUTH_KEY_SECRET_CHARS \<equiv> 52"

definition network_char :: "char \<Rightarrow> bool" where
  "network_char c \<longleftrightarrow> (let n = of_char c :: nat in 97 \<le> n \<and> n \<le> 122 \<or> 48 \<le> n \<and> n \<le> 57)"

definition validate_network :: "string \<Rightarrow> (auth_key_error, unit) outcome" where
  "validate_network network = (if network = [] \<or> \<not> list_all network_char network then Err BadNetwork else Ok ())"

text \<open>\<open>u64::from_str\<close>: an optional plus sign, at least one decimal digit, no overflow.\<close>

definition parse_u64 :: "string \<Rightarrow> u64 option" where
  "parse_u64 s =
     (case (case s of c # cs \<Rightarrow> if c = CHR ''+'' then cs else s | [] \<Rightarrow> s) of
        [] \<Rightarrow> None
      | ds \<Rightarrow> (case parse_digits 0 ds of Some n \<Rightarrow> if n < 2 ^ 64 then Some (word_of_nat n) else None | None \<Rightarrow> None))"

definition saturating_add_u64 :: "u64 \<Rightarrow> u64 \<Rightarrow> u64" where
  "saturating_add_u64 a b = (if unat a + unat b < 2 ^ 64 then a + b else - 1)"

definition generate_auth_key :: "string \<Rightarrow> u64 \<Rightarrow> u64 \<Rightarrow> byte list \<Rightarrow> (auth_key_error, string) outcome" where
  "generate_auth_key network ttl_secs now secret =
     obind (validate_network network) (\<lambda>_.
       let expiry = (if ttl_secs = 0 then 0 else saturating_add_u64 now ttl_secs)
       in Ok (AUTH_KEY_PREFIX @ network @ ''-'' @ show_num 10 (unat expiry) @ ''-'' @ base32_encode secret))"

definition strip_prefix :: "string \<Rightarrow> string \<Rightarrow> string option" where
  "strip_prefix p s = (if take (length p) s = p then Some (drop (length p) s) else None)"

definition parse_auth_key :: "string \<Rightarrow> (auth_key_error, string \<times> u64 \<times> string) outcome" where
  "parse_auth_key key =
     obind (ok_or BadPrefix (strip_prefix AUTH_KEY_PREFIX key)) (\<lambda>rest.
     obind (ok_or BadFormat (split_once (CHR ''-'') rest)) (\<lambda>(network, tail).
     obind (ok_or BadFormat (split_once (CHR ''-'') tail)) (\<lambda>(expiry, secret).
     obind (validate_network network) (\<lambda>_.
     obind (ok_or BadExpiry (parse_u64 expiry)) (\<lambda>expiry.
       if length secret \<noteq> AUTH_KEY_SECRET_CHARS then Err BadSecretLen
       else obind (ok_or BadSecret (base32_decode secret)) (\<lambda>decoded.
         if length decoded \<noteq> AUTH_KEY_SECRET_LEN then Err BadSecretLen else Ok (network, expiry, secret)))))))"

definition key_is_expired :: "string \<Rightarrow> u64 \<Rightarrow> bool" where
  "key_is_expired key now =
     (case parse_auth_key key of Ok (_, expiry, _) \<Rightarrow> expiry \<noteq> 0 \<and> expiry < now | _ \<Rightarrow> False)"

definition saturating_mul_u64 :: "u64 \<Rightarrow> u64 \<Rightarrow> u64" where
  "saturating_mul_u64 a b = (if unat a * unat b < 2 ^ 64 then a * b else - 1)"

text \<open>\<open>str::split_at\<close> panics past the end, which \<open>len() - 1\<close> is for the empty string, and inside a character,
  which is the case when the last byte continues a multi-byte character.\<close>

definition continuation_byte :: "char \<Rightarrow> bool" where
  "continuation_byte c \<longleftrightarrow> (let n = of_char c :: nat in 128 \<le> n \<and> n < 192)"

definition parse_duration :: "string \<Rightarrow> (auth_key_error, u64) outcome" where
  "parse_duration s =
     (if s = ''0'' then Ok 0
      else if s = [] \<or> continuation_byte (last s) then Panic
      else obind (ok_or BadExpiry (parse_u64 (butlast s))) (\<lambda>num.
        let unit = [last s] in
        if unit = ''s'' then Ok (saturating_mul_u64 num 1)
        else if unit = ''m'' then Ok (saturating_mul_u64 num 60)
        else if unit = ''h'' then Ok (saturating_mul_u64 num 3600)
        else if unit = ''d'' then Ok (saturating_mul_u64 num 86400)
        else Err BadExpiry))"

section \<open>The buffer as a number\<close>

text \<open>Only the low \<open>bits\<close> bits of the buffer count; the rest has been emitted and shifts out at the top.\<close>

lemma buffer_shift:
  fixes B :: u64
  assumes "n + k \<le> 64" and "unat w < 2 ^ k"
  shows "unat (push_bit k B OR w) mod 2 ^ (n + k) = unat B mod 2 ^ n * 2 ^ k + unat w"
proof -
  have "take_bit (n + k) (unat (push_bit k B OR w)) = push_bit k (take_bit n (unat B)) OR take_bit (n + k) (unat w)"
    using assms(1) le_diff_conv2 [of k 64 n] by (simp add: unsigned_or_eq unsigned_push_bit_eq take_bit_push_bit min_def)
  also have "take_bit (n + k) (unat w) = unat w"
    using assms(2) by (simp add: take_bit_nat_eq_self_iff less_le_trans)
  also have "push_bit k (take_bit n (unat B)) OR unat w = push_bit k (take_bit n (unat B)) + unat w"
  proof (rule disjunctive_add [symmetric])
    have "take_bit k (unat w) = unat w" using assms(2) by (simp add: take_bit_nat_eq_self_iff)
    then have "bit (unat w) i \<Longrightarrow> i < k" for i by (metis bit_take_bit_iff)
    then show "\<not> bit (push_bit k (take_bit n (unat B))) i \<or> \<not> bit (unat w) i" for i
      unfolding bit_push_bit_iff by (metis linorder_not_le)
  qed
  finally show ?thesis by (simp add: take_bit_eq_mod push_bit_eq_mult)
qed

lemma buffer_top:
  fixes B :: u64
  assumes "n + k \<le> 64"
  shows "unat (drop_bit n B) mod 2 ^ k = unat B mod 2 ^ (n + k) div 2 ^ n"
proof -
  have "take_bit 64 (unat B) = unat B" using unsigned_less [of B, where ?'a = nat] by (simp add: take_bit_nat_eq_self_iff)
  then have "unat (drop_bit n B) = drop_bit n (unat B)" by (simp add: unsigned_drop_bit_eq)
  moreover have "take_bit k (drop_bit n (unat B)) = drop_bit n (take_bit (n + k) (unat B))"
    by (simp add: take_bit_drop_bit add.commute)
  ultimately show ?thesis by (simp only: drop_bit_eq_div take_bit_eq_mod)
qed

lemma unat_low5: "unat (v AND 0x1f :: u64) = unat v mod 32"
proof -
  have "v AND mask 5 = take_bit 5 v" by (simp add: take_bit_eq_mask)
  then show ?thesis by (simp add: mask_eq_exp_minus_1 take_bit_eq_mod unat_mod)
qed

definition v32 :: "nat list \<Rightarrow> nat" where
  "v32 ds = foldl (\<lambda>a d. a * 32 + d) 0 ds"

lemma v32_acc: "foldl (\<lambda>a d. a * 32 + d) x ds = x * 32 ^ length ds + v32 ds"
  by (induction ds arbitrary: x rule: rev_induct) (simp_all add: v32_def algebra_simps)

lemma v32_Nil [simp]: "v32 [] = 0"
  by (simp add: v32_def)

lemma v32_Cons: "v32 (d # ds) = d * 32 ^ length ds + v32 ds"
  using v32_acc [of d ds] by (simp add: v32_def)

lemma v32_append: "v32 (ds @ es) = v32 ds * 32 ^ length es + v32 es"
  using v32_acc [of "v32 ds" es] by (simp add: v32_def)

abbreviation b32 :: "nat list \<Rightarrow> string" where
  "b32 ds \<equiv> map ((!) BASE32_ALPHABET) ds"

declare drain5.simps [simp del]

lemma drain5_spec:
  assumes "bits \<le> 64"
  shows "\<exists>ds. drain5 B bits out = (out @ b32 ds, bits mod 5) \<and> list_all (\<lambda>d. d < 32) ds \<and> length ds = bits div 5
    \<and> unat B mod 2 ^ bits = v32 ds * 2 ^ (bits mod 5) + unat B mod 2 ^ (bits mod 5)"
  using assms
proof (induction B bits out rule: drain5.induct)
  case (1 B bits out)
  show ?case
  proof (cases "5 \<le> bits")
    case True
    let ?d = "unat B mod 2 ^ bits div 2 ^ (bits - 5)"
    obtain ds where ds: "drain5 B (bits - 5) (out @ [base32_char (drop_bit (bits - 5) B)]) = ((out @ [base32_char (drop_bit (bits - 5) B)]) @ b32 ds, (bits - 5) mod 5)"
      "list_all (\<lambda>d. d < 32) ds" "length ds = (bits - 5) div 5"
      "unat B mod 2 ^ (bits - 5) = v32 ds * 2 ^ ((bits - 5) mod 5) + unat B mod 2 ^ ((bits - 5) mod 5)"
      using "1.IH" [OF True diff_le_self [THEN le_trans, OF "1.prems"]] by blast
    have m: "(bits - 5) mod 5 = bits mod 5" "bits div 5 = Suc ((bits - 5) div 5)"
      using True by (simp_all add: le_mod_geq le_div_geq)
    have d: "unat (drop_bit (bits - 5) B) mod 32 = ?d" using buffer_top [of "bits - 5" 5 B] True "1.prems" by simp
    have "32 ^ length ds * 2 ^ (bits mod 5) = (2 :: nat) ^ (5 * ((bits - 5) div 5) + (bits - 5) mod 5)"
      using ds(3) m by (simp add: power_add power_mult)
    then have p: "32 ^ length ds * 2 ^ (bits mod 5) = (2 :: nat) ^ (bits - 5)" by simp
    have "unat B mod 2 ^ bits = ?d * 2 ^ (bits - 5) + unat B mod 2 ^ bits mod 2 ^ (bits - 5)" by (rule div_mult_mod_eq [symmetric])
    also have "unat B mod 2 ^ bits mod 2 ^ (bits - 5) = unat B mod 2 ^ (bits - 5)"
      by (rule mod_mod_cancel) (simp add: le_imp_power_dvd)
    finally have "unat B mod 2 ^ bits = ?d * (32 ^ length ds * 2 ^ (bits mod 5)) + (v32 ds * 2 ^ (bits mod 5) + unat B mod 2 ^ (bits mod 5))"
      unfolding p using ds(4) m by simp
    then have "unat B mod 2 ^ bits = v32 (?d # ds) * 2 ^ (bits mod 5) + unat B mod 2 ^ (bits mod 5)"
      unfolding v32_Cons by (simp only: add_mult_distrib mult.assoc add.assoc)
    moreover have "?d < 32" using d by (metis mod_less_divisor zero_less_numeral)
    ultimately show ?thesis
      using True ds m d by (subst drain5.simps) (auto simp: base32_char_def unat_low5 intro!: exI [of _ "?d # ds"])
  qed (auto simp: drain5.simps intro!: exI [of _ "[]"])
qed

text \<open>The encoder writes the bit string of the data, padded with zeros to a multiple of five.\<close>

lemma encode_loop_spec:
  assumes "bits < 5"
  shows "\<exists>ds pad. encode_loop data B bits out = out @ b32 ds \<and> list_all (\<lambda>d. d < 32) ds \<and> pad < 5
    \<and> 5 * length ds = bits + 8 * length data + pad
    \<and> v32 ds = (unat B mod 2 ^ bits * 256 ^ length data + of_be data) * 2 ^ pad"
  using assms
proof (induction data arbitrary: B bits out)
  case Nil
  show ?case
  proof (cases "bits = 0")
    case False
    have "unat (push_bit (5 - bits) B) mod 2 ^ (bits + (5 - bits)) = unat B mod 2 ^ bits * 2 ^ (5 - bits)"
      using buffer_shift [of bits "5 - bits" 0 B] Nil by simp
    then have d: "unat (push_bit (5 - bits) B) mod 32 = unat B mod 2 ^ bits * 2 ^ (5 - bits)" using Nil by simp
    then have "unat B mod 2 ^ bits * 2 ^ (5 - bits) < 32" by (metis mod_less_divisor zero_less_numeral)
    then show ?thesis
      using False Nil d
      by (intro exI [of _ "[unat B mod 2 ^ bits * 2 ^ (5 - bits)]"] exI [of _ "5 - bits"])
        (simp add: base32_char_def unat_low5 v32_Cons of_be_def)
  qed (auto simp: of_be_def intro!: exI [of _ "[]"])
next
  case (Cons b data)
  let ?B = "push_bit 8 B OR ucast b" and ?n = "bits + 8"
  have "take_bit 64 (unat b) = unat b" using less_trans [OF unat_byte_less [of b], of "2 ^ 64"] by (simp add: take_bit_nat_eq_self_iff)
  then have B: "unat ?B mod 2 ^ ?n = unat B mod 2 ^ bits * 256 + unat b"
    using buffer_shift [of bits 8 "ucast b" B] Cons.prems unat_byte_less [of b] by (simp add: unsigned_ucast_eq)
  obtain es where es: "drain5 ?B ?n out = (out @ b32 es, ?n mod 5)" "list_all (\<lambda>d. d < 32) es" "length es = ?n div 5"
    "unat ?B mod 2 ^ ?n = v32 es * 2 ^ (?n mod 5) + unat ?B mod 2 ^ (?n mod 5)"
    using drain5_spec [of ?n ?B out] Cons.prems by auto
  obtain ds pad where ds: "encode_loop data ?B (?n mod 5) (out @ b32 es) = (out @ b32 es) @ b32 ds" "list_all (\<lambda>d. d < 32) ds" "pad < 5"
    "5 * length ds = ?n mod 5 + 8 * length data + pad"
    "v32 ds = (unat ?B mod 2 ^ (?n mod 5) * 256 ^ length data + of_be data) * 2 ^ pad"
    using Cons.IH [of "?n mod 5" ?B "out @ b32 es"] by (metis mod_less_divisor zero_less_numeral)
  have "(32 :: nat) ^ length ds = 2 ^ (?n mod 5 + 8 * length data + pad)" unfolding ds(4) [symmetric] by (simp add: power_mult)
  then have p: "(32 :: nat) ^ length ds = 2 ^ (?n mod 5) * 256 ^ length data * 2 ^ pad" by (simp add: power_add power_mult)
  have "v32 (es @ ds) = (unat ?B mod 2 ^ ?n * 256 ^ length data + of_be data) * 2 ^ pad"
    unfolding es(4) using ds(5) p by (simp add: v32_append algebra_simps)
  also have "unat ?B mod 2 ^ ?n * 256 ^ length data + of_be data = unat B mod 2 ^ bits * 256 ^ length (b # data) + of_be (b # data)"
    unfolding B using of_be_append [of "[b]" data] by (simp add: algebra_simps of_be_def)
  finally have "v32 (es @ ds) = (unat B mod 2 ^ bits * 256 ^ length (b # data) + of_be (b # data)) * 2 ^ pad" .
  moreover have "5 * length (es @ ds) = bits + 8 * length (b # data) + pad" using es(3) ds(4) by (simp add: algebra_simps)
  ultimately show ?case using es ds by (intro exI [of _ "es @ ds"] exI [of _ pad]) (simp add: Let_def)
qed

section \<open>Decoding\<close>

lemma position_alphabet: "d < 32 \<Longrightarrow> position (\<lambda>a. a = BASE32_ALPHABET ! d) BASE32_ALPHABET = Some d"
proof -
  have "list_all (\<lambda>d. position (\<lambda>a. a = BASE32_ALPHABET ! d) BASE32_ALPHABET = Some d) [0..<32]"
    by (simp add: BASE32_ALPHABET_def upt_rec numeral_nat)
  then show "d < 32 \<Longrightarrow> ?thesis" by (simp add: list_all_iff)
qed

lemma to_be_Suc:
  assumes "b < 256" and "y < 256 ^ n"
  shows "to_be (Suc n) (b * 256 ^ n + y) = word_of_nat b # to_be n y"
proof -
  have "to_le (n + 1) (b * 256 ^ n + y) = to_le n (b * 256 ^ n + y) @ [word_of_nat b]"
    using assms by (simp only: to_le_add) simp
  also have "to_le n (b * 256 ^ n + y) = to_le n y" using to_le_mod [of n "b * 256 ^ n + y"] assms(2) by simp
  finally show ?thesis by (simp add: to_be_def)
qed

lemma v32_less: "list_all (\<lambda>d. d < 32) ds \<Longrightarrow> v32 ds < 32 ^ length ds"
proof (induction ds)
  case (Cons d ds)
  then have "v32 (d # ds) < (d + 1) * 32 ^ length ds" by (simp add: v32_Cons)
  also have "\<dots> \<le> 32 * 32 ^ length ds" using Cons.prems by (intro mult_right_mono) simp_all
  finally show ?case by simp
qed simp

lemma unat_rest: "unat (B AND (push_bit bits 1 - 1) :: u64) = unat B mod 2 ^ bits"
  by (simp add: flip: mask_eq_exp_minus_1 take_bit_eq_mask take_bit_eq_mod unsigned_take_bit_eq)

text \<open>One byte leaves the top of the bit string.\<close>

lemma byte_out:
  fixes B :: u64
  assumes "m \<le> 56" and "list_all (\<lambda>d. d < 32) ds" and "m + 5 * length ds = 8 * n + r"
    and "T = unat B mod 2 ^ (m + 8) * 32 ^ length ds + v32 ds" and "T' = unat B mod 2 ^ m * 32 ^ length ds + v32 ds"
  shows "T mod 2 ^ r = T' mod 2 ^ r \<and> to_be (Suc n) (T div 2 ^ r) = ucast (drop_bit m B) # to_be n (T' div 2 ^ r)"
proof -
  let ?b = "unat B mod 2 ^ (m + 8) div 2 ^ m"
  have "(2 :: nat) ^ (m + 5 * length ds) = 2 ^ (8 * n + r)" unfolding assms(3) ..
  then have p: "(2 :: nat) ^ m * 32 ^ length ds = 256 ^ n * 2 ^ r" by (simp add: power_add power_mult)
  have "unat B mod 2 ^ (m + 8) = ?b * 2 ^ m + unat B mod 2 ^ (m + 8) mod 2 ^ m" by (rule div_mult_mod_eq [symmetric])
  also have "unat B mod 2 ^ (m + 8) mod 2 ^ m = unat B mod 2 ^ m" by (rule mod_mod_cancel) (simp add: le_imp_power_dvd)
  finally have "T = (?b * 2 ^ m + unat B mod 2 ^ m) * 32 ^ length ds + v32 ds" using assms(4) by simp
  then have "T = ?b * (2 ^ m * 32 ^ length ds) + T'" unfolding assms(5) by (simp only: add_mult_distrib mult.assoc add.assoc)
  then have T: "T = (?b * 256 ^ n) * 2 ^ r + T'" unfolding p by (simp only: mult.assoc)
  have "T' < (unat B mod 2 ^ m + 1) * 32 ^ length ds" using v32_less [OF assms(2)] assms(5) by simp
  also have "\<dots> \<le> 2 ^ m * 32 ^ length ds" by (intro mult_right_mono) (simp_all add: Suc_le_eq)
  finally have "T' div 2 ^ r < 256 ^ n" unfolding p by (simp add: less_mult_imp_div_less)
  moreover have "T div 2 ^ r = ?b * 256 ^ n + T' div 2 ^ r" unfolding T by simp
  moreover have b: "?b = unat (drop_bit m B) mod 256" using buffer_top [of m 8 B] assms(1) by simp
  then have "?b < 256" by simp
  moreover have "word_of_nat ?b = (ucast (drop_bit m B) :: byte)"
    unfolding b by (rule word_unat_eq_iff [THEN iffD2]) (simp add: unat_byte_of_nat unsigned_ucast_eq take_bit_eq_mod)
  ultimately show ?thesis using to_be_Suc [of ?b "T' div 2 ^ r" n] T by simp
qed

text \<open>What the decoder makes of a string of digits: the bit string cut into bytes, refused if a bit of the rest is set.\<close>

lemma decode_loop_spec:
  assumes "bits < 8" and "list_all (\<lambda>d. d < 32) ds"
    and "T = unat B mod 2 ^ bits * 32 ^ length ds + v32 ds" and "bits + 5 * length ds = 8 * n + r" and "r < 8"
  shows "decode_loop (b32 ds) B bits out = (if T mod 2 ^ r = 0 then Some (out @ to_be n (T div 2 ^ r)) else None)"
  using assms
proof (induction ds arbitrary: B bits out T n)
  case Nil
  then have "n = 0" "bits = r" by auto
  then show ?case using Nil unat_rest [of B bits] by (auto simp: to_be_def simp flip: unat_eq_zero)
next
  case (Cons d ds)
  let ?B = "push_bit 5 B OR word_of_nat d :: u64"
  have d: "d < 32" "list_all (\<lambda>d. d < 32) ds" using Cons.prems(2) by simp_all
  then have "unat (word_of_nat d :: u64) = d" by (simp add: unsigned_of_nat take_bit_nat_eq_self_iff)
  then have x: "unat ?B mod 2 ^ (bits + 5) = unat B mod 2 ^ bits * 32 + d"
    using buffer_shift [of bits 5 "word_of_nat d" B] Cons.prems(1) d by simp
  have T: "T = unat ?B mod 2 ^ (bits + 5) * 32 ^ length ds + v32 ds" unfolding Cons.prems(3) x by (simp add: v32_Cons algebra_simps)
  show ?case
  proof (cases "8 \<le> bits + 5")
    case False
    then show ?thesis
      using Cons.IH [OF _ d(2) T, of n out] Cons.prems by (simp add: position_alphabet [OF d(1)] Let_def)
  next
    case True
    obtain k where k: "n = Suc k" using True Cons.prems(4,5) by (cases n) auto
    obtain m where m: "bits + 5 = m + 8" using True by (metis add.commute le_Suc_ex)
    let ?T = "unat ?B mod 2 ^ m * 32 ^ length ds + v32 ds"
    have n: "m + 5 * length ds = 8 * k + r" "m < 8" "bits + 5 - 8 = m" "m \<le> 56" using m Cons.prems(1,4) k by auto
    have out: "T mod 2 ^ r = ?T mod 2 ^ r" "to_be (Suc k) (T div 2 ^ r) = ucast (drop_bit m ?B) # to_be k (?T div 2 ^ r)"
      using byte_out [OF n(4) d(2) n(1) T [unfolded m] refl] by blast+
    show ?thesis
      using Cons.IH [OF n(2) d(2) refl n(1) Cons.prems(5)] True out k n(3)
      by (simp add: position_alphabet [OF d(1)] Let_def del: drop_bit_or)
  qed
qed

lemma base32_roundtrip: "base32_decode (base32_encode data) = Some data"
proof -
  obtain ds pad where ds: "base32_encode data = b32 ds" "list_all (\<lambda>d. d < 32) ds" "pad < 5" "5 * length ds = 8 * length data + pad"
    "v32 ds = of_be data * 2 ^ pad"
    using encode_loop_spec [of 0 data 0 "[]"] by (auto simp: base32_encode_def)
  then show ?thesis
    using decode_loop_spec [of 0 ds "v32 ds" 0 "length data" pad "[]"] by (simp add: base32_decode_def to_be_of_be)
qed

lemma length_base32_encode: "length (base32_encode data) = (8 * length data + 4) div 5"
proof -
  obtain ds pad where "base32_encode data = b32 ds" "pad < 5" "5 * length ds = 8 * length data + pad"
    using encode_loop_spec [of 0 data 0 "[]"] by (auto simp: base32_encode_def)
  then show ?thesis by simp
qed

section \<open>Generated keys\<close>

lemma parse_u64_show: "parse_u64 (show_num 10 (unat w)) = Some w"
proof -
  have dig: "\<forall>d \<in> set (digits 10 (unat w)). d < 10" using digit_lt [of 10] by simp
  obtain d ds where ds: "digits 10 (unat w) = d # ds" by (cases "digits 10 (unat w)") auto
  then have "to_digit 10 (digit_char d) = Some d" using dig by (simp add: to_digit_digit_char)
  moreover have "to_digit 10 CHR ''+'' = None" by (simp add: to_digit_def)
  ultimately have sign: "digit_char d \<noteq> CHR ''+''" by auto
  have "parse_digits 0 (show_num 10 (unat w)) = Some (unat w)"
    unfolding show_num_def using parse_digits_map [OF dig, of 0] foldl_digits [of 10 "unat w"] by simp
  then show ?thesis
    using sign unsigned_less [of w, where ?'a = nat] by (simp add: parse_u64_def show_num_def ds)
qed

lemma dash_notin_show: "CHR ''-'' \<notin> set (show_num 10 n)"
  by (rule sep_notin_show) (simp_all add: to_digit_def)

lemma dash_notin_network: "list_all network_char network \<Longrightarrow> CHR ''-'' \<notin> set network"
  by (auto simp: list_all_iff network_char_def Let_def)

lemma parse_assembled:
  assumes "network \<noteq> []" and "list_all network_char network" and "length secret = 32"
  shows "parse_auth_key (''lrk-'' @ network @ ''-'' @ show_num 10 (unat e) @ ''-'' @ base32_encode secret) = Ok (network, e, base32_encode secret)"
proof -
  have "split_once (CHR ''-'') (network @ CHR ''-'' # rest) = Some (network, rest)" for rest
    using dash_notin_network [OF assms(2)] by (rule split_once_append)
  moreover have "split_once (CHR ''-'') (show_num 10 (unat e) @ CHR ''-'' # base32_encode secret) = Some (show_num 10 (unat e), base32_encode secret)"
    using dash_notin_show by (rule split_once_append)
  ultimately show ?thesis
    using assms by (simp add: parse_auth_key_def strip_prefix_def validate_network_def parse_u64_show length_base32_encode base32_roundtrip)
qed

text \<open>C33: A generated auth key parses back to its network, expiry and secret, whatever the 32 random bytes; base32 loses
  nothing. A key made with a time to live is expired exactly from the first second after it, also when the sum
  would overflow; one made with 0 never is.\<close>

theorem generated_key_roundtrip:
  assumes "generate_auth_key network ttl now secret = Ok key" and "length secret = 32"
  shows "(\<exists>expiry. parse_auth_key key = Ok (network, expiry, base32_encode secret)) \<and> base32_decode (base32_encode secret) = Some secret
    \<and> (key_is_expired key t \<longleftrightarrow> ttl \<noteq> 0 \<and> unat now + unat ttl < unat t)"
proof -
  let ?e = "if ttl = 0 then 0 else saturating_add_u64 now ttl"
  have "network \<noteq> []" "list_all network_char network"
    and k: "key = ''lrk-'' @ network @ ''-'' @ show_num 10 (unat ?e) @ ''-'' @ base32_encode secret"
    using assms(1) by (auto simp: generate_auth_key_def validate_network_def Let_def split: if_splits)
  then have p: "parse_auth_key key = Ok (network, ?e, base32_encode secret)" using parse_assembled assms(2) by blast
  have "unat (- 1 :: u64) = 2 ^ 64 - 1" by (simp add: unsigned_minus_1_eq_mask mask_eq_exp_minus_1)
  then have "ttl \<noteq> 0 \<Longrightarrow> ?e \<noteq> 0 \<and> (?e < t \<longleftrightarrow> unat now + unat ttl < unat t)"
    using unsigned_less [of t, where ?'a = nat]
    by (auto simp: saturating_add_u64_def word_less_nat_alt unat_word_ariths simp flip: unat_eq_zero)
  then show ?thesis using p base32_roundtrip by (auto simp: key_is_expired_def)
qed

theorem generated_key_roundtrip_witness:
  "\<exists>key. generate_auth_key ''lab'' 3600 1700000000 (replicate 32 7) = Ok key \<and> key_is_expired key 1700003601 \<and> \<not> key_is_expired key 1700003600"
proof -
  obtain key where k: "generate_auth_key ''lab'' 3600 1700000000 (replicate 32 7) = Ok key"
    by (simp add: generate_auth_key_def validate_network_def network_char_def)
  show ?thesis using generated_key_roundtrip [OF k, of 1700003601] generated_key_roundtrip [OF k, of 1700003600] k by simp
qed

text \<open>The duration parser panics on the empty string and on a last character that is not ASCII.\<close>

theorem parse_duration_panics: "parse_duration s = Panic \<longleftrightarrow> s = [] \<or> continuation_byte (last s)"
proof -
  have "continuation_byte CHR ''0'' = False" by (simp add: continuation_byte_def)
  then show ?thesis by (auto simp: parse_duration_def outcome_simps Let_def)
qed

end
