(* ===== verification/Coord_Domain.thy ===== *)
theory Coord_Domain
  imports Coord_Tables Path_Service Auth_Key Acl
begin

text \<open>
  One network of the coordinator: its key manager (\<open>rill-coord/src/keys.rs\<close>), the isolation domain that owns
  registry, keys, paths, relay roster and route map (\<open>rill-coord/src/domain.rs\<close>), the relay part of the
  configuration (\<open>rill-coord/src/config/mod.rs\<close>) and the telemetry views (\<open>rill-coord/src/status.rs\<close>).
\<close>

section \<open>Keys\<close>

record key_manager =
  km_master_key :: "byte list"
  km_key_version :: u32
  km_pending_revoke_rotation :: "u64 option"

definition key_manager_new :: "byte list \<Rightarrow> key_manager" where
  "key_manager_new master_key = \<lparr>km_master_key = master_key, km_key_version = 1, km_pending_revoke_rotation = None\<rparr>"

definition key_for :: "prims \<Rightarrow> key_manager \<Rightarrow> u32 \<Rightarrow> byte list" where
  "key_for p km node_id = derive_key_dst p (km_master_key km) node_id"

definition broadcast_key :: "prims \<Rightarrow> key_manager \<Rightarrow> byte list" where
  "broadcast_key p km = derive_key_dst p (km_master_key km) 0xFFFFFFFF"

definition km_key_path_for :: "prims \<Rightarrow> key_manager \<Rightarrow> u64 \<Rightarrow> u32 \<Rightarrow> byte list" where
  "km_key_path_for p km pid epoch = derive_key_path p (km_master_key km) pid epoch"

definition km_rotate :: "byte list \<Rightarrow> key_manager \<Rightarrow> key_manager" where
  "km_rotate new_master_key km = km\<lparr>km_master_key := new_master_key, km_key_version := km_key_version km + 1\<rparr>"

definition arm_revoke_rotation :: "u64 \<Rightarrow> key_manager \<Rightarrow> key_manager" where
  "arm_revoke_rotation deadline km =
     (if km_pending_revoke_rotation km = None then km\<lparr>km_pending_revoke_rotation := Some deadline\<rparr> else km)"

definition take_revoke_rotation :: "u64 \<Rightarrow> key_manager \<Rightarrow> bool \<times> key_manager" where
  "take_revoke_rotation now km =
     (if (case km_pending_revoke_rotation km of Some d \<Rightarrow> d \<le> now | None \<Rightarrow> False)
      then (True, km\<lparr>km_pending_revoke_rotation := None, km_key_version := km_key_version km + 1\<rparr>)
      else (False, km))"

definition clear_revoke_rotation :: "key_manager \<Rightarrow> key_manager" where
  "clear_revoke_rotation km = km\<lparr>km_pending_revoke_rotation := None\<rparr>"

definition restore_revoke_rotation :: "u64 \<Rightarrow> key_manager \<Rightarrow> key_manager" where
  "restore_revoke_rotation deadline km = km\<lparr>km_pending_revoke_rotation := Some deadline\<rparr>"

definition restore_version :: "u32 \<Rightarrow> key_manager \<Rightarrow> key_manager" where
  "restore_version v km = km\<lparr>km_key_version := v\<rparr>"

section \<open>Telemetry views\<close>

record peer_traffic_view =
  pt_node_id :: u32
  pt_tx_frames :: u64
  pt_tx_bytes :: u64
  pt_rx_frames :: u64
  pt_rx_bytes :: u64

record direct_pair_view =
  dp_node_id :: u32
  dp_endpoint :: string
  dp_rtt_ms :: u32

record drop_view =
  dv_node_id :: u32
  dv_count :: u64

record path_stat_view =
  pv_node_id :: u32
  pv_path_id :: u64
  pv_frames :: u64
  pv_gap_missing :: u64
  pv_reorder :: u64
  pv_rtt_ms :: u32

record telemetry_view =
  tv_peers :: "peer_traffic_view list"
  tv_drop_global :: u64
  tv_drops :: "drop_view list"
  tv_direct :: "direct_pair_view list"
  tv_paths :: "path_stat_view list"
  tv_updated_at :: u64

section \<open>Network domains\<close>

record relay_roster_config =
  rc_include :: "u32 list"
  rc_exclude :: "u32 list"
  rc_max_size :: nat

definition relay_roster_config_default :: relay_roster_config where
  "relay_roster_config_default = \<lparr>rc_include = [], rc_exclude = [], rc_max_size = 8\<rparr>"

abbreviation (input) NETWORK_ID_UNSET :: u32 where "NETWORK_ID_UNSET \<equiv> 0"
abbreviation (input) RELAY_EXIT_MISS_ROUNDS :: u32 where "RELAY_EXIT_MISS_ROUNDS \<equiv> 3"

definition network_id_for :: "string \<Rightarrow> u32" where
  "network_id_for name =
     (let hash = foldl (\<lambda>hash b. (hash XOR word_of_nat (of_char b)) * 0x01000193) 0x811c9dc5 name
      in if hash = NETWORK_ID_UNSET then NETWORK_ID_UNSET + 1 else hash)"

record network_domain =
  nd_network_id :: u32
  nd_name :: string
  nd_registry :: registry
  nd_keys :: key_manager
  nd_paths :: path_service
  nd_roster :: "u32 list"
  nd_relay_cfg :: relay_roster_config
  nd_exit_allow :: "u32 set"
  nd_relay_rtt :: "u32 \<rightharpoonup> u64"
  nd_relay_miss :: "u32 \<rightharpoonup> u32"
  nd_acl :: acl_policy
  nd_route_map :: route_map_service
  nd_route_map_pushed :: "u32 \<rightharpoonup> u64"

definition network_domain_new :: "string \<Rightarrow> u32 \<Rightarrow> byte list \<Rightarrow> network_domain" where
  "network_domain_new name network_id master_key =
     \<lparr>nd_network_id = network_id, nd_name = name, nd_registry = registry_new network_id, nd_keys = key_manager_new master_key,
      nd_paths = path_service_new, nd_roster = [], nd_relay_cfg = relay_roster_config_default, nd_exit_allow = {},
      nd_relay_rtt = Map.empty, nd_relay_miss = Map.empty,
      nd_acl = \<lparr>acl_enabled = False, acl_rules = [], acl_groups = Map.empty\<rparr>,
      nd_route_map = route_map_new, nd_route_map_pushed = Map.empty\<rparr>"

definition apply_roster :: "u32 list \<Rightarrow> network_domain \<Rightarrow> bool \<times> network_domain" where
  "apply_roster roster d =
     (let changed = (sort (nd_roster d) \<noteq> sort roster)
      in (changed, d\<lparr>nd_roster := roster, nd_paths := set_relays roster (nd_paths d)\<rparr>))"

section \<open>Rotation windows\<close>

text \<open>What happens to the keys of a network between two rotations: revocations that ask for a window, and
  evaluations that may fire it.\<close>

datatype key_event = Arm u64 | Evaluate u64

fun key_step :: "key_manager \<Rightarrow> key_event \<Rightarrow> key_manager" where
  "key_step km (Arm deadline) = arm_revoke_rotation deadline km"
| "key_step km (Evaluate now) = snd (take_revoke_rotation now km)"

fun before_deadline :: "u64 \<Rightarrow> key_event \<Rightarrow> bool" where
  "before_deadline d (Arm _) \<longleftrightarrow> True"
| "before_deadline d (Evaluate now) \<longleftrightarrow> now < d"

interpretation window: invariant_machine key_step
  "\<lambda>km. km_pending_revoke_rotation km = Some d \<and> km_key_version km = v \<and> km_master_key km = k" "\<lambda>_. before_deadline d"
  for d v k
proof
  fix km :: key_manager and i
  assume "km_pending_revoke_rotation km = Some d \<and> km_key_version km = v \<and> km_master_key km = k" and "before_deadline d i"
  then show "km_pending_revoke_rotation (key_step km i) = Some d \<and> km_key_version (key_step km i) = v \<and> km_master_key (key_step km i) = k"
    by (cases i) (auto simp: arm_revoke_rotation_def take_revoke_rotation_def)
qed

lemma window_guarded: "list_all (before_deadline d) evs \<Longrightarrow> window.guarded d km evs"
  by (induction evs arbitrary: km) simp_all

text \<open>C37: Revocations of one window share one rotation. After the first revocation opened a window, any number of
  further revocations and early evaluations change neither the key version nor the deadline; the first evaluation at
  or after the deadline raises the version by exactly one, and closes the window.\<close>

theorem one_rotation_per_window:
  assumes "km_pending_revoke_rotation km = None" and "list_all (before_deadline d) evs" and "d \<le> now"
  shows "km_key_version (foldl key_step km (Arm d # evs)) = km_key_version km
    \<and> km_pending_revoke_rotation (foldl key_step km (Arm d # evs)) = Some d
    \<and> take_revoke_rotation now (foldl key_step km (Arm d # evs))
      = (True, km\<lparr>km_key_version := km_key_version km + 1, km_pending_revoke_rotation := None\<rparr>)"
proof -
  let ?km = "foldl key_step km (Arm d # evs)"
  have "km_pending_revoke_rotation (arm_revoke_rotation d km) = Some d \<and> km_key_version (arm_revoke_rotation d km) = km_key_version km
      \<and> km_master_key (arm_revoke_rotation d km) = km_master_key km"
    using assms(1) by (simp add: arm_revoke_rotation_def)
  from window.run_inv [OF this window_guarded [OF assms(2)]]
  have w: "km_pending_revoke_rotation ?km = Some d" "km_key_version ?km = km_key_version km" "km_master_key ?km = km_master_key km" by auto
  then show ?thesis using assms(3) by (cases ?km; cases km) (auto simp: take_revoke_rotation_def)
qed

theorem one_rotation_per_window_witness:
  "km_key_version (foldl key_step (key_manager_new []) [Arm 160, Arm 190, Evaluate 159]) = 1
   \<and> km_key_version (snd (take_revoke_rotation 160 (foldl key_step (key_manager_new []) [Arm 160, Arm 190, Evaluate 159]))) = 2"
  using one_rotation_per_window [of "key_manager_new []" 160 "[Arm 190, Evaluate 159]" 160] by (simp add: key_manager_new_def)

end
