(* ===== verification/Coordinator.thy ===== *)
theory Coordinator
  imports Coord_Domain
begin

text \<open>
  The coordinator facade (\<open>rill-coord/src/coordinator/mod.rs\<close>): registration, key distribution, path requests,
  relay roster, netmap, leases, dynamic routes, revocation and key rotation over the network domains. The signer,
  the key derivation and the clock are arguments. Where the code iterates over a hash map, the order of its keys is
  taken from the argument of type \<open>orders\<close>. Writing to the store is left out: \<open>persist\<close> writes the result of
  \<open>snapshot\<close>, which is modelled with the restore of that state in the theory of the replicated machine.
\<close>

unbundle bit_operations_syntax

section \<open>State\<close>

abbreviation (input) CAPABILITY_RELAY :: u32 where "CAPABILITY_RELAY \<equiv> 0x01"
abbreviation (input) CAPABILITY_EXIT :: u32 where "CAPABILITY_EXIT \<equiv> 0x08"
abbreviation (input) CAPABILITY_BROADCAST :: u32 where "CAPABILITY_BROADCAST \<equiv> 0x20"
abbreviation (input) CAPABILITY_ACL :: u32 where "CAPABILITY_ACL \<equiv> 0x40"
abbreviation (input) REVOKE_ROTATION_WINDOW_SECS :: u64 where "REVOKE_ROTATION_WINDOW_SECS \<equiv> 60"

record register_data =
  rd_node_id :: u32
  rd_network_id :: u32
  rd_identity_binding :: "byte list"
  rd_binding_log_id :: "u64 \<times> u64"

record key_dist_data =
  kd_to_node_id :: u32
  kd_key :: "byte list"
  kd_key_version :: u32
  kd_broadcast_key :: "byte list option"

record node_info =
  ni_node_id :: u32
  ni_network_id :: u32
  ni_static_pubkey :: "byte list"
  ni_capabilities :: u32
  ni_routes :: "string list"
  ni_endpoints :: "string list"
  ni_offline :: bool
  ni_protocol_version :: u32
  ni_identity_binding :: "byte list"
  ni_binding_log_id :: "u64 \<times> u64"
  ni_exit :: bool

record coordinator =
  co_domains :: "network_domain list"
  co_liveness :: liveness
  co_directory :: directory
  co_next_node_id :: u32
  co_telemetry :: "u32 \<rightharpoonup> telemetry_view"
  co_register_rejects :: u64
  co_revoked :: "u32 \<rightharpoonup> u64 \<times> u64"

text \<open>The order of the keys of each hash map the code iterates over; per network where the map is.\<close>

record orders =
  or_nodes :: "u32 \<Rightarrow> u32 list"
  or_paths :: "u32 \<Rightarrow> (u32 \<times> u32) list"
  or_routes :: "u32 \<Rightarrow> (prefix \<times> u32) list"
  or_seen :: "u32 list"
  or_endpoints :: "u32 list"
  or_revoked :: "u32 list"

definition coordinator_new :: coordinator where
  "coordinator_new = \<lparr>co_domains = [], co_liveness = liveness_new, co_directory = directory_new, co_next_node_id = 1,
     co_telemetry = Map.empty, co_register_rejects = 0, co_revoked = Map.empty\<rparr>"

definition add_network :: "string \<Rightarrow> byte list \<Rightarrow> coordinator \<Rightarrow> coordinator" where
  "add_network name master_key c =
     c\<lparr>co_domains := co_domains c @ [network_domain_new name (network_id_for name) master_key]\<rparr>"

section \<open>Domain lookup\<close>

fun update_first :: "('a \<Rightarrow> bool) \<Rightarrow> ('a \<Rightarrow> 'a) \<Rightarrow> 'a list \<Rightarrow> 'a list" where
  "update_first p f [] = []"
| "update_first p f (x # xs) = (if p x then f x # xs else x # update_first p f xs)"

definition on_domain :: "(network_domain \<Rightarrow> bool) \<Rightarrow> (network_domain \<Rightarrow> network_domain) \<Rightarrow> coordinator \<Rightarrow> coordinator" where
  "on_domain p f c = c\<lparr>co_domains := update_first p f (co_domains c)\<rparr>"

definition domain_by_name :: "coordinator \<Rightarrow> string \<Rightarrow> network_domain option" where
  "domain_by_name c name = find (\<lambda>d. nd_name d = name) (co_domains c)"

definition domain_by_network_id :: "coordinator \<Rightarrow> u32 \<Rightarrow> network_domain option" where
  "domain_by_network_id c network_id = find (\<lambda>d. nd_network_id d = network_id) (co_domains c)"

definition holds_node :: "u32 \<Rightarrow> network_domain \<Rightarrow> bool" where
  "holds_node node_id d \<longleftrightarrow> registry_entry (nd_registry d) node_id \<noteq> None"

definition entry_network :: "coordinator \<Rightarrow> u32 \<Rightarrow> u32 option" where
  "entry_network c node_id =
     Option.bind (find (holds_node node_id) (co_domains c)) (\<lambda>d.
       map_option ne_network_id (registry_entry (nd_registry d) node_id))"

definition domain_of_node :: "coordinator \<Rightarrow> u32 \<Rightarrow> network_domain option" where
  "domain_of_node c node_id = Option.bind (entry_network c node_id) (domain_by_network_id c)"

definition node_entry_of :: "coordinator \<Rightarrow> u32 \<Rightarrow> node_entry option" where
  "node_entry_of c node_id = Option.bind (domain_of_node c node_id) (\<lambda>d. registry_entry (nd_registry d) node_id)"

definition network_id_of :: "coordinator \<Rightarrow> u32 \<Rightarrow> u32 option" where
  "network_id_of c node_id = map_option nd_network_id (domain_of_node c node_id)"

section \<open>Configuration\<close>

definition co_add_auth_key_spec :: "string \<Rightarrow> auth_key_spec \<Rightarrow> coordinator \<Rightarrow> bool \<times> coordinator" where
  "co_add_auth_key_spec key spec c =
     (case parse_auth_key key of
        Ok (network, _, _) \<Rightarrow>
          if domain_by_name c network = None then (False, c)
          else (True, on_domain (\<lambda>d. nd_name d = network)
                  (\<lambda>d. d\<lparr>nd_registry := add_auth_key_spec (nd_registry d) key spec\<rparr>) c)
      | _ \<Rightarrow> (False, c))"

definition co_add_auth_key :: "string \<Rightarrow> auth_key_policy \<Rightarrow> coordinator \<Rightarrow> bool \<times> coordinator" where
  "co_add_auth_key key policy c = co_add_auth_key_spec key (auth_key_simple policy) c"

definition co_remove_auth_key :: "string \<Rightarrow> coordinator \<Rightarrow> coordinator" where
  "co_remove_auth_key key c =
     (case parse_auth_key key of
        Ok (network, _, _) \<Rightarrow> on_domain (\<lambda>d. nd_name d = network) (\<lambda>d. d\<lparr>nd_registry := remove_auth_key (nd_registry d) key\<rparr>) c
      | _ \<Rightarrow> c)"

definition co_has_auth_key :: "coordinator \<Rightarrow> string \<Rightarrow> bool" where
  "co_has_auth_key c key = list_ex (\<lambda>d. has_auth_key (nd_registry d) key) (co_domains c)"

definition co_set_announce_whitelist :: "string \<Rightarrow> prefix list \<Rightarrow> coordinator \<Rightarrow> coordinator" where
  "co_set_announce_whitelist network wl c =
     on_domain (\<lambda>d. nd_name d = network) (\<lambda>d. d\<lparr>nd_registry := set_announce_whitelist (nd_registry d) wl\<rparr>) c"

definition set_acl_policy :: "string \<Rightarrow> acl_policy \<Rightarrow> coordinator \<Rightarrow> coordinator" where
  "set_acl_policy network policy c =
     (if domain_by_name c network = None then c
      else (on_domain (\<lambda>d. nd_name d = network) (\<lambda>d. d\<lparr>nd_acl := policy\<rparr>) c)\<lparr>co_directory := bump_netmap (co_directory c)\<rparr>)"

definition acl_policy_of :: "coordinator \<Rightarrow> u32 \<Rightarrow> acl_policy" where
  "acl_policy_of c network_id =
     (case domain_by_network_id c network_id of
        Some d \<Rightarrow> nd_acl d
      | None \<Rightarrow> \<lparr>acl_enabled = False, acl_rules = [], acl_groups = Map.empty\<rparr>)"

definition set_relay_constraints :: "string \<Rightarrow> relay_roster_config \<Rightarrow> coordinator \<Rightarrow> coordinator" where
  "set_relay_constraints network cfg c = on_domain (\<lambda>d. nd_name d = network) (\<lambda>d. d\<lparr>nd_relay_cfg := cfg\<rparr>) c"

definition domain_entries :: "orders \<Rightarrow> network_domain \<Rightarrow> node_entry list" where
  "domain_entries h d = map (\<lambda>i. the (registry_entry (nd_registry d) i)) (or_nodes h (nd_network_id d))"

definition set_exit_allow :: "orders \<Rightarrow> string \<Rightarrow> u32 list \<Rightarrow> coordinator \<Rightarrow> coordinator" where
  "set_exit_allow h network allow c =
     (case domain_by_name c network of
        None \<Rightarrow> c
      | Some d \<Rightarrow>
          let cap_exits = set (map ne_node_id (filter (\<lambda>e. ne_capabilities e AND CAPABILITY_EXIT \<noteq> 0) (domain_entries h d)));
              changed = (cap_exits \<inter> nd_exit_allow d \<noteq> cap_exits \<inter> set allow);
              c = on_domain (\<lambda>d. nd_name d = network) (\<lambda>d. d\<lparr>nd_exit_allow := set allow\<rparr>) c
          in if changed then c\<lparr>co_directory := bump_netmap (co_directory c)\<rparr> else c)"

definition store_telemetry :: "u32 \<Rightarrow> telemetry_view \<Rightarrow> u64 \<Rightarrow> coordinator \<Rightarrow> coordinator" where
  "store_telemetry node_id view now c = c\<lparr>co_telemetry := (co_telemetry c)(node_id \<mapsto> view\<lparr>tv_updated_at := now\<rparr>)\<rparr>"

section \<open>Registration and keys\<close>

definition register_inner :: "(byte list \<Rightarrow> byte list) \<Rightarrow> string \<Rightarrow> byte list \<Rightarrow> u32 \<Rightarrow> string list \<Rightarrow> u64 \<Rightarrow> u64 \<times> u64
    \<Rightarrow> coordinator \<Rightarrow> (register_error, register_data) outcome \<times> coordinator" where
  "register_inner sign auth_key pk caps routes now issuance c =
     (case parse_auth_key auth_key of
        Ok (network, expiry, _) \<Rightarrow>
          if expiry \<noteq> 0 \<and> expiry < now then (Err InvalidAuthKey, c)
          else
            (case domain_by_name c network of
               None \<Rightarrow> (Err InvalidAuthKey, c)
             | Some d \<Rightarrow>
                 if acl_enabled (nd_acl d) \<and> caps AND CAPABILITY_ACL = 0 then (Err AclCapabilityRequired, c)
                 else
                   (case register sign (nd_registry d) auth_key pk caps routes (co_next_node_id c) issuance of
                      (Err e, _) \<Rightarrow> (Err e, c)
                    | (Panic, _) \<Rightarrow> (Panic, c)
                    | (Ok outcome, reg) \<Rightarrow>
                        let c = on_domain (\<lambda>d. nd_name d = network) (\<lambda>d. d\<lparr>nd_registry := reg\<rparr>) c;
                            (node_id, c) = (case outcome of
                                NewNode i \<Rightarrow> (i, c\<lparr>co_next_node_id := co_next_node_id c + 1, co_directory := bump_netmap (co_directory c)\<rparr>)
                              | Existing i \<Rightarrow> (i, c))
                        in case node_entry_of c node_id of
                             None \<Rightarrow> (Panic, c)
                           | Some e \<Rightarrow>
                               (Ok \<lparr>rd_node_id = ne_node_id e, rd_network_id = ne_network_id e,
                                    rd_identity_binding = ne_identity_binding e, rd_binding_log_id = ne_binding_log_id e\<rparr>, c)))
      | _ \<Rightarrow> (Err InvalidAuthKey, c))"

definition co_register :: "(byte list \<Rightarrow> byte list) \<Rightarrow> string \<Rightarrow> byte list \<Rightarrow> u32 \<Rightarrow> string list \<Rightarrow> u64 \<Rightarrow> u64 \<times> u64
    \<Rightarrow> coordinator \<Rightarrow> (register_error, register_data) outcome \<times> coordinator" where
  "co_register sign auth_key pk caps routes now issuance c =
     (case register_inner sign auth_key pk caps routes now issuance c of
        (Err e, c) \<Rightarrow> (Err e, c\<lparr>co_register_rejects := saturating_inc (co_register_rejects c)\<rparr>)
      | r \<Rightarrow> r)"

definition key_dist :: "prims \<Rightarrow> coordinator \<Rightarrow> u32 \<Rightarrow> key_dist_data option" where
  "key_dist p c node_id =
     Option.bind (domain_of_node c node_id) (\<lambda>d.
     Option.bind (registry_entry (nd_registry d) node_id) (\<lambda>e.
       Some \<lparr>kd_to_node_id = node_id, kd_key = key_for p (nd_keys d) node_id, kd_key_version = km_key_version (nd_keys d),
             kd_broadcast_key = (if ne_capabilities e AND CAPABILITY_BROADCAST \<noteq> 0 then Some (broadcast_key p (nd_keys d)) else None)\<rparr>))"

definition co_set_endpoints :: "u32 \<Rightarrow> string list \<Rightarrow> string list \<Rightarrow> coordinator \<Rightarrow> coordinator" where
  "co_set_endpoints node_id lcl seen c = c\<lparr>co_directory := dr_set_endpoints node_id lcl seen (co_directory c)\<rparr>"

section \<open>Paths and relays\<close>

definition request_paths :: "prims \<Rightarrow> u32 \<Rightarrow> u32 \<Rightarrow> u32 \<Rightarrow> u64 \<Rightarrow> coordinator \<Rightarrow> (path_candidate \<times> byte list) list \<times> coordinator" where
  "request_paths p source dest mx now c =
     (case (domain_of_node c source, domain_of_node c dest) of
        (Some sd, Some dd) \<Rightarrow>
          if nd_network_id sd \<noteq> nd_network_id dd then ([], c)
          else
            (case request source dest mx now (nd_paths sd) of
               (cs, ps) \<Rightarrow>
                 (map (\<lambda>cand. (cand, km_key_path_for p (nd_keys sd) (path_id cand) (path_epoch cand))) cs,
                  on_domain (\<lambda>d. nd_network_id d = nd_network_id sd) (\<lambda>d. d\<lparr>nd_paths := ps\<rparr>) c))
      | _ \<Rightarrow> ([], c))"

definition take_path_events :: "u32 \<Rightarrow> coordinator \<Rightarrow> path_event list \<times> coordinator" where
  "take_path_events source c =
     (case domain_of_node c source of
        None \<Rightarrow> ([], c)
      | Some d \<Rightarrow>
          (case take_events source (nd_paths d) of
             (evs, ps) \<Rightarrow> (evs, on_domain (\<lambda>d'. nd_network_id d' = nd_network_id d) (\<lambda>d. d\<lparr>nd_paths := ps\<rparr>) c)))"

definition co_key_path_for :: "prims \<Rightarrow> coordinator \<Rightarrow> u32 \<Rightarrow> u64 \<Rightarrow> u32 \<Rightarrow> byte list" where
  "co_key_path_for p c source pid epoch =
     (case domain_of_node c source of Some d \<Rightarrow> km_key_path_for p (nd_keys d) pid epoch | None \<Rightarrow> replicate 32 0)"

definition rtt_result :: "network_domain \<Rightarrow> u32 \<times> u64 option \<Rightarrow> network_domain" where
  "rtt_result d r =
     (case r of
        (node, Some ms) \<Rightarrow> d\<lparr>nd_relay_rtt := (nd_relay_rtt d)(node \<mapsto> ms), nd_relay_miss := (nd_relay_miss d)(node \<mapsto> 0)\<rparr>
      | (node, None) \<Rightarrow>
          d\<lparr>nd_relay_miss := (nd_relay_miss d)(node \<mapsto> (case nd_relay_miss d node of Some m \<Rightarrow> m | None \<Rightarrow> 0) + 1)\<rparr>)"

definition record_relay_rtt_round :: "u32 \<Rightarrow> (u32 \<times> u64 option) list \<Rightarrow> coordinator \<Rightarrow> coordinator" where
  "record_relay_rtt_round network_id results c =
     on_domain (\<lambda>d. nd_network_id d = network_id) (\<lambda>d. foldl rtt_result d results) c"

definition relay_eligible :: "coordinator \<Rightarrow> network_domain \<Rightarrow> node_entry \<Rightarrow> bool" where
  "relay_eligible c d e \<longleftrightarrow>
     ne_capabilities e AND CAPABILITY_RELAY \<noteq> 0 \<and> ne_node_id e \<notin> set (rc_exclude (nd_relay_cfg d))
     \<and> \<not> is_offline (ne_node_id e) (co_liveness c)"

definition rtt_of :: "network_domain \<Rightarrow> u32 \<Rightarrow> u64" where
  "rtt_of d node = (case nd_relay_rtt d node of Some ms \<Rightarrow> ms | None \<Rightarrow> - 1)"

definition measured_healthy :: "network_domain \<Rightarrow> u32 \<Rightarrow> bool" where
  "measured_healthy d node \<longleftrightarrow>
     nd_relay_rtt d node \<noteq> None \<and> (case nd_relay_miss d node of Some m \<Rightarrow> m | None \<Rightarrow> 0) < RELAY_EXIT_MISS_ROUNDS"

definition add_included :: "network_domain \<Rightarrow> u32 list \<Rightarrow> u32 \<Rightarrow> u32 list" where
  "add_included d roster n =
     (if n \<in> set (rc_include (nd_relay_cfg d)) \<and> n \<notin> set roster \<and> measured_healthy d n then roster @ [n] else roster)"

definition propose_relay_roster :: "orders \<Rightarrow> coordinator \<Rightarrow> u32 \<Rightarrow> u32 list" where
  "propose_relay_roster h c network_id =
     (case domain_by_network_id c network_id of
        None \<Rightarrow> []
      | Some d \<Rightarrow>
          let eligible = map ne_node_id (filter (relay_eligible c d) (domain_entries h d));
              auto = filter (\<lambda>n. public_direct (co_directory c) n \<and> measured_healthy d n) eligible;
              auto = take (rc_max_size (nd_relay_cfg d)) (sort_key (\<lambda>n. (rtt_of d n, n)) auto)
          in sort_key (\<lambda>n. (rtt_of d n, n)) (foldl (add_included d) auto eligible))"

definition apply_relay_roster :: "orders \<Rightarrow> u32 \<Rightarrow> u32 list \<Rightarrow> u64 \<Rightarrow> coordinator \<Rightarrow> bool \<times> coordinator" where
  "apply_relay_roster h network_id roster now c =
     (case domain_by_network_id c network_id of
        None \<Rightarrow> (False, c)
      | Some d \<Rightarrow>
          let dropped = filter (\<lambda>r. r \<notin> set roster) (nd_roster d);
              (changed, d') = apply_roster roster d;
              ps = foldl (\<lambda>ps node. withdraw_relay (or_paths h network_id) node ps) (nd_paths d') dropped;
              ps = expand_relay_candidates (or_paths h network_id) now ps;
              c = on_domain (\<lambda>d. nd_network_id d = network_id) (\<lambda>_. d'\<lparr>nd_paths := ps\<rparr>) c
          in (changed, if changed then c\<lparr>co_directory := bump_netmap (co_directory c)\<rparr> else c))"

definition relay_roster_for :: "coordinator \<Rightarrow> u32 \<Rightarrow> u32 list" where
  "relay_roster_for c network_id = (case domain_by_network_id c network_id of Some d \<Rightarrow> nd_roster d | None \<Rightarrow> [])"

definition relay_probe_targets :: "orders \<Rightarrow> coordinator \<Rightarrow> u32 \<Rightarrow> (u32 \<times> string list) list" where
  "relay_probe_targets h c network_id =
     (case domain_by_network_id c network_id of
        None \<Rightarrow> []
      | Some d \<Rightarrow>
          map (\<lambda>e. (ne_node_id e, merged_endpoints_of (co_directory c) (ne_node_id e)))
            (filter (\<lambda>e. ne_node_id e \<notin> set (rc_exclude (nd_relay_cfg d)))
              (filter (\<lambda>e. ne_capabilities e AND CAPABILITY_RELAY \<noteq> 0) (domain_entries h d))))"

section \<open>Netmap\<close>

definition node_info_of :: "coordinator \<Rightarrow> network_domain \<Rightarrow> node_entry \<Rightarrow> node_info" where
  "node_info_of c d e =
     \<lparr>ni_node_id = ne_node_id e, ni_network_id = ne_network_id e, ni_static_pubkey = ne_static_pubkey e,
      ni_capabilities = ne_capabilities e, ni_routes = ne_routes e,
      ni_endpoints = merged_endpoints_of (co_directory c) (ne_node_id e), ni_offline = is_offline (ne_node_id e) (co_liveness c),
      ni_protocol_version = protocol_version (co_directory c) (ne_node_id e), ni_identity_binding = ne_identity_binding e,
      ni_binding_log_id = ne_binding_log_id e,
      ni_exit = (ne_capabilities e AND CAPABILITY_EXIT \<noteq> 0 \<and> ne_node_id e \<in> nd_exit_allow d)\<rparr>"

definition netmap_snapshot :: "orders \<Rightarrow> coordinator \<Rightarrow> u32 \<Rightarrow> node_info list" where
  "netmap_snapshot h c network_id =
     concat (map (\<lambda>d. map (node_info_of c d) (domain_entries h d)) (filter (\<lambda>d. nd_network_id d = network_id) (co_domains c)))"

section \<open>Leases and dynamic routes\<close>

definition drop_routes :: "orders \<Rightarrow> u32 \<Rightarrow> coordinator \<Rightarrow> coordinator" where
  "drop_routes h node c =
     (case domain_of_node c node of
        None \<Rightarrow> c
      | Some d \<Rightarrow>
          on_domain (\<lambda>d'. nd_network_id d' = nd_network_id d)
            (\<lambda>d. d\<lparr>nd_route_map := snd (rm_withdraw_node (or_routes h (nd_network_id d)) node (nd_route_map d)),
                   nd_route_map_pushed := (nd_route_map_pushed d)(node := None)\<rparr>) c)"

definition flush_revoke_rotations :: "u64 \<Rightarrow> coordinator \<Rightarrow> bool \<times> coordinator" where
  "flush_revoke_rotations now c =
     (list_ex (\<lambda>d. fst (take_revoke_rotation now (nd_keys d))) (co_domains c),
      c\<lparr>co_domains := map (\<lambda>d. d\<lparr>nd_keys := snd (take_revoke_rotation now (nd_keys d))\<rparr>) (co_domains c)\<rparr>)"

definition co_heartbeat :: "orders \<Rightarrow> u32 \<Rightarrow> u64 \<Rightarrow> coordinator \<Rightarrow> bool \<times> coordinator" where
  "co_heartbeat h node_id now c =
     (let c = snd (flush_revoke_rotations now c);
          was_offline = is_offline node_id (co_liveness c);
          l = snd (lv_heartbeat node_id now (co_liveness c));
          (newly_offline, l) = sweep (or_seen h) now l;
          c = foldl (\<lambda>c n. drop_routes h n c) (c\<lparr>co_liveness := l\<rparr>) newly_offline
      in (was_offline, if was_offline \<or> newly_offline \<noteq> [] then c\<lparr>co_directory := bump_netmap (co_directory c)\<rparr> else c))"

definition co_mark_offline :: "orders \<Rightarrow> u32 \<Rightarrow> coordinator \<Rightarrow> coordinator" where
  "co_mark_offline h node_id c =
     (if list_ex (holds_node node_id) (co_domains c) then
        (case lv_mark_offline node_id (co_liveness c) of
           (newly, l) \<Rightarrow>
             let c = c\<lparr>co_liveness := l\<rparr>
             in if newly then (drop_routes h node_id c)\<lparr>co_directory := bump_netmap (co_directory c)\<rparr> else c)
      else c)"

fun ok_values :: "('e, 'a) outcome list \<Rightarrow> 'a list" where
  "ok_values [] = []"
| "ok_values (Ok v # rs) = v # ok_values rs"
| "ok_values (_ # rs) = ok_values rs"

definition apply_route_sync :: "u32 \<Rightarrow> (prefix \<times> string) list \<Rightarrow> prefix list \<Rightarrow> u64 \<Rightarrow> coordinator
    \<Rightarrow> route_sync_outcome option \<times> coordinator" where
  "apply_route_sync node_id announced withdrawn now c =
     (case domain_of_node c node_id of
        None \<Rightarrow> (None, c)
      | Some d \<Rightarrow>
          let coverage = (case registry_entry (nd_registry d) node_id of
                  Some e \<Rightarrow> ok_values (map prefix_parse (ne_routes e)) | None \<Rightarrow> []);
              (rm, out) = apply_sync node_id announced withdrawn coverage ROUTE_MAP_MAX_PER_NODE now (nd_route_map d)
          in (Some out, on_domain (\<lambda>d'. nd_network_id d' = nd_network_id d) (\<lambda>d. d\<lparr>nd_route_map := rm\<rparr>) c))"

definition take_route_map_push :: "orders \<Rightarrow> u32 \<Rightarrow> coordinator \<Rightarrow> (u64 \<times> route_map_snapshot_entry list) option \<times> coordinator" where
  "take_route_map_push h node_id c =
     (case domain_of_node c node_id of
        None \<Rightarrow> (None, c)
      | Some d \<Rightarrow>
          let version = rm_version (nd_route_map d)
          in if nd_route_map_pushed d node_id = Some version then (None, c)
             else (Some (version, rm_snapshot (or_routes h (nd_network_id d)) (nd_route_map d)),
                   on_domain (\<lambda>d'. nd_network_id d' = nd_network_id d)
                     (\<lambda>d. d\<lparr>nd_route_map_pushed := (nd_route_map_pushed d)(node_id \<mapsto> version)\<rparr>) c))"

definition reset_liveness_on_takeover :: "orders \<Rightarrow> u64 \<Rightarrow> coordinator \<Rightarrow> coordinator" where
  "reset_liveness_on_takeover h now c =
     c\<lparr>co_liveness := foldl (\<lambda>l e. snd (lv_heartbeat (ne_node_id e) now l)) (co_liveness c)
          (concat (map (domain_entries h) (co_domains c))),
       co_directory := bump_netmap (co_directory c)\<rparr>"

section \<open>Revocation and rotation\<close>

definition revoke_in_domain :: "orders \<Rightarrow> u32 \<Rightarrow> u64 \<Rightarrow> network_domain \<Rightarrow> network_domain" where
  "revoke_in_domain h node_id now d =
     (let ps = withdraw_node (or_paths h (nd_network_id d)) node_id (nd_paths d);
          roster = filter (\<lambda>r. r \<noteq> node_id) (nd_roster d)
      in d\<lparr>nd_registry := registry_revoke (nd_registry d) node_id,
           nd_paths := (if node_id \<in> set (nd_roster d) then set_relays roster ps else ps),
           nd_route_map := snd (rm_withdraw_node (or_routes h (nd_network_id d)) node_id (nd_route_map d)),
           nd_route_map_pushed := Map.empty,
           nd_roster := (if node_id \<in> set (nd_roster d) then roster else nd_roster d),
           nd_keys := arm_revoke_rotation (now + REVOKE_ROTATION_WINDOW_SECS) (nd_keys d)\<rparr>)"

definition co_revoke :: "orders \<Rightarrow> u32 \<Rightarrow> u64 \<Rightarrow> u64 \<times> u64 \<Rightarrow> coordinator \<Rightarrow> coordinator" where
  "co_revoke h node_id now log_id c =
     (let c = snd (flush_revoke_rotations now c)
      in if list_ex (holds_node node_id) (co_domains c) then
           (on_domain (holds_node node_id) (revoke_in_domain h node_id now) c)
             \<lparr>co_liveness := lv_remove node_id (co_liveness c),
              co_directory := bump_netmap (dr_remove_node node_id (co_directory c)),
              co_telemetry := (co_telemetry c)(node_id := None),
              co_revoked := (co_revoked c)(node_id \<mapsto> log_id)\<rparr>
         else c)"

definition rotate_master_key :: "string \<Rightarrow> byte list \<Rightarrow> coordinator \<Rightarrow> coordinator" where
  "rotate_master_key network new_master_key c =
     on_domain (\<lambda>d. nd_name d = network) (\<lambda>d. d\<lparr>nd_keys := clear_revoke_rotation (km_rotate new_master_key (nd_keys d))\<rparr>) c"

definition key_version_for :: "coordinator \<Rightarrow> string \<Rightarrow> u32" where
  "key_version_for c network = (case domain_by_name c network of Some d \<Rightarrow> km_key_version (nd_keys d) | None \<Rightarrow> 0)"

section \<open>Queries\<close>

fun first_some :: "('a \<Rightarrow> 'b option) \<Rightarrow> 'a list \<Rightarrow> 'b option" where
  "first_some f [] = None"
| "first_some f (x # xs) = (case f x of Some y \<Rightarrow> Some y | None \<Rightarrow> first_some f xs)"

definition co_node_id_by_pubkey :: "coordinator \<Rightarrow> byte list \<Rightarrow> u32 option" where
  "co_node_id_by_pubkey c pk = first_some (\<lambda>d. node_id_by_pubkey (nd_registry d) pk) (co_domains c)"

definition static_pubkey_of :: "coordinator \<Rightarrow> u32 \<Rightarrow> byte list option" where
  "static_pubkey_of c node_id = map_option ne_static_pubkey (node_entry_of c node_id)"

definition identity_binding_of :: "coordinator \<Rightarrow> u32 \<Rightarrow> byte list option" where
  "identity_binding_of c node_id = map_option ne_identity_binding (node_entry_of c node_id)"

definition binding_log_id_of :: "coordinator \<Rightarrow> u32 \<Rightarrow> (u64 \<times> u64) option" where
  "binding_log_id_of c node_id = map_option ne_binding_log_id (node_entry_of c node_id)"

definition revocation_of :: "coordinator \<Rightarrow> u32 \<Rightarrow> (u64 \<times> u64) option" where
  "revocation_of c node_id = co_revoked c node_id"

definition auth_key_admissible :: "coordinator \<Rightarrow> string \<Rightarrow> u64 \<Rightarrow> bool" where
  "auth_key_admissible c auth_key now =
     (case parse_auth_key auth_key of
        Ok (network, expiry, _) \<Rightarrow>
          \<not> (expiry \<noteq> 0 \<and> expiry < now) \<and> list_ex (\<lambda>d. nd_name d = network \<and> has_auth_key (nd_registry d) auth_key) (co_domains c)
      | _ \<Rightarrow> False)"

definition resume_matches :: "coordinator \<Rightarrow> u32 \<Rightarrow> u32 \<Rightarrow> string list \<Rightarrow> bool" where
  "resume_matches c node_id caps routes =
     (case node_entry_of c node_id of Some e \<Rightarrow> ne_capabilities e = caps \<and> ne_routes e = routes | None \<Rightarrow> False)"

section \<open>The invariant\<close>

text \<open>Networks have distinct names and ids (the configuration is checked for that). Each registry is consistent and
  holds nodes of its own network; a node id is in one network only, at least 1 and below the allocator, as are the
  ids of revoked nodes, which are in no network. The path service uses the roster as its relays and has paths
  between registered nodes of its network only.\<close>

definition domain_ok :: "u32 \<Rightarrow> network_domain \<Rightarrow> bool" where
  "domain_ok next d \<longleftrightarrow>
     registry_ok (nd_registry d) \<and> rg_network_id (nd_registry d) = nd_network_id d
     \<and> (\<forall>i e. rg_entries (nd_registry d) i = Some e \<longrightarrow> ne_network_id e = nd_network_id d \<and> 0 < i \<and> i < next)
     \<and> ps_relays (nd_paths d) = nd_roster d
     \<and> (\<forall>a b. ps_map (nd_paths d) (a, b) \<noteq> None \<longrightarrow> holds_node a d \<and> holds_node b d)"

definition coord_ok :: "coordinator \<Rightarrow> bool" where
  "coord_ok c \<longleftrightarrow>
     distinct (map nd_name (co_domains c)) \<and> distinct (map nd_network_id (co_domains c)) \<and> 0 < co_next_node_id c
     \<and> (\<forall>d \<in> set (co_domains c). domain_ok (co_next_node_id c) d)
     \<and> (\<forall>d \<in> set (co_domains c). \<forall>d' \<in> set (co_domains c). \<forall>i. holds_node i d \<longrightarrow> holds_node i d' \<longrightarrow> nd_network_id d = nd_network_id d')
     \<and> (\<forall>i \<in> dom (co_revoked c). i < co_next_node_id c \<and> (\<forall>d \<in> set (co_domains c). \<not> holds_node i d))"

lemma coord_ok_frame [simp]:
  "coord_ok (c\<lparr>co_directory := x\<rparr>) = coord_ok c" "coord_ok (c\<lparr>co_liveness := l\<rparr>) = coord_ok c"
  "coord_ok (c\<lparr>co_telemetry := t\<rparr>) = coord_ok c" "coord_ok (c\<lparr>co_register_rejects := n\<rparr>) = coord_ok c"
  by (simp_all add: coord_ok_def)

lemma holds_below: "domain_ok next d \<Longrightarrow> holds_node i d \<Longrightarrow> 0 < i \<and> i < next"
  by (auto simp: domain_ok_def holds_node_def registry_entry_def)

lemma domain_ok_mono: "domain_ok next d \<Longrightarrow> next \<le> next' \<Longrightarrow> domain_ok next' d"
  unfolding domain_ok_def by (meson less_le_trans)

lemma update_first_Some:
  "find p xs = Some x \<Longrightarrow> \<exists>ys zs. xs = ys @ x # zs \<and> p x \<and> list_all (\<lambda>y. \<not> p y) ys \<and> update_first p f xs = ys @ f x # zs"
proof (induction xs)
  case (Cons y xs)
  show ?case
  proof (cases "p y")
    case True
    then show ?thesis using Cons.prems by (auto intro: exI [of _ "[]"])
  next
    case False
    then obtain ys zs where "xs = ys @ x # zs" "p x" "list_all (\<lambda>y. \<not> p y) ys" "update_first p f xs = ys @ f x # zs"
      using Cons by auto
    then show ?thesis using False by - (rule exI [of _ "y # ys"], simp)
  qed
qed simp

lemma update_first_None: "find p xs = None \<Longrightarrow> update_first p f xs = xs"
  by (induction xs) (auto split: if_splits)

lemma coord_ok_update:
  assumes ok: "coord_ok c" and c: "co_domains c = xs @ d # ys" and c': "co_domains c' = xs @ d' # ys"
    and same: "nd_name d' = nd_name d" "nd_network_id d' = nd_network_id d"
    and le: "co_next_node_id c \<le> co_next_node_id c'" and d': "domain_ok (co_next_node_id c') d'"
    and holds: "\<And>i. holds_node i d' \<Longrightarrow> holds_node i d \<or> co_next_node_id c \<le> i"
    and rev: "\<And>i. i \<in> dom (co_revoked c') \<Longrightarrow> \<not> holds_node i d' \<and> (i \<in> dom (co_revoked c) \<or> holds_node i d)"
  shows "coord_ok c'"
  unfolding coord_ok_def
proof (intro conjI ballI allI impI)
  have old: "domain_ok (co_next_node_id c) x" if "x \<in> set (co_domains c)" for x using ok that by (simp add: coord_ok_def)
  have uniq: "nd_network_id x = nd_network_id y" if "x \<in> set (co_domains c)" "y \<in> set (co_domains c)" "holds_node i x" "holds_node i y" for x y i
    using ok that unfolding coord_ok_def by blast
  have sub: "x = d' \<or> x \<in> set (co_domains c)" if "x \<in> set (co_domains c')" for x using that by (auto simp: c c')
  have d: "d \<in> set (co_domains c)" by (simp add: c)
  show "distinct (map nd_name (co_domains c'))" "distinct (map nd_network_id (co_domains c'))" "0 < co_next_node_id c'"
    using ok le same by (auto simp: coord_ok_def c c')
  show "domain_ok (co_next_node_id c') x" if "x \<in> set (co_domains c')" for x
    using sub [OF that] d' old domain_ok_mono [OF _ le] by blast
  show "nd_network_id x = nd_network_id y" if "x \<in> set (co_domains c')" "y \<in> set (co_domains c')" "holds_node i x" "holds_node i y" for x y i
    using sub [OF that(1)] sub [OF that(2)] that(3,4) holds uniq d same old holds_below by (metis linorder_not_le)
  show "i < co_next_node_id c'" if "i \<in> dom (co_revoked c')" for i
    using rev [OF that] ok le holds_below [OF old [OF d]] unfolding coord_ok_def by (meson less_le_trans)
  show "\<not> holds_node i x" if "i \<in> dom (co_revoked c')" "x \<in> set (co_domains c')" for i x
  proof (cases "x = d'")
    case False
    then have "x \<in> set xs \<union> set ys" using that(2) by (simp add: c')
    moreover have "nd_network_id d \<notin> nd_network_id ` (set xs \<union> set ys)" using ok by (simp add: c coord_ok_def image_Un)
    ultimately have x: "x \<in> set (co_domains c)" "nd_network_id x \<noteq> nd_network_id d" by (auto simp: c, metis UnI1 UnI2 image_eqI)+
    show ?thesis using rev [OF that(1)] uniq [OF x(1) d, of i] x ok unfolding coord_ok_def by blast
  qed (use rev [OF that(1)] in simp)
qed

text \<open>A change of one domain that keeps its name, its network and its nodes.\<close>

definition keeps_domain :: "network_domain \<Rightarrow> network_domain \<Rightarrow> bool" where
  "keeps_domain d d' \<longleftrightarrow>
     nd_name d' = nd_name d \<and> nd_network_id d' = nd_network_id d \<and> rg_entries (nd_registry d') = rg_entries (nd_registry d)
     \<and> (\<forall>next. domain_ok next d \<longrightarrow> domain_ok next d')"

lemma keeps_domain_holds: "keeps_domain d d' \<Longrightarrow> holds_node i d' = holds_node i d"
  by (simp add: keeps_domain_def holds_node_def registry_entry_def)

lemma on_domain_next [simp]: "co_next_node_id (on_domain p f c) = co_next_node_id c" "co_revoked (on_domain p f c) = co_revoked c"
  by (simp_all add: on_domain_def)

lemma coord_ok_on_domain:
  assumes "coord_ok c" and "\<And>d. d \<in> set (co_domains c) \<Longrightarrow> p d \<Longrightarrow> keeps_domain d (f d)"
  shows "coord_ok (on_domain p f c)"
proof (cases "find p (co_domains c)")
  case None
  then show ?thesis using assms(1) by (simp add: on_domain_def update_first_None)
next
  case (Some d)
  obtain xs ys where d: "co_domains c = xs @ d # ys" "p d" "update_first p f (co_domains c) = xs @ f d # ys"
    using update_first_Some [OF Some, of f] by auto
  have k: "keeps_domain d (f d)" using assms(2) d by simp
  show ?thesis
  proof (rule coord_ok_update [OF assms(1) d(1)])
    show "co_domains (on_domain p f c) = xs @ f d # ys" using d(3) by (simp add: on_domain_def)
    show "nd_name (f d) = nd_name d" "nd_network_id (f d) = nd_network_id d" using k by (simp_all add: keeps_domain_def)
    show "domain_ok (co_next_node_id (on_domain p f c)) (f d)"
      using k assms(1) d(1) by (simp add: keeps_domain_def coord_ok_def)
    show "\<not> holds_node i (f d) \<and> (i \<in> dom (co_revoked c) \<or> holds_node i d)" if "i \<in> dom (co_revoked (on_domain p f c))" for i
      using that assms(1) d(1) keeps_domain_holds [OF k] by (auto simp: coord_ok_def)
  qed (use keeps_domain_holds [OF k] in simp_all)
qed

text \<open>A change outside the registry's nodes, the paths and the roster keeps a domain.\<close>

lemma keeps_domain_other:
  assumes "nd_name d' = nd_name d" "nd_network_id d' = nd_network_id d" "nd_registry d' = nd_registry d" "nd_paths d' = nd_paths d"
    "nd_roster d' = nd_roster d"
  shows "keeps_domain d d'"
  using assms by (simp add: keeps_domain_def domain_ok_def holds_node_def)

lemma keeps_domain_registry:
  assumes "reg_op sign (nd_registry d) g" and "rg_entries g = rg_entries (nd_registry d)" and "rg_network_id g = rg_network_id (nd_registry d)"
  shows "keeps_domain d (d\<lparr>nd_registry := g\<rparr>)"
  using assms registry_ok_op [OF assms(1)] by (auto simp: keeps_domain_def domain_ok_def holds_node_def registry_entry_def)

lemma keeps_domain_paths:
  assumes "ps_relays ps = roster" and "\<And>a b. ps_map ps (a, b) \<noteq> None \<Longrightarrow> ps_map (nd_paths d) (a, b) \<noteq> None \<or> holds_node a d \<and> holds_node b d"
  shows "keeps_domain d (d\<lparr>nd_paths := ps, nd_roster := roster\<rparr>)"
proof -
  have "holds_node x (d\<lparr>nd_paths := ps, nd_roster := roster\<rparr>) = holds_node x d" for x by (simp add: holds_node_def)
  then show ?thesis using assms unfolding keeps_domain_def domain_ok_def by (simp del: not_None_eq) blast
qed

lemma relay_candidates_relays: "relay_candidates d mx now rs cs s = (cs', s') \<Longrightarrow> ps_relays s' = ps_relays s"
  by (induction rs arbitrary: cs s) (auto simp: new_candidate_def alloc_path_id_def split: if_splits)

lemma fill_relays_frame: "fill_relays d b now rs cs s = (cs', s') \<Longrightarrow> ps_relays s' = ps_relays s \<and> ps_map s' = ps_map s"
  by (induction rs arbitrary: cs s) (auto simp: new_candidate_def alloc_path_id_def split: if_splits)

lemma request_relays: "ps_relays (snd (request a d mx now s)) = ps_relays s"
proof -
  obtain c t where c: "new_candidate [d] now s = (c, t)" by fastforce
  obtain cs u where u: "relay_candidates d mx now (other_relays s a d) [c] t = (cs, u)" by fastforce
  have "ps_relays u = ps_relays s" using relay_candidates_relays [OF u] c by (auto simp: new_candidate_def alloc_path_id_def)
  moreover have "ps_relays (push_to_participants x y rs ps v) = ps_relays v" for x y rs ps v
    using queued_push_to_participants by (simp add: queued_def)
  ultimately show ?thesis using c u by (simp add: request_def Let_def split: option.split)
qed

lemma expand_key_frame: "ps_relays (expand_key now s k) = ps_relays s \<and> dom (ps_map (expand_key now s k)) \<subseteq> dom (ps_map s)"
proof (cases "ps_map s k")
  case (Some ps)
  let ?dir = "filter (\<lambda>c. length (hops c) = 1) (candidates ps)" and ?rs = "other_relays s (fst k) (snd k)"
  obtain dir t where t: "(if ?dir = [] then (case new_candidate [snd k] now s of (c, s) \<Rightarrow> ([c], s)) else (?dir, s)) = (dir, t)" by fastforce
  have f: "ps_relays t = ps_relays s" "ps_map t = ps_map s" using t by (auto simp: new_candidate_def alloc_path_id_def split: if_splits)
  obtain cs u where u: "fill_relays (snd k) (unat (clamp_max (set_max ps))) now ?rs (dir @ kept_relays ?rs (candidates ps)) t = (cs, u)"
    by fastforce
  have "ps_relays (push_to_participants x y rs ps v) = ps_relays v \<and> ps_map (push_to_participants x y rs ps v) = ps_map v" for x y rs ps v
    using queued_push_to_participants by (simp add: queued_def)
  then show ?thesis using Some t u f fill_relays_frame [OF u] by (cases k) (auto simp: expand_key_def Let_def split: if_splits)
qed (cases k, simp add: expand_key_def)

lemma expand_frame: "ps_relays (expand_relay_candidates ks now s) = ps_relays s \<and> dom (ps_map (expand_relay_candidates ks now s)) \<subseteq> dom (ps_map s)"
  unfolding expand_relay_candidates_def
proof (rule foldl_inv)
  show "ps_relays (expand_key now t k) = ps_relays s \<and> dom (ps_map (expand_key now t k)) \<subseteq> dom (ps_map s)"
    if "ps_relays t = ps_relays s \<and> dom (ps_map t) \<subseteq> dom (ps_map s)" for t k
    using that expand_key_frame [of now t k] by simp blast
qed simp

lemma withdraw_relay_frame: "ps_relays (withdraw_relay ks n s) = ps_relays s \<and> dom (ps_map (withdraw_relay ks n s)) \<subseteq> dom (ps_map s)"
  unfolding withdraw_relay_def
proof (rule foldl_inv)
  fix t :: path_service and x :: "u32 \<times> u32"
  assume t: "ps_relays t = ps_relays s \<and> dom (ps_map t) \<subseteq> dom (ps_map s)"
  obtain a d where x: "x = (a, d)" by (cases x)
  have "ps_relays (withdraw_relay_in_set a d n t) = ps_relays t" using withdraw_relay_in_set_effect [of t a d n] by (simp add: queued_def)
  moreover have "dom (ps_map (withdraw_relay_in_set a d n t)) \<subseteq> dom (ps_map t)"
    unfolding ps_map_withdraw_relay_in_set by (auto split: if_splits simp: bind_eq_Some_conv)
  ultimately show "ps_relays (case x of (a, d) \<Rightarrow> withdraw_relay_in_set a d n t) = ps_relays s
      \<and> dom (ps_map (case x of (a, d) \<Rightarrow> withdraw_relay_in_set a d n t)) \<subseteq> dom (ps_map s)"
    using t x by auto
qed simp

end
