(* ===== verification/Coord_Machine.thy ===== *)
theory Coord_Machine
  imports Coordinator
begin

text \<open>
  The coordinator as a replicated state machine (\<open>rill-coord/src/raft/mod.rs\<close>, \<open>rill-coord/src/raft/machine.rs\<close>):
  the invariant of the coordinator over every operation, the commands of the log and their application, and the
  local events of a replica, with the theorems that hold over every interleaving of them.
\<close>

section \<open>Nodes and their domains\<close>

lemma find_holds: "find p xs = Some x \<Longrightarrow> x \<in> set xs \<and> p x"
  by (auto simp: find_Some_iff)

lemma find_iff:
  assumes "x \<in> set xs" and "p x" and "\<And>y. y \<in> set xs \<Longrightarrow> p y \<Longrightarrow> y = x"
  shows "find p xs = Some x"
proof -
  obtain y where "find p xs = Some y" using assms(1,2) by (metis find_None_iff not_None_eq)
  then show ?thesis using find_holds [of p xs y] assms(3) by simp
qed

lemma same_network: "coord_ok c \<Longrightarrow> x \<in> set (co_domains c) \<Longrightarrow> y \<in> set (co_domains c) \<Longrightarrow> nd_network_id x = nd_network_id y \<Longrightarrow> x = y"
  unfolding coord_ok_def distinct_map inj_on_def by blast

lemma same_name: "coord_ok c \<Longrightarrow> x \<in> set (co_domains c) \<Longrightarrow> y \<in> set (co_domains c) \<Longrightarrow> nd_name x = nd_name y \<Longrightarrow> x = y"
  unfolding coord_ok_def distinct_map inj_on_def by blast

lemma domain_of_node_iff:
  assumes ok: "coord_ok c"
  shows "domain_of_node c n = Some d \<longleftrightarrow> d \<in> set (co_domains c) \<and> holds_node n d"
proof -
  have one: "find (holds_node n) (co_domains c) = Some x" if "x \<in> set (co_domains c)" "holds_node n x" for x
    using that ok same_network [OF ok] unfolding coord_ok_def by (intro find_iff) blast+
  have net: "entry_network c n = Some (nd_network_id x)" if "x \<in> set (co_domains c)" "holds_node n x" for x
  proof -
    have "domain_ok (co_next_node_id c) x" using ok that by (simp add: coord_ok_def)
    then show ?thesis using one [OF that] that(2) by (auto simp: entry_network_def holds_node_def registry_entry_def domain_ok_def)
  qed
  have by_id: "domain_by_network_id c (nd_network_id x) = Some x" if "x \<in> set (co_domains c)" for x
    unfolding domain_by_network_id_def using that same_network [OF ok] by (intro find_iff) auto
  show ?thesis
  proof
    assume d: "domain_of_node c n = Some d"
    then obtain x where "find (holds_node n) (co_domains c) = Some x" by (auto simp: domain_of_node_def entry_network_def bind_eq_Some_conv)
    then have x: "x \<in> set (co_domains c)" "holds_node n x" by (blast dest: find_holds)+
    then show "d \<in> set (co_domains c) \<and> holds_node n d" using d net [OF x] by_id [OF x(1)] by (simp add: domain_of_node_def)
  next
    assume "d \<in> set (co_domains c) \<and> holds_node n d"
    then show "domain_of_node c n = Some d" using net [of d] by_id [of d] by (simp add: domain_of_node_def)
  qed
qed

lemma domain_of_node_None: "coord_ok c \<Longrightarrow> domain_of_node c n = None \<longleftrightarrow> (\<forall>d \<in> set (co_domains c). \<not> holds_node n d)"
  using domain_of_node_iff by (metis not_None_eq)

section \<open>Every operation keeps the invariant\<close>

lemma coord_ok_map_keys:
  assumes ok: "coord_ok c"
  shows "coord_ok (c\<lparr>co_domains := map (\<lambda>d. d\<lparr>nd_keys := f d\<rparr>) (co_domains c)\<rparr>)" (is "coord_ok ?c")
proof -
  have f: "domain_ok m (d\<lparr>nd_keys := k\<rparr>) = domain_ok m d" "holds_node i (d\<lparr>nd_keys := k\<rparr>) = holds_node i d" for m d k i
    by (simp_all add: domain_ok_def holds_node_def)
  have sub: "\<exists>y \<in> set (co_domains c). x = y\<lparr>nd_keys := f y\<rparr>" if "x \<in> set (co_domains ?c)" for x using that by auto
  show ?thesis
    unfolding coord_ok_def
  proof (intro conjI ballI allI impI)
    show "distinct (map nd_name (co_domains ?c))" "distinct (map nd_network_id (co_domains ?c))" "0 < co_next_node_id ?c"
      using ok by (simp_all add: coord_ok_def comp_def)
    show "domain_ok (co_next_node_id ?c) x" if "x \<in> set (co_domains ?c)" for x
      using sub [OF that] ok f(1) by (auto simp: coord_ok_def)
    show "nd_network_id x = nd_network_id y" if h: "x \<in> set (co_domains ?c)" "y \<in> set (co_domains ?c)" "holds_node i x" "holds_node i y" for x y i
    proof -
      obtain x' y' where xy: "x' \<in> set (co_domains c)" "y' \<in> set (co_domains c)" "x = x'\<lparr>nd_keys := f x'\<rparr>" "y = y'\<lparr>nd_keys := f y'\<rparr>"
        using sub [OF h(1)] sub [OF h(2)] by blast
      then have "holds_node i x'" "holds_node i y'" using h(3,4) f(2) by simp_all
      then have "nd_network_id x' = nd_network_id y'" using ok xy(1,2) unfolding coord_ok_def by blast
      then show ?thesis using xy by simp
    qed
    show "i < co_next_node_id ?c" if "i \<in> dom (co_revoked ?c)" for i using that ok by (simp add: coord_ok_def)
    show "\<not> holds_node i x" if h: "i \<in> dom (co_revoked ?c)" "x \<in> set (co_domains ?c)" for i x
    proof -
      obtain y where y: "y \<in> set (co_domains c)" "x = y\<lparr>nd_keys := f y\<rparr>" using sub [OF h(2)] by blast
      have "i \<in> dom (co_revoked c)" using h(1) by simp
      then have "\<not> holds_node i y" using ok y(1) unfolding coord_ok_def by blast
      then show ?thesis unfolding y(2) f(2) .
    qed
  qed
qed

lemma coord_ok_flush: "coord_ok c \<Longrightarrow> coord_ok (snd (flush_revoke_rotations now c))"
  by (simp add: flush_revoke_rotations_def coord_ok_map_keys)

lemma keeps_domain_same_roster:
  assumes "ps_relays ps = ps_relays (nd_paths d)" and "\<And>a b. ps_map ps (a, b) \<noteq> None \<Longrightarrow> ps_map (nd_paths d) (a, b) \<noteq> None \<or> holds_node a d \<and> holds_node b d"
  shows "keeps_domain d (d\<lparr>nd_paths := ps\<rparr>)"
proof (cases "ps_relays ps = nd_roster d")
  case True
  then show ?thesis using keeps_domain_paths [OF True assms(2)] by (cases d) simp
next
  case False
  then show ?thesis using assms(1) by (simp add: keeps_domain_def domain_ok_def)
qed

lemma coord_ok_on_network:
  assumes ok: "coord_ok c" and "d \<in> set (co_domains c)" and "keeps_domain d (f d)"
  shows "coord_ok (on_domain (\<lambda>x. nd_network_id x = nd_network_id d) f c)"
proof (rule coord_ok_on_domain [OF ok])
  show "keeps_domain x (f x)" if "x \<in> set (co_domains c)" "nd_network_id x = nd_network_id d" for x
    using same_network [OF ok that(1) assms(2) that(2)] assms(3) by simp
qed

lemma coord_ok_request_paths:
  assumes ok: "coord_ok c"
  shows "coord_ok (snd (request_paths p a b mx now c))"
proof (cases "\<exists>d. domain_of_node c a = Some d \<and> domain_of_node c b = Some d")
  case True
  then obtain d where d: "domain_of_node c a = Some d" "domain_of_node c b = Some d" by blast
  then have h: "d \<in> set (co_domains c)" "holds_node a d" "holds_node b d" using domain_of_node_iff [OF ok] by auto
  obtain cs ps where ps: "request a b mx now (nd_paths d) = (cs, ps)" by fastforce
  have "snd (request_paths p a b mx now c) = on_domain (\<lambda>x. nd_network_id x = nd_network_id d) (\<lambda>d. d\<lparr>nd_paths := ps\<rparr>) c"
    using d ps by (simp add: request_paths_def)
  moreover have "keeps_domain d (d\<lparr>nd_paths := ps\<rparr>)"
  proof (rule keeps_domain_same_roster)
    show "ps_relays ps = ps_relays (nd_paths d)" using request_relays [of a b mx now "nd_paths d"] ps by simp
    show "ps_map (nd_paths d) (x, y) \<noteq> None \<or> holds_node x d \<and> holds_node y d" if "ps_map ps (x, y) \<noteq> None" for x y
      using request_answer [OF ps] that h by (auto split: if_splits)
  qed
  ultimately show ?thesis using coord_ok_on_network [OF ok h(1), of "\<lambda>d. d\<lparr>nd_paths := ps\<rparr>"] by simp
next
  case False
  have "nd_network_id x \<noteq> nd_network_id y" if "domain_of_node c a = Some x" "domain_of_node c b = Some y" for x y
    using that False domain_of_node_iff [OF ok] same_network [OF ok] by metis
  then show ?thesis using ok by (simp add: request_paths_def split: option.split)
qed

lemma withdraw_relays_frame:
  "ps_relays (foldl (\<lambda>ps node. withdraw_relay ks node ps) s ns) = ps_relays s
   \<and> dom (ps_map (foldl (\<lambda>ps node. withdraw_relay ks node ps) s ns)) \<subseteq> dom (ps_map s)"
proof (induction ns arbitrary: s)
  case (Cons n ns)
  have f: "ps_relays (withdraw_relay ks n s) = ps_relays s" "dom (ps_map (withdraw_relay ks n s)) \<subseteq> dom (ps_map s)"
    using withdraw_relay_frame by blast+
  show ?case
    unfolding foldl_Cons by (rule conjI [OF trans [OF conjunct1 [OF Cons] f(1)] subset_trans [OF conjunct2 [OF Cons] f(2)]])
qed simp

lemma coord_ok_roster:
  assumes ok: "coord_ok c"
  shows "coord_ok (snd (apply_relay_roster h net roster now c))"
proof (cases "domain_by_network_id c net")
  case (Some d)
  then have d: "d \<in> set (co_domains c)" "nd_network_id d = net" by (auto simp: domain_by_network_id_def dest: find_holds)
  define t where "t = foldl (\<lambda>ps node. withdraw_relay (or_paths h net) node ps) (set_relays roster (nd_paths d)) (filter (\<lambda>r. r \<notin> set roster) (nd_roster d))"
  define ps where "ps = expand_relay_candidates (or_paths h net) now t"
  have "ps_relays t = roster" "dom (ps_map t) \<subseteq> dom (ps_map (nd_paths d))"
    using withdraw_relays_frame [of "or_paths h net" "set_relays roster (nd_paths d)"] by (simp_all add: t_def set_relays_def)
  then have r: "ps_relays ps = roster" and m: "dom (ps_map ps) \<subseteq> dom (ps_map (nd_paths d))"
    using expand_frame [of "or_paths h net" now t] unfolding ps_def by (simp, meson order_trans)
  have "ps_map (nd_paths d) k \<noteq> None" if "ps_map ps k \<noteq> None" for k using m that by (meson domIff subsetD)
  then have "keeps_domain d (d\<lparr>nd_paths := ps, nd_roster := roster\<rparr>)" using keeps_domain_paths [OF r, of d] by blast
  moreover have "d\<lparr>nd_paths := ps, nd_roster := roster\<rparr> = d\<lparr>nd_roster := roster, nd_paths := ps\<rparr>" by (cases d) simp
  ultimately have k: "keeps_domain d (d\<lparr>nd_roster := roster, nd_paths := ps\<rparr>)" by simp
  let ?c = "on_domain (\<lambda>x. nd_network_id x = net) (\<lambda>_. d\<lparr>nd_roster := roster, nd_paths := ps\<rparr>) c"
  have "coord_ok ?c" using coord_ok_on_network [OF ok d(1), of "\<lambda>_. d\<lparr>nd_roster := roster, nd_paths := ps\<rparr>"] k d(2) by simp
  moreover have "snd (apply_relay_roster h net roster now c) = ?c
      \<or> snd (apply_relay_roster h net roster now c) = ?c\<lparr>co_directory := bump_netmap (co_directory ?c)\<rparr>"
    using Some by (simp add: apply_relay_roster_def apply_roster_def Let_def t_def ps_def)
  ultimately show ?thesis by auto
qed (simp add: apply_relay_roster_def ok)

lemma coord_ok_rotate: "coord_ok c \<Longrightarrow> coord_ok (rotate_master_key net k c)"
  unfolding rotate_master_key_def by (erule coord_ok_on_domain) (rule keeps_domain_other, simp_all)

lemma coord_ok_set_endpoints: "coord_ok c \<Longrightarrow> coord_ok (co_set_endpoints n l s c)"
  by (simp add: co_set_endpoints_def)

text \<open>Registration: the new node takes the next id, which no domain holds.\<close>

lemma register_inner_cases:
  assumes "register_inner sign key pk caps routes now iss c = (res, c')"
  shows "c' = c \<or> (\<exists>xs d ys reg. co_domains c = xs @ d # ys \<and> co_domains c' = xs @ d\<lparr>nd_registry := reg\<rparr> # ys
      \<and> co_next_node_id c' = co_next_node_id c + 1 \<and> co_revoked c' = co_revoked c
      \<and> register sign (nd_registry d) key pk caps routes (co_next_node_id c) iss = (Ok (NewNode (co_next_node_id c)), reg))"
proof (cases "\<exists>net e sec d. parse_auth_key key = Ok (net, e, sec) \<and> \<not> (e \<noteq> 0 \<and> e < now) \<and> domain_by_name c net = Some d
    \<and> \<not> (acl_enabled (nd_acl d) \<and> caps AND 0x40 = 0)")
  case False
  then show ?thesis using assms by (auto simp: register_inner_def split: outcome.splits option.splits if_splits)
next
  case True
  then obtain net e sec d where k: "parse_auth_key key = Ok (net, e, sec)" "\<not> (e \<noteq> 0 \<and> e < now)" "domain_by_name c net = Some d"
    "\<not> (acl_enabled (nd_acl d) \<and> caps AND 0x40 = 0)" by blast
  let ?p = "\<lambda>d. nd_name d = net" and ?u = "\<lambda>reg. (\<lambda>d. d\<lparr>nd_registry := reg\<rparr>)"
  have up: "\<exists>xs ys. co_domains c = xs @ d # ys \<and> update_first ?p f (co_domains c) = xs @ f d # ys" for f
    using update_first_Some [of ?p "co_domains c" d f] k(3) by (auto simp: domain_by_name_def)
  show ?thesis
  proof (rule register_cases [of "nd_registry d" key pk routes "co_next_node_id c" caps sign iss])
    fix r
    assume r: "register sign (nd_registry d) key pk caps routes (co_next_node_id c) iss = (r, nd_registry d)" "\<And>m. r \<noteq> Ok (NewNode m)"
    have "on_domain ?p (?u (nd_registry d)) c = c" using up [of "?u (nd_registry d)"] by (cases c) (auto simp: on_domain_def)
    then have "c' = c"
      using assms k r by (auto simp: register_inner_def Let_def split: outcome.splits register_outcome.splits option.splits)
    then show ?thesis ..
  next
    fix spec ent
    let ?g = "(nd_registry d)\<lparr>rg_entries := (rg_entries (nd_registry d))(co_next_node_id c \<mapsto> ent), rg_pubkeys := (rg_pubkeys (nd_registry d))(pk \<mapsto> co_next_node_id c),
           rg_auth_keys := (if ak_policy spec = OneTime then (rg_auth_keys (nd_registry d))(key := None) else rg_auth_keys (nd_registry d)),
           rg_consumed := (if ak_policy spec = OneTime then rg_consumed (nd_registry d) @ [key] else rg_consumed (nd_registry d))\<rparr>"
    assume r: "register sign (nd_registry d) key pk caps routes (co_next_node_id c) iss = (Ok (NewNode (co_next_node_id c)), ?g)"
    obtain g where g: "register sign (nd_registry d) key pk caps routes (co_next_node_id c) iss = (Ok (NewNode (co_next_node_id c)), g)"
      using r by blast
    have "co_domains c' = update_first ?p (?u g) (co_domains c)" "co_next_node_id c' = co_next_node_id c + 1" "co_revoked c' = co_revoked c"
      using assms k g by (auto simp: register_inner_def Let_def on_domain_def split: option.splits)
    then show ?thesis using up [of "?u g"] g by metis
  qed
qed

lemma domain_ok_register:
  assumes ok: "domain_ok m d" and r: "register sign (nd_registry d) key pk caps routes m iss = (Ok (NewNode m), reg)" and "0 < m" and "m < m'"
  shows "domain_ok m' (d\<lparr>nd_registry := reg\<rparr>)" "holds_node i (d\<lparr>nd_registry := reg\<rparr>) \<longleftrightarrow> holds_node i d \<or> i = m"
proof -
  have none: "rg_entries (nd_registry d) m = None" using holds_below [OF ok, of m] by (cases "rg_entries (nd_registry d) m") (auto simp: holds_node_def registry_entry_def)
  obtain ent where e: "rg_entries reg = (rg_entries (nd_registry d))(m \<mapsto> ent)" "ne_network_id ent = rg_network_id (nd_registry d)"
    "rg_network_id reg = rg_network_id (nd_registry d)"
  proof (rule register_cases [of "nd_registry d" key pk routes m caps sign iss])
  qed (use r in auto)
  show h: "holds_node i (d\<lparr>nd_registry := reg\<rparr>) \<longleftrightarrow> holds_node i d \<or> i = m" for i
    by (auto simp: holds_node_def registry_entry_def e)
  have "registry_ok reg" using registry_ok_register [OF _ none, of sign key pk caps routes iss] ok r by (simp add: domain_ok_def)
  then show "domain_ok m' (d\<lparr>nd_registry := reg\<rparr>)"
    using ok e assms(3,4) h unfolding domain_ok_def by (auto split: if_splits) (meson less_trans)+
qed

lemma coord_ok_register_inner:
  assumes ok: "coord_ok c" and room: "unat (co_next_node_id c) + 1 < 2 ^ 32"
  shows "coord_ok (snd (register_inner sign key pk caps routes now iss c))"
proof -
  obtain res c' where c': "register_inner sign key pk caps routes now iss c = (res, c')" by fastforce
  let ?m = "co_next_node_id c"
  have lt: "?m < ?m + 1" using room by (simp add: word_less_nat_alt unat_word_ariths)
  from register_inner_cases [OF c'] show ?thesis
  proof (elim disjE exE conjE)
    fix xs d ys reg
    assume d: "co_domains c = xs @ d # ys" "co_domains c' = xs @ d\<lparr>nd_registry := reg\<rparr> # ys" "co_next_node_id c' = ?m + 1"
      "co_revoked c' = co_revoked c" and r: "register sign (nd_registry d) key pk caps routes ?m iss = (Ok (NewNode ?m), reg)"
    have "domain_ok ?m d" "0 < ?m" using ok d(1) by (auto simp: coord_ok_def)
    note new = domain_ok_register [OF this(1) r this(2) lt]
    have "coord_ok c'"
    proof (rule coord_ok_update [OF ok d(1,2)])
      show "\<not> holds_node i (d\<lparr>nd_registry := reg\<rparr>) \<and> (i \<in> dom (co_revoked c) \<or> holds_node i d)" if "i \<in> dom (co_revoked c')" for i
        using that ok unfolding d(4) new(2) coord_ok_def by (auto simp: d(1))
    qed (use d(3) lt new in auto)
    then show ?thesis by (simp add: c')
  qed (simp add: c' ok)
qed

lemma coord_ok_register:
  "coord_ok c \<Longrightarrow> unat (co_next_node_id c) + 1 < 2 ^ 32 \<Longrightarrow> coord_ok (snd (co_register sign key pk caps routes now iss c))"
  using coord_ok_register_inner [of c sign key pk caps routes now iss]
  by (auto simp: co_register_def split: prod.split outcome.split)

text \<open>Revocation removes the node from the registry and every path to or from it.\<close>

lemma holds_revoke_in_domain: "holds_node i (revoke_in_domain h n now d) \<longleftrightarrow> holds_node i d \<and> i \<noteq> n"
  by (auto simp: revoke_in_domain_def holds_node_def registry_entry_def registry_revoke_def Let_def split: option.splits)

lemma revoke_in_domain_names [simp]:
  "nd_name (revoke_in_domain h n now d) = nd_name d" "nd_network_id (revoke_in_domain h n now d) = nd_network_id d"
  by (simp_all add: revoke_in_domain_def Let_def)

lemma ps_relays_withdraw_node: "ps_relays (withdraw_node ks n s) = ps_relays s"
  unfolding withdraw_node_def
proof (rule foldl_inv)
  show "ps_relays (withdraw_key n t k) = ps_relays s" if "ps_relays t = ps_relays s" for t k
    using withdraw_key_effect [of t k n] that by (simp add: queued_def)
qed simp

lemma domain_ok_revoke:
  assumes ok: "domain_ok m d" and ks: "distinct (or_paths h (nd_network_id d))" "dom (ps_map (nd_paths d)) \<subseteq> set (or_paths h (nd_network_id d))"
  shows "domain_ok m (revoke_in_domain h n now d)"
proof -
  let ?d = "revoke_in_domain h n now d"
  have reg: "nd_registry ?d = registry_revoke (nd_registry d) n" "nd_network_id ?d = nd_network_id d" by (simp_all add: revoke_in_domain_def Let_def)
  have m: "ps_map (nd_paths ?d) = ps_map (withdraw_node (or_paths h (nd_network_id d)) n (nd_paths d))"
    by (simp add: revoke_in_domain_def Let_def set_relays_def)
  have "filter (\<lambda>r. r \<noteq> n) (nd_roster d) = nd_roster d" if "n \<notin> set (nd_roster d)" using that by (auto simp: filter_id_conv)
  then have "ps_relays (nd_paths ?d) = nd_roster ?d"
    using ok by (simp add: revoke_in_domain_def Let_def set_relays_def ps_relays_withdraw_node domain_ok_def)
  moreover have "registry_ok (nd_registry ?d)" using ok registry_ok_op [OF reg_op.Revoke] by (simp add: reg domain_ok_def)
  moreover have "rg_network_id (nd_registry ?d) = nd_network_id ?d" using ok by (auto simp: reg domain_ok_def registry_revoke_def split: option.split)
  moreover have "ne_network_id e = nd_network_id ?d \<and> 0 < i \<and> i < m" if "rg_entries (nd_registry ?d) i = Some e" for i e
    using ok that by (auto simp: reg domain_ok_def registry_revoke_def split: option.splits if_splits)
  moreover have "holds_node a ?d \<and> holds_node b ?d" if some: "ps_map (nd_paths ?d) (a, b) \<noteq> None" for a b
  proof -
    obtain ps ps' where ps: "ps_map (nd_paths d) (a, b) = Some ps" "withdrawn_set n (a, b) ps = Some ps'"
      using some unfolding m ps_map_withdraw_node [OF ks] by (auto simp: bind_eq_Some_conv)
    then have "holds_node a d \<and> holds_node b d" using ok unfolding domain_ok_def by blast
    then show ?thesis using withdrawn_set_spec [OF ps(2)] by (simp add: holds_revoke_in_domain)
  qed
  ultimately show ?thesis unfolding domain_ok_def by blast
qed

lemma coord_ok_revoke:
  assumes ok: "coord_ok c"
    and ks: "\<And>d. d \<in> set (co_domains c) \<Longrightarrow> distinct (or_paths h (nd_network_id d)) \<and> dom (ps_map (nd_paths d)) \<subseteq> set (or_paths h (nd_network_id d))"
  shows "coord_ok (co_revoke h n now lid c)"
proof -
  let ?c = "snd (flush_revoke_rotations now c)"
  have ok1: "coord_ok ?c" using ok by (rule coord_ok_flush)
  show ?thesis
  proof (cases "find (holds_node n) (co_domains ?c)")
    case None
    then have "\<not> list_ex (holds_node n) (co_domains ?c)" by (simp add: find_None_iff list_ex_iff)
    then show ?thesis using ok1 by (simp add: co_revoke_def Let_def)
  next
    case (Some d)
    obtain xs ys where d: "co_domains ?c = xs @ d # ys" "holds_node n d"
      "update_first (holds_node n) (revoke_in_domain h n now) (co_domains ?c) = xs @ revoke_in_domain h n now d # ys"
      using update_first_Some [OF Some] by blast
    have "d \<in> set (co_domains ?c)" by (simp add: d(1))
    then obtain d0 where "d0 \<in> set (co_domains c)" "nd_network_id d = nd_network_id d0" "nd_paths d = nd_paths d0"
      by (auto simp: flush_revoke_rotations_def)
    then have "distinct (or_paths h (nd_network_id d))" "dom (ps_map (nd_paths d)) \<subseteq> set (or_paths h (nd_network_id d))"
      using ks [of d0] by simp_all
    moreover have "domain_ok (co_next_node_id ?c) d" using ok1 d(1) by (simp add: coord_ok_def)
    ultimately have dok: "domain_ok (co_next_node_id ?c) (revoke_in_domain h n now d)" by (rule domain_ok_revoke [rotated])
    have e: "co_revoke h n now lid c = (on_domain (holds_node n) (revoke_in_domain h n now) ?c)
             \<lparr>co_liveness := lv_remove n (co_liveness ?c), co_directory := bump_netmap (dr_remove_node n (co_directory ?c)),
              co_telemetry := (co_telemetry ?c)(n := None), co_revoked := (co_revoked ?c)(n \<mapsto> lid)\<rparr>"
      using d(1,2) by (simp add: co_revoke_def Let_def list_ex_iff)
    show ?thesis
    proof (rule coord_ok_update [OF ok1 d(1)])
      show "co_domains (co_revoke h n now lid c) = xs @ revoke_in_domain h n now d # ys" unfolding e using d(3) by (simp add: on_domain_def)
      show "domain_ok (co_next_node_id (co_revoke h n now lid c)) (revoke_in_domain h n now d)" unfolding e using dok by simp
      show "\<not> holds_node i (revoke_in_domain h n now d) \<and> (i \<in> dom (co_revoked ?c) \<or> holds_node i d)"
        if "i \<in> dom (co_revoked (co_revoke h n now lid c))" for i
        using that ok1 d(1,2) unfolding e by (auto simp: holds_revoke_in_domain coord_ok_def split: if_splits)
    qed (auto simp: e holds_revoke_in_domain)
  qed
qed

text \<open>Configuration and soft state leave nodes, paths and roster alone.\<close>

lemma keeps_domain_keys:
  "keeps_domain d (d\<lparr>nd_registry := add_auth_key_spec (nd_registry d) key spec\<rparr>)"
  "keeps_domain d (d\<lparr>nd_registry := remove_auth_key (nd_registry d) key\<rparr>)"
  "keeps_domain d (d\<lparr>nd_registry := set_announce_whitelist (nd_registry d) wl\<rparr>)"
  by (rule keeps_domain_registry [OF reg_op.AddKey], simp_all add: add_auth_key_spec_def)
    (rule keeps_domain_registry [OF reg_op.RemoveKey], simp_all add: remove_auth_key_def,
     rule keeps_domain_registry [OF reg_op.SetWhitelist], simp_all add: set_announce_whitelist_def)

lemma coord_ok_keys:
  assumes "coord_ok c"
  shows "coord_ok (snd (co_add_auth_key_spec key spec c))" "coord_ok (co_remove_auth_key key c)" "coord_ok (co_set_announce_whitelist net wl c)"
  using assms
  by (auto simp: co_add_auth_key_spec_def co_remove_auth_key_def co_set_announce_whitelist_def split: outcome.split
      intro!: coord_ok_on_domain keeps_domain_keys)

lemma coord_ok_other:
  "coord_ok c \<Longrightarrow> (\<And>d. nd_name (f d) = nd_name d \<and> nd_network_id (f d) = nd_network_id d \<and> nd_registry (f d) = nd_registry d
      \<and> nd_paths (f d) = nd_paths d \<and> nd_roster (f d) = nd_roster d) \<Longrightarrow> coord_ok (on_domain p f c)"
  by (erule coord_ok_on_domain) (rule keeps_domain_other, simp_all)

lemma coord_ok_config:
  assumes "coord_ok c"
  shows "coord_ok (set_acl_policy net pol c)" "coord_ok (set_relay_constraints net cfg c)" "coord_ok (set_exit_allow h net allow c)"
    "coord_ok (store_telemetry n v now c)" "coord_ok (record_relay_rtt_round nid rs c)"
proof -
  have rtt: "nd_name (foldl rtt_result d rs) = nd_name d \<and> nd_network_id (foldl rtt_result d rs) = nd_network_id d \<and> nd_registry (foldl rtt_result d rs) = nd_registry d
      \<and> nd_paths (foldl rtt_result d rs) = nd_paths d \<and> nd_roster (foldl rtt_result d rs) = nd_roster d" for d
    by (induction rs arbitrary: d) (auto simp: rtt_result_def split: prod.split option.split)
  show "coord_ok (record_relay_rtt_round nid rs c)" unfolding record_relay_rtt_round_def by (rule coord_ok_other [OF assms rtt])
qed (use assms in \<open>auto simp: set_acl_policy_def set_relay_constraints_def set_exit_allow_def store_telemetry_def Let_def intro!: coord_ok_other split: option.split\<close>)

lemma coord_ok_drop_routes: "coord_ok c \<Longrightarrow> coord_ok (drop_routes h n c)"
  by (auto simp: drop_routes_def intro!: coord_ok_other split: option.split)

lemma coord_ok_soft:
  assumes "coord_ok c"
  shows "coord_ok (snd (co_heartbeat h n now c))" "coord_ok (co_mark_offline h n c)" "coord_ok (snd (apply_route_sync n ann wd now c))"
    "coord_ok (snd (take_route_map_push h n c))" "coord_ok (reset_liveness_on_takeover h now c)"
proof -
  have "coord_ok (foldl (\<lambda>c n. drop_routes h n c) c1 ns)" if "coord_ok c1" for c1 ns
    by (rule foldl_inv) (use that coord_ok_drop_routes in auto)
  then show "coord_ok (snd (co_heartbeat h n now c))"
    using coord_ok_flush [OF assms] by (auto simp: co_heartbeat_def Let_def split: prod.split)
qed (use assms in \<open>auto simp: co_mark_offline_def apply_route_sync_def take_route_map_push_def reset_liveness_on_takeover_def Let_def
    intro!: coord_ok_other coord_ok_drop_routes split: option.split prod.split\<close>)

lemma coord_ok_take_path_events:
  assumes ok: "coord_ok c"
  shows "coord_ok (snd (take_path_events n c))"
proof (cases "domain_of_node c n")
  case (Some d)
  then have d: "d \<in> set (co_domains c)" using domain_of_node_iff [OF ok] by blast
  obtain evs ps where ps: "take_events n (nd_paths d) = (evs, ps)" by fastforce
  then have "keeps_domain d (d\<lparr>nd_paths := ps\<rparr>)" by (intro keeps_domain_same_roster) (auto simp: take_events_def)
  then show ?thesis
    using Some ps coord_ok_on_network [OF ok d, of "\<lambda>d. d\<lparr>nd_paths := ps\<rparr>"] by (simp add: take_path_events_def)
qed (simp add: take_path_events_def ok)

section \<open>Commands of the replicated log\<close>

datatype coord_command =
  RegisterCmd string "byte list" u32 "string list" u64
| RevokeCmd u32 u64
| SetEndpointsCmd u32 "string list" "string list"
| RequestPathsCmd u32 u32 u32 u64
| SetRelayRosterCmd u32 "u32 list" u64
| RotateMasterKeyCmd string "byte list"
| FlushRevokeRotationsCmd u64

datatype coord_command_result =
  NoopResult
| RegisterResult "(register_error, register_data) outcome"
| RevokeResult bool
| SetEndpointsResult
| RequestPathsResult "(path_candidate \<times> byte list) list"
| SetRelayRosterResult bool
| RotateMasterKeyResult
| FlushRevokeRotationsResult bool

text \<open>The parts a replica is configured with (\<open>MachineConfig\<close>), and the environment of a command: the signer made from
  the seed, the key derivation and the hash-map orders.\<close>

record machine_config =
  mc_signing_seed :: "byte list"
  mc_networks :: "(string \<times> byte list) list"

record world =
  w_sign :: "byte list \<Rightarrow> byte list \<Rightarrow> byte list"
  w_prims :: prims

fun apply_command :: "world \<Rightarrow> orders \<Rightarrow> byte list \<Rightarrow> coord_command \<Rightarrow> u64 \<times> u64 \<Rightarrow> coordinator \<Rightarrow> coord_command_result \<times> coordinator" where
  "apply_command w h seed (RegisterCmd key pk caps routes now) lid c =
     (case co_register (w_sign w seed) key pk caps routes now lid c of (r, c) \<Rightarrow> (RegisterResult r, c))"
| "apply_command w h seed (RevokeCmd n now) lid c = (RevokeResult (static_pubkey_of c n \<noteq> None), co_revoke h n now lid c)"
| "apply_command w h seed (SetEndpointsCmd n lcl seen) lid c = (SetEndpointsResult, co_set_endpoints n lcl seen c)"
| "apply_command w h seed (RequestPathsCmd a b mx now) lid c =
     (case request_paths (w_prims w) a b mx now c of (r, c) \<Rightarrow> (RequestPathsResult r, c))"
| "apply_command w h seed (SetRelayRosterCmd net roster now) lid c =
     (case apply_relay_roster h net roster now c of (r, c) \<Rightarrow> (SetRelayRosterResult r, c))"
| "apply_command w h seed (RotateMasterKeyCmd net k) lid c = (RotateMasterKeyResult, rotate_master_key net k c)"
| "apply_command w h seed (FlushRevokeRotationsCmd now) lid c =
     (case flush_revoke_rotations now c of (r, c) \<Rightarrow> (FlushRevokeRotationsResult r, c))"

definition fresh_coordinator :: "machine_config \<Rightarrow> coordinator" where
  "fresh_coordinator cfg = foldl (\<lambda>c (name, k). add_network name k c) coordinator_new (mc_networks cfg)"

text \<open>Everything that happens to a coordinator: commands from the log, and what a replica does locally.\<close>

datatype coord_event =
  Log coord_command "u64 \<times> u64"
| Heartbeat u32 u64 | MarkOffline u32 | RouteSync u32 "(prefix \<times> string) list" "prefix list" u64
| TakePathEvents u32 | TakeRouteMapPush u32 | Takeover u64 | RttRound u32 "(u32 \<times> u64 option) list" | Telemetry u32 telemetry_view u64
| AddKey string auth_key_spec | RemoveKey string | Whitelist string "prefix list" | AclPolicy string acl_policy
| RelayConstraints string relay_roster_config | ExitAllow string "u32 list"

fun coord_step :: "world \<Rightarrow> byte list \<Rightarrow> coordinator \<Rightarrow> orders \<times> coord_event \<Rightarrow> coordinator" where
  "coord_step w seed c (h, Log cmd lid) = snd (apply_command w h seed cmd lid c)"
| "coord_step w seed c (h, Heartbeat n now) = snd (co_heartbeat h n now c)"
| "coord_step w seed c (h, MarkOffline n) = co_mark_offline h n c"
| "coord_step w seed c (h, RouteSync n ann wd now) = snd (apply_route_sync n ann wd now c)"
| "coord_step w seed c (h, TakePathEvents n) = snd (take_path_events n c)"
| "coord_step w seed c (h, TakeRouteMapPush n) = snd (take_route_map_push h n c)"
| "coord_step w seed c (h, Takeover now) = reset_liveness_on_takeover h now c"
| "coord_step w seed c (h, RttRound net rs) = record_relay_rtt_round net rs c"
| "coord_step w seed c (h, Telemetry n v now) = store_telemetry n v now c"
| "coord_step w seed c (h, AddKey key spec) = snd (co_add_auth_key_spec key spec c)"
| "coord_step w seed c (h, RemoveKey key) = co_remove_auth_key key c"
| "coord_step w seed c (h, Whitelist net wl) = co_set_announce_whitelist net wl c"
| "coord_step w seed c (h, AclPolicy net pol) = set_acl_policy net pol c"
| "coord_step w seed c (h, RelayConstraints net cfg) = set_relay_constraints net cfg c"
| "coord_step w seed c (h, ExitAllow net allow) = set_exit_allow h net allow c"

text \<open>What an event needs: a node id is left for a registration, and a revocation visits the keys of the path map.\<close>

fun event_ok :: "coordinator \<Rightarrow> orders \<times> coord_event \<Rightarrow> bool" where
  "event_ok c (h, Log (RegisterCmd _ _ _ _ _) _) \<longleftrightarrow> unat (co_next_node_id c) + 1 < 2 ^ 32"
| "event_ok c (h, Log (RevokeCmd _ _) _) \<longleftrightarrow>
     list_all (\<lambda>d. distinct (or_paths h (nd_network_id d)) \<and> dom (ps_map (nd_paths d)) \<subseteq> set (or_paths h (nd_network_id d))) (co_domains c)"
| "event_ok c _ \<longleftrightarrow> True"

lemma coord_ok_command:
  assumes "coord_ok c" and "event_ok c (h, Log cmd lid)"
  shows "coord_ok (snd (apply_command w h seed cmd lid c))"
proof (cases cmd)
  case (RevokeCmd n now)
  then show ?thesis using assms(2) by (auto simp: list_all_iff intro!: coord_ok_revoke [OF assms(1)])
qed (use assms in \<open>simp_all add: case_prod_beta coord_ok_register coord_ok_request_paths coord_ok_roster coord_ok_flush
    coord_ok_set_endpoints coord_ok_rotate\<close>)

lemma coord_ok_step: "coord_ok c \<Longrightarrow> event_ok c e \<Longrightarrow> coord_ok (coord_step w seed c e)"
proof -
  assume ok: "coord_ok c" and e: "event_ok c e"
  obtain h ev where "e = (h, ev)" by (cases e)
  then show ?thesis
    using ok e by (cases ev) (simp_all add: coord_ok_command coord_ok_keys coord_ok_config coord_ok_soft coord_ok_take_path_events)
qed

interpretation coord: invariant_machine "coord_step w seed" coord_ok event_ok
  for w seed
  by unfold_locales (rule coord_ok_step)

section \<open>Networks stay apart\<close>

definition config_ok :: "machine_config \<Rightarrow> bool" where
  "config_ok cfg \<longleftrightarrow> distinct (map fst (mc_networks cfg)) \<and> distinct (map (network_id_for \<circ> fst) (mc_networks cfg))"

lemma fresh_coordinator_domains:
  "co_domains (foldl (\<lambda>c (name, k). add_network name k c) c ns) = co_domains c @ map (\<lambda>(name, k). network_domain_new name (network_id_for name) k) ns"
  "co_next_node_id (foldl (\<lambda>c (name, k). add_network name k c) c ns) = co_next_node_id c"
  "co_revoked (foldl (\<lambda>c (name, k). add_network name k c) c ns) = co_revoked c"
  by (induction ns arbitrary: c) (auto simp: add_network_def)

lemma domain_ok_new: "domain_ok m (network_domain_new name i k)"
  by (simp add: domain_ok_def network_domain_new_def registry_ok_new path_service_new_def) (simp add: registry_new_def)

lemma coord_ok_fresh: "config_ok cfg \<Longrightarrow> coord_ok (fresh_coordinator cfg)"
proof -
  assume "config_ok cfg"
  moreover have "\<not> holds_node i (network_domain_new name j k)" for i name j k
    by (simp add: holds_node_def registry_entry_def network_domain_new_def registry_new_def)
  moreover have "nd_name \<circ> (\<lambda>(name, k). network_domain_new name (network_id_for name) k) = fst"
    "nd_network_id \<circ> (\<lambda>(name, k). network_domain_new name (network_id_for name) k) = network_id_for \<circ> fst"
    by (auto simp: network_domain_new_def fun_eq_iff)
  ultimately show ?thesis
    unfolding coord_ok_def fresh_coordinator_def fresh_coordinator_domains config_ok_def
    by (auto simp: coordinator_new_def domain_ok_new)
qed

lemma network_id_of_iff: "coord_ok c \<Longrightarrow> network_id_of c n = Some i \<longleftrightarrow> (\<exists>d \<in> set (co_domains c). holds_node n d \<and> nd_network_id d = i)"
  using domain_of_node_iff by (auto simp: network_id_of_def)

lemma request_paths_apart: "network_id_of c x \<noteq> network_id_of c y \<Longrightarrow> request_paths p x y mx now c = ([], c)"
  by (auto simp: request_paths_def network_id_of_def split: option.splits)

lemma netmap_of_network:
  assumes "coord_ok c" and "\<And>d i. d \<in> set (co_domains c) \<Longrightarrow> i \<in> set (or_nodes h (nd_network_id d)) \<Longrightarrow> holds_node i d"
    and "x \<in> set (netmap_snapshot h c net)"
  shows "ni_network_id x = net"
proof -
  obtain d e where d: "d \<in> set (co_domains c)" "nd_network_id d = net" "e \<in> set (domain_entries h d)" "x = node_info_of c d e"
    using assms(3) by (auto simp: netmap_snapshot_def)
  obtain i where i: "i \<in> set (or_nodes h net)" "e = the (registry_entry (nd_registry d) i)" using d(2,3) by (auto simp: domain_entries_def)
  have "holds_node i d" using assms(2) [OF d(1)] i(1) d(2) by simp
  then have "rg_entries (nd_registry d) i = Some e" using i(2) by (auto simp: holds_node_def registry_entry_def)
  then have "ne_network_id e = net" using assms(1) d(1,2) by (auto simp: coord_ok_def domain_ok_def)
  then show ?thesis by (simp add: d(4) node_info_of_def)
qed

text \<open>C12: Networks are isolated. In every state a replica can reach from a configuration with distinct networks, through
  any interleaving of log commands, heartbeats, configuration changes and deliveries, both ends of every path of a
  network are registered in that network; a path request between two networks is refused and changes nothing; and the
  netmap of a network shows nodes of that network only.\<close>

theorem networks_isolated:
  assumes "config_ok cfg" and "coord.guarded w seed (fresh_coordinator cfg) evs" and "c = foldl (coord_step w seed) (fresh_coordinator cfg) evs"
  shows "(d \<in> set (co_domains c) \<and> ps_map (nd_paths d) (a, b) \<noteq> None \<longrightarrow> network_id_of c a = Some (nd_network_id d) \<and> network_id_of c b = Some (nd_network_id d))
    \<and> (network_id_of c x \<noteq> network_id_of c y \<longrightarrow> request_paths p x y mx now c = ([], c))
    \<and> ((\<forall>d \<in> set (co_domains c). list_all (\<lambda>i. holds_node i d) (or_nodes h (nd_network_id d)))
        \<longrightarrow> list_all (\<lambda>i. ni_network_id i = net) (netmap_snapshot h c net))"
proof -
  have ok: "coord_ok c" unfolding assms(3) by (rule coord.run_inv [OF coord_ok_fresh [OF assms(1)] assms(2)])
  have "network_id_of c a = Some (nd_network_id d) \<and> network_id_of c b = Some (nd_network_id d)"
    if "d \<in> set (co_domains c)" "ps_map (nd_paths d) (a, b) \<noteq> None"
  proof -
    have "holds_node a d \<and> holds_node b d" using ok that unfolding coord_ok_def domain_ok_def by blast
    then show ?thesis using that(1) network_id_of_iff [OF ok] by blast
  qed
  moreover have "list_all (\<lambda>i. ni_network_id i = net) (netmap_snapshot h c net)"
    if "\<forall>d \<in> set (co_domains c). list_all (\<lambda>i. holds_node i d) (or_nodes h (nd_network_id d))"
    using netmap_of_network [OF ok, of h] that by (auto simp: list_all_iff)
  ultimately show ?thesis using request_paths_apart by blast
qed

section \<open>Revocation is final\<close>

lemma drop_routes_revoked [simp]: "co_revoked (drop_routes h n c) = co_revoked c"
  by (simp add: drop_routes_def split: option.split)

lemma flush_revoked [simp]: "co_revoked (snd (flush_revoke_rotations now c)) = co_revoked c"
  by (simp add: flush_revoke_rotations_def)

lemma register_revoked [simp]: "co_revoked (snd (co_register sign key pk caps routes now iss c)) = co_revoked c"
proof -
  obtain r c' where "register_inner sign key pk caps routes now iss c = (r, c')" by fastforce
  then show ?thesis using register_inner_cases [of sign key pk caps routes now iss c r c']
    by (auto simp: co_register_def split: outcome.split)
qed

lemma co_revoke_revoked:
  assumes "coord_ok c" and "co_revoked c n = Some l"
  shows "co_revoked (co_revoke h m now lid c) n = Some l"
proof -
  have "\<not> list_ex (holds_node n) (co_domains (snd (flush_revoke_rotations now c)))"
    using coord_ok_flush [OF assms(1), of now] assms(2) by (auto simp: coord_ok_def list_ex_iff)
  then show ?thesis using assms(2) by (auto simp: co_revoke_def Let_def)
qed

lemma heartbeat_revoked [simp]: "co_revoked (snd (co_heartbeat h n now c)) = co_revoked c"
proof -
  have "co_revoked (foldl (\<lambda>c n. drop_routes h n c) c1 ns) = co_revoked c1" for c1 ns
    by (induction ns arbitrary: c1) simp_all
  then show ?thesis by (simp add: co_heartbeat_def Let_def split: prod.split)
qed

lemma mark_offline_revoked [simp]: "co_revoked (co_mark_offline h n c) = co_revoked c"
  by (simp add: co_mark_offline_def Let_def split: prod.split)

lemma step_keeps_tombstone:
  assumes "coord_ok c" and "co_revoked c n = Some l"
  shows "co_revoked (coord_step w seed c e) n = Some l"
proof -
  obtain h ev where e: "e = (h, ev)" by (cases e)
  show ?thesis
  proof (cases ev)
    case (Log cmd lid)
    then show ?thesis
      using assms co_revoke_revoked [OF assms] e
      by (cases cmd) (simp_all add: case_prod_beta co_set_endpoints_def request_paths_def apply_relay_roster_def apply_roster_def rotate_master_key_def
          Let_def split: option.split)
  qed (use assms e in \<open>simp_all add: apply_route_sync_def take_path_events_def take_route_map_push_def reset_liveness_on_takeover_def
      record_relay_rtt_round_def store_telemetry_def co_add_auth_key_spec_def co_remove_auth_key_def co_set_announce_whitelist_def
      set_acl_policy_def set_relay_constraints_def set_exit_allow_def case_prod_beta Let_def split: option.split outcome.split\<close>)
qed

interpretation gone: invariant_machine "coord_step w seed" "\<lambda>c. coord_ok c \<and> co_revoked c n = Some l" event_ok
  for w seed n l
  by unfold_locales (simp add: coord_ok_step step_keeps_tombstone)

lemma gone_guarded: "coord.guarded w seed c evs \<Longrightarrow> gone.guarded w seed c evs"
  by (induction evs arbitrary: c) simp_all

lemma not_held:
  assumes "coord_ok c" and "co_revoked c n = Some l"
  shows "domain_of_node c n = None" "d \<in> set (co_domains c) \<Longrightarrow> ps_map (nd_paths d) (a, b) \<noteq> None \<Longrightarrow> a \<noteq> n \<and> b \<noteq> n"
proof -
  have h: "\<not> holds_node n d" if "d \<in> set (co_domains c)" for d using assms that by (auto simp: coord_ok_def)
  then show "domain_of_node c n = None" using domain_of_node_None [OF assms(1)] by blast
  show "a \<noteq> n \<and> b \<noteq> n" if "d \<in> set (co_domains c)" "ps_map (nd_paths d) (a, b) \<noteq> None"
    using assms(1) that h [OF that(1)] unfolding coord_ok_def domain_ok_def by blast
qed

text \<open>C3: Revocation is final. Once a registered node is revoked, whatever happens afterwards - registrations, path requests,
  roster changes, heartbeats, configuration - it is in no network and gets no key, no path begins or ends at it, its
  id is never given to another node, and its tombstone keeps the log position of the first revocation.\<close>

theorem revocation_is_final:
  assumes "coord_ok c" and "network_id_of c n \<noteq> None" and "event_ok c (h, Log (RevokeCmd n now) lid)"
    and "coord.guarded w seed (co_revoke h n now lid c) evs" and "c' = foldl (coord_step w seed) (co_revoke h n now lid c) evs"
  shows "network_id_of c' n = None \<and> key_dist p c' n = None \<and> revocation_of c' n = Some lid
    \<and> (d \<in> set (co_domains c') \<and> ps_map (nd_paths d) (a, b) \<noteq> None \<longrightarrow> a \<noteq> n \<and> b \<noteq> n) \<and> n < co_next_node_id c'"
proof -
  let ?c = "snd (flush_revoke_rotations now c)"
  have "list_ex (holds_node n) (co_domains c)"
    using assms(2) network_id_of_iff [OF assms(1)] by (auto simp: list_ex_iff)
  then have "list_ex (holds_node n) (co_domains ?c)"
    by (auto simp: flush_revoke_rotations_def list_ex_iff holds_node_def)
  then have "co_revoked (co_revoke h n now lid c) n = Some lid" by (simp add: co_revoke_def Let_def)
  moreover have "coord_ok (co_revoke h n now lid c)" using coord_ok_command [OF assms(1,3)] by simp
  ultimately have ok: "coord_ok c'" "co_revoked c' n = Some lid"
    using gone.run_inv [OF _ gone_guarded [OF assms(4)]] unfolding assms(5) by blast+
  then have "n < co_next_node_id c'" by (auto simp: coord_ok_def)
  then show ?thesis
    using not_held [OF ok] ok(2) by (auto simp: network_id_of_def key_dist_def revocation_of_def)
qed

end
