(* ===== verification/Coord_Replica.thy ===== *)
theory Coord_Replica
  imports Coord_Machine
begin

text \<open>
  The persisted state of the coordinator (\<open>rill-coord/src/store/mod.rs\<close>) with its snapshot and restore
  (\<open>rill-coord/src/coordinator/mod.rs\<close>), and a network of two nodes on which the theorems on the coordinator are evaluated.
\<close>

section \<open>A network of two nodes\<close>

definition ex_key :: string where
  "ex_key = ''lrk-'' @ ''lab'' @ ''-'' @ show_num 10 (unat (0 :: u64)) @ ''-'' @ base32_encode (replicate 32 7)"

lemma ex_key_parses [simp]: "parse_auth_key ex_key = Ok (''lab'', 0, base32_encode (replicate 32 7))"
  unfolding ex_key_def by (rule parse_assembled) (simp_all add: network_char_def)

definition ex_cfg :: machine_config where
  "ex_cfg = \<lparr>mc_signing_seed = [], mc_networks = [(''lab'', replicate 32 1)]\<rparr>"

definition ex_world :: world where
  "ex_world = \<lparr>w_sign = (\<lambda>_ m. m), w_prims = toy_prims\<rparr>"

definition ex_orders :: orders where
  "ex_orders = \<lparr>or_nodes = (\<lambda>_. [1, 2]), or_paths = (\<lambda>_. [(1, 2)]), or_routes = (\<lambda>_. []), or_seen = [], or_endpoints = [], or_revoked = []\<rparr>"

definition ex_events :: "(orders \<times> coord_event) list" where
  "ex_events = [(ex_orders, AddKey ex_key (auth_key_simple Reusable)),
     (ex_orders, Log (RegisterCmd ex_key [1] 1 [] 0) (1, 1)), (ex_orders, Log (RegisterCmd ex_key [2] 1 [] 0) (2, 1)),
     (ex_orders, Log (RequestPathsCmd 1 2 4 100) (3, 1))]"

definition ex_coord :: coordinator where
  "ex_coord = foldl (coord_step ex_world []) (fresh_coordinator ex_cfg) ex_events"

lemmas coord_eval = fresh_coordinator_def coordinator_new_def add_network_def network_domain_new_def registry_new_def key_manager_new_def
  path_service_new_def on_domain_def domain_by_name_def domain_by_network_id_def holds_node_def registry_entry_def entry_network_def
  domain_of_node_def node_entry_of_def network_id_of_def co_add_auth_key_spec_def add_auth_key_spec_def co_register_def
  register_inner_def register_def binding_message_def request_paths_def request_def other_relays_def new_candidate_def alloc_path_id_def
  clamp_max_def push_to_participants_def push_event_def Let_def auth_key_simple_def

lemma ex_config_ok: "config_ok ex_cfg"
  by (simp add: config_ok_def ex_cfg_def)

lemma ex_guarded: "coord.guarded ex_world [] (fresh_coordinator ex_cfg) ex_events"
  by (simp add: ex_events_def ex_cfg_def ex_world_def coord_eval)

lemma ex_coord_paths:
  "\<exists>d. co_domains ex_coord = [d] \<and> nd_network_id d = network_id_for ''lab'' \<and> ps_map (nd_paths d) (1, 2) \<noteq> None"
  by (simp add: ex_coord_def ex_events_def ex_cfg_def ex_world_def coord_eval)

theorem networks_isolated_witness:
  "network_id_of ex_coord 1 = Some (network_id_for ''lab'') \<and> network_id_of ex_coord 2 = Some (network_id_for ''lab'')"
proof -
  obtain d where d: "co_domains ex_coord = [d]" "nd_network_id d = network_id_for ''lab''" "ps_map (nd_paths d) (1, 2) \<noteq> None"
    using ex_coord_paths by blast
  then show ?thesis using networks_isolated [OF ex_config_ok ex_guarded ex_coord_def, of d 1 2] by simp
qed

definition ex_coord2 :: coordinator where
  "ex_coord2 = co_revoke ex_orders 1 200 (4, 1) ex_coord"

lemma ex_coord_ok: "coord_ok ex_coord"
  unfolding ex_coord_def by (rule coord.run_inv [OF coord_ok_fresh [OF ex_config_ok] ex_guarded])

lemma ex_revoke_ok: "event_ok ex_coord (ex_orders, Log (RevokeCmd 1 200) (4, 1))"
  by (auto simp: ex_coord_def ex_events_def ex_cfg_def ex_world_def ex_orders_def coord_eval split: if_splits)

theorem revocation_is_final_witness:
  "network_id_of (foldl (coord_step ex_world []) ex_coord2 [(ex_orders, Heartbeat 2 201)]) 1 = None
   \<and> revocation_of (foldl (coord_step ex_world []) ex_coord2 [(ex_orders, Heartbeat 2 201)]) 1 = Some (4, 1)"
proof -
  have "network_id_of ex_coord 1 \<noteq> None" using ex_coord_paths
    by (simp add: ex_coord_def ex_events_def ex_cfg_def ex_world_def coord_eval)
  from revocation_is_final [OF ex_coord_ok this ex_revoke_ok _ refl, of ex_world "[]" "[(ex_orders, Heartbeat 2 201)]"]
  show ?thesis unfolding ex_coord2_def by simp
qed

text \<open>The roster is not checked against the registry when it is applied. A roster that was proposed before a revocation and
  is committed after it puts the revoked node back, and paths are offered over it.\<close>

definition ex_events3 :: "(orders \<times> coord_event) list" where
  "ex_events3 = [(ex_orders, AddKey ex_key (auth_key_simple Reusable)),
     (ex_orders, Log (RegisterCmd ex_key [1] 1 [] 0) (1, 1)), (ex_orders, Log (RegisterCmd ex_key [2] 1 [] 0) (2, 1)),
     (ex_orders, Log (RegisterCmd ex_key [3] 1 [] 0) (3, 1)),
     (ex_orders\<lparr>or_paths := (\<lambda>_. [])\<rparr>, Log (RevokeCmd 3 200) (4, 1)),
     (ex_orders\<lparr>or_paths := (\<lambda>_. [])\<rparr>, Log (SetRelayRosterCmd (network_id_for ''lab'') [3] 201) (5, 1))]"

definition ex_coord3 :: coordinator where
  "ex_coord3 = foldl (coord_step ex_world []) (fresh_coordinator ex_cfg) ex_events3"

theorem late_roster_restores_revoked_relay:
  "coord.guarded ex_world [] (fresh_coordinator ex_cfg) ex_events3 \<and> revocation_of ex_coord3 3 = Some (4, 1)
   \<and> map (hops \<circ> fst) (fst (request_paths toy_prims 1 2 4 300 ex_coord3)) = [[2], [3, 2]]"
  by (simp add: ex_coord3_def ex_events3_def ex_cfg_def ex_world_def ex_orders_def coord_eval co_revoke_def revoke_in_domain_def flush_revoke_rotations_def
      take_revoke_rotation_def arm_revoke_rotation_def registry_revoke_def withdraw_node_def rm_withdraw_node_def apply_relay_roster_def apply_roster_def
      set_relays_def expand_relay_candidates_def revocation_of_def lv_remove_def)

section \<open>Persisted state\<close>

record coord_state =
  cs_schema :: u32
  cs_next_node_id :: u32
  cs_nodes :: "node_entry list"
  cs_consumed_one_time_keys :: "string list"
  cs_netmap_version :: u64
  cs_key_versions :: "(u32 \<times> u32) list"
  cs_endpoints :: "(u32 \<times> string list \<times> string list) list"
  cs_path_maps :: "(u32 \<times> (u32 \<times> u32 \<times> path_set) list \<times> u64) list"
  cs_relay_rosters :: "(u32 \<times> u32 list) list"
  cs_pending_revoke_rotations :: "(u32 \<times> u64) list"
  cs_revoked_nodes :: "(u32 \<times> u64 \<times> u64) list"

abbreviation (input) STATE_SCHEMA :: u32 where "STATE_SCHEMA \<equiv> 4"

definition snapshot :: "orders \<Rightarrow> coordinator \<Rightarrow> coord_state" where
  "snapshot h c =
     \<lparr>cs_schema = STATE_SCHEMA, cs_next_node_id = co_next_node_id c,
      cs_nodes = sort_key ne_node_id (concat (map (domain_entries h) (co_domains c))),
      cs_consumed_one_time_keys = sort (concat (map (\<lambda>d. rg_consumed (nd_registry d)) (co_domains c))),
      cs_netmap_version = dr_netmap_version (co_directory c),
      cs_key_versions = sort_key fst (map (\<lambda>d. (nd_network_id d, km_key_version (nd_keys d))) (co_domains c)),
      cs_endpoints = sort_key fst (map (\<lambda>i. case the (dr_endpoints (co_directory c) i) of e \<Rightarrow> (i, ep_local e, ep_seen e)) (or_endpoints h)),
      cs_path_maps = sort_key fst (map (\<lambda>d. (nd_network_id d, persistent (or_paths h (nd_network_id d)) (nd_paths d))) (co_domains c)),
      cs_relay_rosters = sort_key fst (map (\<lambda>d. (nd_network_id d, nd_roster d)) (co_domains c)),
      cs_pending_revoke_rotations = sort_key fst
        (concat (map (\<lambda>d. case km_pending_revoke_rotation (nd_keys d) of Some t \<Rightarrow> [(nd_network_id d, t)] | None \<Rightarrow> []) (co_domains c))),
      cs_revoked_nodes = sort (map (\<lambda>i. case the (co_revoked c i) of (index, term) \<Rightarrow> (i, index, term)) (or_revoked h))\<rparr>"

text \<open>The ways a persisted state is refused, \<open>StoreError::Inconsistent\<close> with its message's data.\<close>

datatype store_error =
  BadNextNodeId u32 u32 | DuplicateNodeId u32 | DuplicatePubkey u32 | UnconfiguredNetwork u32 u32
| MissingKeyVersion u32 | DuplicatePath u32 u32 | BadSchema u32 | Undecodable | Unencodable

fun check_nodes :: "coordinator \<Rightarrow> u32 list \<Rightarrow> byte list list \<Rightarrow> node_entry list \<Rightarrow> store_error option" where
  "check_nodes c seen_ids seen_pubkeys [] = None"
| "check_nodes c seen_ids seen_pubkeys (n # ns) =
     (if ne_node_id n \<in> set seen_ids then Some (DuplicateNodeId (ne_node_id n))
      else if ne_static_pubkey n \<in> set seen_pubkeys then Some (DuplicatePubkey (ne_node_id n))
      else if domain_by_network_id c (ne_network_id n) = None then Some (UnconfiguredNetwork (ne_node_id n) (ne_network_id n))
      else check_nodes c (ne_node_id n # seen_ids) (ne_static_pubkey n # seen_pubkeys) ns)"

fun path_map_of :: "(u32 \<times> u32 \<times> path_set) list \<Rightarrow> (u32 \<times> u32 \<rightharpoonup> path_set) \<Rightarrow> store_error + (u32 \<times> u32 \<rightharpoonup> path_set)" where
  "path_map_of [] m = Inr m"
| "path_map_of ((s, d, ps) # es) m = (if m (s, d) \<noteq> None then Inl (DuplicatePath s d) else path_map_of es (m((s, d) \<mapsto> ps)))"

definition key_of_network :: "string \<Rightarrow> string \<Rightarrow> bool" where
  "key_of_network name key = (case parse_auth_key key of Ok (network, _, _) \<Rightarrow> network = name | _ \<Rightarrow> False)"

definition restore_domain :: "coord_state \<Rightarrow> network_domain \<Rightarrow> store_error + network_domain" where
  "restore_domain st d =
     (let i = nd_network_id d;
          d = d\<lparr>nd_registry := registry_restore (nd_registry d) (filter (\<lambda>n. ne_network_id n = i) (cs_nodes st))
                  (filter (key_of_network (nd_name d)) (cs_consumed_one_time_keys st))\<rparr>
      in case find (\<lambda>(j, _). j = i) (cs_key_versions st) of
           None \<Rightarrow> Inl (MissingKeyVersion i)
         | Some (_, v) \<Rightarrow>
             let d = d\<lparr>nd_keys := restore_version v (nd_keys d)\<rparr>;
                 paths = (case find (\<lambda>(j, _). j = i) (cs_path_maps st) of
                     None \<Rightarrow> Inr (nd_paths d)
                   | Some (_, m, sq) \<Rightarrow> (case path_map_of m Map.empty of Inl e \<Rightarrow> Inl e | Inr pm \<Rightarrow> Inr (ps_restore pm sq (nd_paths d))))
             in case paths of
                  Inl e \<Rightarrow> Inl e
                | Inr ps \<Rightarrow>
                    let d = d\<lparr>nd_paths := ps\<rparr>;
                        d = (case find (\<lambda>(j, _). j = i) (cs_relay_rosters st) of Some (_, r) \<Rightarrow> snd (apply_roster r d) | None \<Rightarrow> d);
                        d = (case find (\<lambda>(j, _). j = i) (cs_pending_revoke_rotations st) of
                               Some (_, t) \<Rightarrow> d\<lparr>nd_keys := restore_revoke_rotation t (nd_keys d)\<rparr> | None \<Rightarrow> d)
                    in Inr d)"

fun restore_domains :: "coord_state \<Rightarrow> network_domain list \<Rightarrow> store_error + network_domain list" where
  "restore_domains st [] = Inr []"
| "restore_domains st (d # ds) =
     (case restore_domain st d of
        Inl e \<Rightarrow> Inl e
      | Inr d \<Rightarrow> (case restore_domains st ds of Inl e \<Rightarrow> Inl e | Inr ds \<Rightarrow> Inr (d # ds)))"

definition restore_state :: "coord_state \<Rightarrow> coordinator \<Rightarrow> store_error + coordinator" where
  "restore_state st c =
     (let max_node = fold max (map ne_node_id (cs_nodes st)) 0
      in if cs_next_node_id st = 0 \<or> cs_next_node_id st \<le> max_node then Inl (BadNextNodeId (cs_next_node_id st) max_node)
         else case check_nodes c [] [] (cs_nodes st) of
           Some e \<Rightarrow> Inl e
         | None \<Rightarrow>
             (case restore_domains st (co_domains c) of
                Inl e \<Rightarrow> Inl e
              | Inr ds \<Rightarrow>
                  Inr (c\<lparr>co_next_node_id := cs_next_node_id st, co_domains := ds,
                        co_directory := dr_restore (cs_netmap_version st)
                          (map_of (rev (map (\<lambda>(i, l, s). (i, \<lparr>ep_local = l, ep_seen = s\<rparr>)) (cs_endpoints st)))) (co_directory c),
                        co_revoked := map_of (rev (map (\<lambda>(i, index, term). (i, (index, term))) (cs_revoked_nodes st)))\<rparr>)))"

end
