(* ===== verification/Coord_Restore.thy ===== *)
theory Coord_Restore
  imports Coord_Replica
begin

text \<open>
  Persistence of the coordinator (\<open>Coordinator::snapshot\<close> and \<open>restore_state\<close> of \<open>rill-coord/src/coordinator/mod.rs\<close>):
  restoring the snapshot of a consistent state into empty networks of the same configuration gives the state back,
  whatever order the hash maps were listed in.
\<close>

section \<open>Restoring a snapshot\<close>

text \<open>The orders enumerate the maps of the state, each key once.\<close>

definition orders_ok :: "orders \<Rightarrow> coordinator \<Rightarrow> bool" where
  "orders_ok h c \<longleftrightarrow>
     list_all (\<lambda>d. distinct (or_nodes h (nd_network_id d)) \<and> set (or_nodes h (nd_network_id d)) = dom (rg_entries (nd_registry d))
       \<and> distinct (or_paths h (nd_network_id d)) \<and> set (or_paths h (nd_network_id d)) = dom (ps_map (nd_paths d))) (co_domains c)
     \<and> distinct (or_endpoints h) \<and> set (or_endpoints h) = dom (dr_endpoints (co_directory c))
     \<and> distinct (or_revoked h) \<and> set (or_revoked h) = dom (co_revoked c)"

text \<open>What of a network survives: everything but the auth keys, the configuration and the soft state.\<close>

definition same_persistent :: "network_domain \<Rightarrow> network_domain \<Rightarrow> bool" where
  "same_persistent d d' \<longleftrightarrow>
     nd_name d' = nd_name d \<and> nd_network_id d' = nd_network_id d \<and> rg_entries (nd_registry d') = rg_entries (nd_registry d)
     \<and> rg_pubkeys (nd_registry d') = rg_pubkeys (nd_registry d) \<and> set (rg_consumed (nd_registry d')) = set (rg_consumed (nd_registry d))
     \<and> km_key_version (nd_keys d') = km_key_version (nd_keys d)
     \<and> km_pending_revoke_rotation (nd_keys d') = km_pending_revoke_rotation (nd_keys d)
     \<and> ps_map (nd_paths d') = ps_map (nd_paths d) \<and> ps_seq (nd_paths d') = ps_seq (nd_paths d)
     \<and> ps_relays (nd_paths d') = nd_roster d \<and> nd_roster d' = nd_roster d"

lemma distinct_concat_map:
  "distinct xs \<Longrightarrow> (\<And>x. x \<in> set xs \<Longrightarrow> distinct (f x)) \<Longrightarrow> (\<And>x y. x \<in> set xs \<Longrightarrow> y \<in> set xs \<Longrightarrow> x \<noteq> y \<Longrightarrow> set (f x) \<inter> set (f y) = {})
    \<Longrightarrow> distinct (concat (map f xs))"
proof (induction xs)
  case (Cons x xs)
  have "set (f x) \<inter> set (concat (map f xs)) = {}"
  proof -
    have "set (f x) \<inter> set (f y) = {}" if "y \<in> set xs" for y using Cons.prems(1,3) that by (metis distinct.simps(2) list.set_intros)
    then show ?thesis by auto
  qed
  then show ?case using Cons by simp
qed simp

lemma find_by_network:
  assumes "distinct (map fst xs)" and "(i, v) \<in> set xs"
  shows "find (\<lambda>(j, _). j = i) (sort_key fst xs) = Some (i, v)"
  using assms by (intro find_iff) (auto dest: eq_key_imp_eq_value)

lemma find_by_network_None: "i \<notin> fst ` set xs \<Longrightarrow> find (\<lambda>(j, _). j = i) (sort_key fst xs) = None"
  by (auto simp: find_None_iff image_iff)

lemma restore_entries_hit: "distinct (map ne_node_id es) \<Longrightarrow> e \<in> set es \<Longrightarrow> rg_entries (restore_entries es g) (ne_node_id e) = Some e"
proof (induction es arbitrary: g)
  case (Cons x es)
  have miss: "i \<notin> ne_node_id ` set es \<Longrightarrow> rg_entries (restore_entries es g) i = rg_entries g i" for es i g
    by (induction es arbitrary: g) auto
  show ?case using Cons by (cases "e = x") (auto simp: miss)
qed simp

lemma restore_entries_miss: "i \<notin> ne_node_id ` set es \<Longrightarrow> rg_entries (restore_entries es g) i = rg_entries g i"
  by (induction es arbitrary: g) auto

lemma index_pubkeys: "index_ok es pks \<Longrightarrow> index_ok es pks' \<Longrightarrow> pks = pks'"
proof (rule ext)
  fix pk
  assume "index_ok es pks" "index_ok es pks'"
  then have "pks pk = Some n \<longleftrightarrow> pks' pk = Some n" for n unfolding index_ok_def by simp
  then show "pks pk = pks' pk" by (metis option.exhaust)
qed

lemma registry_restored:
  assumes "registry_ok reg" and "distinct (map ne_node_id es)" and "distinct (map ne_static_pubkey es)"
    and "\<And>e. e \<in> set es \<longleftrightarrow> rg_entries reg (ne_node_id e) = Some e"
  shows "rg_entries (registry_restore g es con) = rg_entries reg" "rg_pubkeys (registry_restore g es con) = rg_pubkeys reg"
proof -
  let ?g = "restore_entries es (g\<lparr>rg_entries := Map.empty, rg_pubkeys := Map.empty\<rparr>)"
  have id: "rg_entries reg i = Some e \<Longrightarrow> ne_node_id e = i" for i e using assms(1) by (auto simp: registry_ok_def index_ok_def)
  have "rg_entries ?g i = rg_entries reg i" for i
  proof (cases "rg_entries reg i")
    case None
    then have "i \<notin> ne_node_id ` set es" using assms(4) by auto
    then show ?thesis using None by (simp add: restore_entries_miss)
  next
    case (Some e)
    then show ?thesis using restore_entries_hit [OF assms(2), of e] assms(4) [of e] id [OF Some] by simp
  qed
  then show e: "rg_entries (registry_restore g es con) = rg_entries reg" by (auto simp: registry_restore_def)
  have "index_ok (rg_entries ?g) (rg_pubkeys ?g)"
    by (rule restore_entries_index [OF _ assms(2,3)]) (auto simp: index_ok_def)
  then show "rg_pubkeys (registry_restore g es con) = rg_pubkeys reg"
    using e assms(1) index_pubkeys [of "rg_entries reg"] by (simp add: registry_restore_def registry_ok_def)
qed

lemma path_map_of_distinct:
  "distinct (map (\<lambda>(a, d, _). (a, d)) es) \<Longrightarrow> (\<And>k. k \<in> (\<lambda>(a, d, _). (a, d)) ` set es \<Longrightarrow> m k = None)
    \<Longrightarrow> path_map_of es m = Inr (m ++ map_of (map (\<lambda>(a, d, ps). ((a, d), ps)) es))"
proof (induction es arbitrary: m)
  case (Cons e es)
  obtain a d ps where e: "e = (a, d, ps)" by (cases e) auto
  let ?k = "\<lambda>(a, d, _). (a, d)" and ?g = "\<lambda>(a, d, ps). ((a, d), ps)"
  have new: "(a, d) \<notin> ?k ` set es" using Cons.prems(1) by (simp add: e)
  have miss: "(m((a, d) \<mapsto> ps)) k = None" if "k \<in> ?k ` set es" for k
  proof -
    have "k \<noteq> (a, d)" using that new by blast
    then show ?thesis using Cons.prems(2) [of k] that by simp
  qed
  have "distinct (map ?k es)" using Cons.prems(1) by simp
  from Cons.IH [OF this miss]
  have "path_map_of es (m((a, d) \<mapsto> ps)) = Inr (m((a, d) \<mapsto> ps) ++ map_of (map ?g es))" .
  moreover have "dom (map_of (map ?g es)) = ?k ` set es" by (simp add: dom_map_of_conv_image_fst image_image case_prod_beta)
  then have "(a, d) \<notin> dom (map_of (map ?g es))" using new by simp
  then have "m((a, d) \<mapsto> ps) ++ map_of (map ?g es) = m ++ map_of (map ?g (e # es))" by (simp add: e map_add_upd_left)
  moreover have "path_map_of (e # es) m = path_map_of es (m((a, d) \<mapsto> ps))" using Cons.prems(2) [of "(a, d)"] by (simp add: e)
  ultimately show ?case by metis
qed simp

lemma path_map_of_persistent:
  assumes "distinct ks" and "set ks = dom (ps_map s)"
  shows "path_map_of (fst (persistent ks s)) Map.empty = Inr (ps_map s)"
  using path_map_of_distinct [OF persistent_map_of(2) [OF assms], of Map.empty] persistent_map_of(1) [OF assms] by simp

lemma check_nodes_None:
  assumes "distinct (map ne_node_id ns)" and "distinct (map ne_static_pubkey ns)" and "ne_node_id ` set ns \<inter> set is = {}"
    and "ne_static_pubkey ` set ns \<inter> set pks = {}" and "\<And>n. n \<in> set ns \<Longrightarrow> domain_by_network_id c (ne_network_id n) \<noteq> None"
  shows "check_nodes c is pks ns = None"
  using assms by (induction ns arbitrary: "is" pks) auto

lemma fold_max_less: "(\<And>x. x \<in> set xs \<Longrightarrow> x < b) \<Longrightarrow> a < b \<Longrightarrow> fold max xs a < (b :: u32)"
  by (induction xs arbitrary: a) auto

text \<open>The node table of a snapshot holds the entries of all domains, each once.\<close>

lemma snapshot_nodes:
  assumes ok: "coord_ok c" and h: "orders_ok h c"
  shows "e \<in> set (cs_nodes (snapshot h c)) \<longleftrightarrow> (\<exists>d \<in> set (co_domains c). rg_entries (nd_registry d) (ne_node_id e) = Some e)"
    "distinct (map ne_node_id (cs_nodes (snapshot h c)))"
proof -
  let ?es = "concat (map (domain_entries h) (co_domains c))"
  have id: "ne_node_id e = i" if "d \<in> set (co_domains c)" "rg_entries (nd_registry d) i = Some e" for d i e
    using ok that unfolding coord_ok_def domain_ok_def registry_ok_def index_ok_def by blast
  have ord: "distinct (or_nodes h (nd_network_id d))" "set (or_nodes h (nd_network_id d)) = dom (rg_entries (nd_registry d))" if "d \<in> set (co_domains c)" for d
    using h that by (auto simp: orders_ok_def list_all_iff)
  have mem: "e \<in> set (domain_entries h d) \<longleftrightarrow> rg_entries (nd_registry d) (ne_node_id e) = Some e" if d: "d \<in> set (co_domains c)" for d e
  proof
    assume "e \<in> set (domain_entries h d)"
    then obtain i where "i \<in> dom (rg_entries (nd_registry d))" "e = the (rg_entries (nd_registry d) i)"
      using ord(2) [OF d] by (auto simp: domain_entries_def registry_entry_def)
    then have "rg_entries (nd_registry d) i = Some e" by auto
    then show "rg_entries (nd_registry d) (ne_node_id e) = Some e" using id [OF d] by simp
  next
    assume e: "rg_entries (nd_registry d) (ne_node_id e) = Some e"
    then have "ne_node_id e \<in> set (or_nodes h (nd_network_id d))" using ord(2) [OF d] by auto
    then show "e \<in> set (domain_entries h d)"
      unfolding domain_entries_def registry_entry_def set_map by (rule rev_image_eqI) (simp add: e)
  qed
  then show "e \<in> set (cs_nodes (snapshot h c)) \<longleftrightarrow> (\<exists>d \<in> set (co_domains c). rg_entries (nd_registry d) (ne_node_id e) = Some e)"
    by (auto simp: snapshot_def)
  have ids: "map ne_node_id (domain_entries h d) = or_nodes h (nd_network_id d)" if d: "d \<in> set (co_domains c)" for d
    using ord(2) [OF d] id [OF d] by (auto simp: domain_entries_def registry_entry_def intro!: map_idI)
  have "map ne_node_id ?es = concat (map (\<lambda>d. or_nodes h (nd_network_id d)) (co_domains c))"
    using ids by (simp add: map_concat comp_def cong: map_cong)
  moreover have "distinct (concat (map (\<lambda>d. or_nodes h (nd_network_id d)) (co_domains c)))"
  proof (rule distinct_concat_map)
    show "distinct (co_domains c)" using ok by (simp add: coord_ok_def distinct_map)
    show "set (or_nodes h (nd_network_id x)) \<inter> set (or_nodes h (nd_network_id y)) = {}"
      if "x \<in> set (co_domains c)" "y \<in> set (co_domains c)" "x \<noteq> y" for x y
    proof -
      have "\<not> (holds_node i x \<and> holds_node i y)" for i
        using ok that same_network [OF ok that(1,2)] unfolding coord_ok_def by blast
      then show ?thesis using ord(2) [OF that(1)] ord(2) [OF that(2)] by (auto simp: holds_node_def registry_entry_def)
    qed
  qed (use ord(1) in blast)
  ultimately have "distinct (map ne_node_id ?es)" by simp
  then show "distinct (map ne_node_id (cs_nodes (snapshot h c)))" by (simp add: snapshot_def distinct_map)
qed

lemma snapshot_nodes_of_network:
  assumes ok: "coord_ok c" and h: "orders_ok h c" and d: "d \<in> set (co_domains c)"
  shows "e \<in> set (filter (\<lambda>n. ne_network_id n = nd_network_id d) (cs_nodes (snapshot h c))) \<longleftrightarrow> rg_entries (nd_registry d) (ne_node_id e) = Some e"
proof -
  have net: "ne_network_id e = nd_network_id x" if "x \<in> set (co_domains c)" "rg_entries (nd_registry x) i = Some e" for x i
    using ok that unfolding coord_ok_def domain_ok_def by blast
  have "e \<in> set (cs_nodes (snapshot h c)) \<and> ne_network_id e = nd_network_id d \<longleftrightarrow> rg_entries (nd_registry d) (ne_node_id e) = Some e"
    unfolding snapshot_nodes(1) [OF ok h] using net d same_network [OF ok _ d] by metis
  then show ?thesis by simp
qed

definition keys_placed :: "coordinator \<Rightarrow> bool" where
  "keys_placed c \<longleftrightarrow> list_all (\<lambda>d. list_all (key_of_network (nd_name d)) (rg_consumed (nd_registry d))) (co_domains c)"

lemma snapshot_consumed:
  assumes ok: "coord_ok c" and k: "keys_placed c" and d: "d \<in> set (co_domains c)"
  shows "set (filter (key_of_network (nd_name d)) (cs_consumed_one_time_keys (snapshot h c))) = set (rg_consumed (nd_registry d))"
proof -
  have one: "key_of_network a x \<Longrightarrow> key_of_network b x \<Longrightarrow> a = b" for a b x by (auto simp: key_of_network_def split: outcome.splits)
  have placed: "key_of_network (nd_name y) x" if "y \<in> set (co_domains c)" "x \<in> set (rg_consumed (nd_registry y))" for x y
    using k that by (auto simp: keys_placed_def list_all_iff)
  have "x \<in> set (filter (key_of_network (nd_name d)) (cs_consumed_one_time_keys (snapshot h c))) \<longleftrightarrow> x \<in> set (rg_consumed (nd_registry d))" for x
  proof -
    have "x \<in> set (filter (key_of_network (nd_name d)) (cs_consumed_one_time_keys (snapshot h c)))
        \<longleftrightarrow> key_of_network (nd_name d) x \<and> (\<exists>y \<in> set (co_domains c). x \<in> set (rg_consumed (nd_registry y)))"
      by (auto simp: snapshot_def)
    also have "\<dots> \<longleftrightarrow> x \<in> set (rg_consumed (nd_registry d))" using placed one d same_name [OF ok _ d] by metis
    finally show ?thesis .
  qed
  then show ?thesis by blast
qed

lemma find_domain_value:
  assumes "coord_ok c" and "d \<in> set (co_domains c)"
  shows "find (\<lambda>(j, _). j = nd_network_id d) (sort_key fst (map (\<lambda>d. (nd_network_id d, f d)) (co_domains c))) = Some (nd_network_id d, f d)"
  using assms by (intro find_by_network) (auto simp: comp_def coord_ok_def)

lemma pending_listed_distinct:
  "distinct (map nd_network_id ds)
    \<Longrightarrow> distinct (map fst (concat (map (\<lambda>d. case p d of Some t \<Rightarrow> [(nd_network_id d, t)] | None \<Rightarrow> []) ds)))"
proof (induction ds)
  case (Cons d ds)
  have "fst ` set (concat (map (\<lambda>d. case p d of Some t \<Rightarrow> [(nd_network_id d, t)] | None \<Rightarrow> []) ds)) \<subseteq> nd_network_id ` set ds"
    by (auto split: option.splits)
  then show ?case using Cons by (cases "p d") auto
qed simp

lemma find_pending:
  assumes ok: "coord_ok c" and d: "d \<in> set (co_domains c)"
  shows "find (\<lambda>(j, _). j = nd_network_id d)
      (sort_key fst (concat (map (\<lambda>d. case p d of Some t \<Rightarrow> [(nd_network_id d, t)] | None \<Rightarrow> []) (co_domains c))))
      = map_option (Pair (nd_network_id d)) (p d)" (is "find ?P (sort_key fst ?ps) = _")
proof -
  have mem: "(nd_network_id d, t) \<in> set ?ps \<longleftrightarrow> p d = Some t" for t
  proof
    assume "(nd_network_id d, t) \<in> set ?ps"
    then obtain x where x: "x \<in> set (co_domains c)" "nd_network_id x = nd_network_id d" "p x = Some t" by (auto split: option.splits)
    from same_network [OF ok x(1) d x(2)] x(3) show "p d = Some t" by simp
  next
    assume "p d = Some t"
    then show "(nd_network_id d, t) \<in> set ?ps" using d by (auto intro!: bexI [of _ d])
  qed
  show ?thesis
  proof (cases "p d")
    case None
    have "nd_network_id d \<notin> fst ` set ?ps"
    proof
      assume "nd_network_id d \<in> fst ` set ?ps"
      then obtain e where "e \<in> set ?ps" "nd_network_id d = fst e" by (rule imageE)
      then have "(nd_network_id d, snd e) \<in> set ?ps" by (simp only: prod.collapse)
      then show False unfolding mem None by (rule option.distinct(1) [THEN notE])
    qed
    from find_by_network_None [OF this] show ?thesis unfolding None option.map .
  next
    case (Some t)
    have "distinct (map fst ?ps)" using ok by (intro pending_listed_distinct) (simp add: coord_ok_def)
    from find_by_network [OF this mem [THEN iffD2, OF Some]] show ?thesis unfolding Some option.map .
  qed
qed

text \<open>The empty network a snapshot is restored into: the same name and id, no window armed.\<close>

definition blank_of :: "network_domain \<Rightarrow> network_domain \<Rightarrow> bool" where
  "blank_of d b \<longleftrightarrow> nd_name b = nd_name d \<and> nd_network_id b = nd_network_id d \<and> km_pending_revoke_rotation (nd_keys b) = None"

lemma restore_domain_same:
  assumes ok: "coord_ok c" and h: "orders_ok h c" and k: "keys_placed c" and d: "d \<in> set (co_domains c)" and b: "blank_of d b"
    and pks: "distinct (map ne_static_pubkey (cs_nodes (snapshot h c)))"
  shows "\<exists>d'. restore_domain (snapshot h c) b = Inr d' \<and> same_persistent d d'"
proof -
  let ?st = "snapshot h c" and ?i = "nd_network_id d"
  let ?es = "filter (\<lambda>n. ne_network_id n = ?i) (cs_nodes ?st)"
  have reg: "registry_ok (nd_registry d)" using ok d by (auto simp: coord_ok_def domain_ok_def)
  have es: "distinct (map ne_node_id ?es)" "distinct (map ne_static_pubkey ?es)"
    using snapshot_nodes(2) [OF ok h] pks by (simp_all add: distinct_map_filter)
  note nodes = registry_restored [OF reg es snapshot_nodes_of_network [OF ok h d]]
  have ks: "distinct (or_paths h ?i)" "set (or_paths h ?i) = dom (ps_map (nd_paths d))" using h d by (auto simp: orders_ok_def list_all_iff)
  have found: "find (\<lambda>(j, _). j = ?i) (cs_key_versions ?st) = Some (?i, km_key_version (nd_keys d))"
    "find (\<lambda>(j, _). j = ?i) (cs_path_maps ?st) = Some (?i, persistent (or_paths h ?i) (nd_paths d))"
    "find (\<lambda>(j, _). j = ?i) (cs_relay_rosters ?st) = Some (?i, nd_roster d)"
    "find (\<lambda>(j, _). j = ?i) (cs_pending_revoke_rotations ?st) = map_option (Pair ?i) (km_pending_revoke_rotation (nd_keys d))"
    unfolding snapshot_def coord_state.simps by (rule find_domain_value [OF ok d] find_pending [OF ok d])+
  obtain m sq where p: "persistent (or_paths h ?i) (nd_paths d) = (m, sq)" by fastforce
  have m: "path_map_of m Map.empty = Inr (ps_map (nd_paths d))" using path_map_of_persistent [OF ks] p by simp
  have sq: "sq = ps_seq (nd_paths d)" using p by (simp add: persistent_def)
  have con: "set (filter (key_of_network (nd_name d)) (cs_consumed_one_time_keys ?st)) = set (rg_consumed (nd_registry d))"
    by (rule snapshot_consumed [OF ok k d])
  show ?thesis
    using b nodes con unfolding blank_of_def restore_domain_def
    by (cases "km_pending_revoke_rotation (nd_keys d)")
      (simp_all add: found p m sq Let_def apply_roster_def set_relays_def ps_restore_def same_persistent_def restore_version_def
        restore_revoke_rotation_def registry_restore_def)
qed

lemma restore_domains_same:
  assumes "list_all2 (\<lambda>d b. \<exists>d'. restore_domain st b = Inr d' \<and> same_persistent d d') ds bs"
  shows "\<exists>ds'. restore_domains st bs = Inr ds' \<and> list_all2 same_persistent ds ds'"
  using assms by (induction rule: list_all2_induct) auto

text \<open>A map listed in some order of its keys, sorted, and inserted again.\<close>

lemma relisted_map:
  assumes "distinct ks" and "set ks = dom m" and "set xs = (\<lambda>k. (k, the (m k))) ` set ks" and "length xs = length ks"
  shows "map_of (rev xs) = m"
proof -
  have "fst ` set xs = set ks" unfolding assms(3) by (simp add: image_image)
  then have dist: "distinct (map fst xs)" using assms(1,4) by (metis card_distinct distinct_card length_map set_map)
  have "map_of (rev xs) k = m k" for k
  proof (cases "m k")
    case None
    then have "k \<notin> fst ` set (rev xs)" using \<open>fst ` set xs = set ks\<close> assms(2) by auto
    then show ?thesis using None by (simp add: map_of_eq_None_iff del: set_rev)
  next
    case (Some v)
    then have "k \<in> set ks" unfolding assms(2) by (rule domI)
    then have "(k, v) \<in> set (rev xs)" unfolding set_rev assms(3) by (rule rev_image_eqI) (simp add: Some)
    then show ?thesis using dist Some by (intro trans [OF map_of_is_SomeI]) (simp_all add: rev_map [symmetric])
  qed
  then show ?thesis by (rule ext)
qed

lemma snapshot_endpoints:
  assumes "orders_ok h c"
  shows "map_of (rev (map (\<lambda>(i, l, s). (i, \<lparr>ep_local = l, ep_seen = s\<rparr>)) (cs_endpoints (snapshot h c)))) = dr_endpoints (co_directory c)"
  by (rule relisted_map [of "or_endpoints h"])
    (use assms in \<open>auto simp: orders_ok_def snapshot_def image_image case_prod_beta\<close>)

lemma snapshot_revoked:
  assumes "orders_ok h c"
  shows "map_of (rev (map (\<lambda>(i, index, term). (i, (index, term))) (cs_revoked_nodes (snapshot h c)))) = co_revoked c"
  by (rule relisted_map [of "or_revoked h"])
    (use assms in \<open>auto simp: orders_ok_def snapshot_def image_image case_prod_beta\<close>)

lemma list_all2_member: "list_all2 P xs ys \<Longrightarrow> x \<in> set xs \<Longrightarrow> \<exists>y \<in> set ys. P x y"
  by (induction rule: list_all2_induct) auto

lemma snapshot_checks:
  assumes ok: "coord_ok c" and h: "orders_ok h c" and b: "list_all2 blank_of (co_domains c) (co_domains b)"
    and pks: "distinct (map ne_static_pubkey (cs_nodes (snapshot h c)))"
  shows "fold max (map ne_node_id (cs_nodes (snapshot h c))) 0 < co_next_node_id c" "check_nodes b [] [] (cs_nodes (snapshot h c)) = None"
proof -
  have e: "ne_node_id e < co_next_node_id c \<and> domain_by_network_id b (ne_network_id e) \<noteq> None" if es: "e \<in> set (cs_nodes (snapshot h c))" for e
  proof -
    obtain d where d: "d \<in> set (co_domains c)" "rg_entries (nd_registry d) (ne_node_id e) = Some e" using es snapshot_nodes(1) [OF ok h] by blast
    then have "ne_network_id e = nd_network_id d" "ne_node_id e < co_next_node_id c" using ok unfolding coord_ok_def domain_ok_def by blast+
    moreover obtain x where "x \<in> set (co_domains b)" "blank_of d x" using list_all2_member [OF b d(1)] by blast
    ultimately show ?thesis by (auto simp: domain_by_network_id_def find_None_iff blank_of_def)
  qed
  show "fold max (map ne_node_id (cs_nodes (snapshot h c))) 0 < co_next_node_id c"
    using ok e by (intro fold_max_less) (auto simp: coord_ok_def)
  show "check_nodes b [] [] (cs_nodes (snapshot h c)) = None"
    using snapshot_nodes(2) [OF ok h] pks e by (intro check_nodes_None) simp_all
qed

lemma restored:
  assumes "coord_ok c" and "orders_ok h c" and "keys_placed c" and "distinct (map ne_static_pubkey (cs_nodes (snapshot h c)))"
    and "list_all2 blank_of (co_domains c) (co_domains b)"
  shows "\<exists>c'. restore_state (snapshot h c) b = Inr c' \<and> list_all2 same_persistent (co_domains c) (co_domains c')
    \<and> co_next_node_id c' = co_next_node_id c \<and> dr_netmap_version (co_directory c') = dr_netmap_version (co_directory c)
    \<and> dr_endpoints (co_directory c') = dr_endpoints (co_directory c) \<and> co_revoked c' = co_revoked c"
proof -
  have "list_all2 (\<lambda>d x. \<exists>d'. restore_domain (snapshot h c) x = Inr d' \<and> same_persistent d d') (co_domains c) (co_domains b)"
    using assms(5) restore_domain_same [OF assms(1-3) _ _ assms(4)] by (simp add: list_all2_conv_all_nth)
  then obtain ds where ds: "restore_domains (snapshot h c) (co_domains b) = Inr ds" "list_all2 same_persistent (co_domains c) ds"
    using restore_domains_same by blast
  have s: "cs_next_node_id (snapshot h c) = co_next_node_id c" "cs_netmap_version (snapshot h c) = dr_netmap_version (co_directory c)"
    by (simp_all add: snapshot_def)
  have "\<not> (co_next_node_id c = 0 \<or> co_next_node_id c \<le> fold max (map ne_node_id (cs_nodes (snapshot h c))) 0)"
    using assms(1) snapshot_checks(1) [OF assms(1,2,5,4)] by (auto simp: coord_ok_def)
  then show ?thesis
    using ds(2) snapshot_checks(2) [OF assms(1,2,5,4)]
    by (simp add: restore_state_def ds(1) s Let_def dr_restore_def snapshot_endpoints [OF assms(2)] snapshot_revoked [OF assms(2), simplified])
qed


lemma ex_orders_ok: "orders_ok ex_orders ex_coord"
  by (auto simp: orders_ok_def ex_orders_def ex_coord_def ex_events_def ex_cfg_def ex_world_def coord_eval directory_new_def bump_netmap_def dom_def split: if_splits)

lemma ex_keys_placed: "keys_placed ex_coord"
  by (simp add: keys_placed_def ex_coord_def ex_events_def ex_cfg_def ex_world_def coord_eval)

lemma ex_pubkeys: "distinct (map ne_static_pubkey (cs_nodes (snapshot ex_orders ex_coord)))"
  by (simp add: snapshot_def domain_entries_def ex_orders_def ex_coord_def ex_events_def ex_cfg_def ex_world_def coord_eval)

lemma ex_blank: "list_all2 blank_of (co_domains ex_coord) (co_domains (fresh_coordinator ex_cfg))"
  by (simp add: blank_of_def ex_coord_def ex_events_def ex_cfg_def ex_world_def coord_eval)


end
