(* ===== verification/Raft_Machine.thy ===== *)
theory Raft_Machine
  imports Coord_Restore
begin

text \<open>
  The replicated state machine around the coordinator (\<open>rill-coord/src/raft/machine.rs\<close>) with its state file
  (\<open>rill-coord/src/store/mod.rs\<close>): application of log entries, the checkpoint after each batch, reopening after a
  crash, and the exchange of snapshots between replicas. Serialisation is a parameter with the
  type of its documents; the database is a value, since its transactions are atomic.
\<close>

section \<open>The state file\<close>

record ('m, 'b) serde =
  enc_state :: "coord_state \<Rightarrow> 'b option"
  dec_state :: "'b \<Rightarrow> coord_state option"
  enc_applied :: "(u64 \<times> u64) option \<Rightarrow> 'b option"
  dec_applied :: "'b \<Rightarrow> (u64 \<times> u64) option option"
  enc_membership :: "(u64 \<times> u64) option \<times> 'm option \<Rightarrow> 'b option"
  dec_membership :: "'b \<Rightarrow> ((u64 \<times> u64) option \<times> 'm option) option"

text \<open>The documented behaviour of the serialisation: a value that was written is read back.\<close>

definition serde_ok :: "('m, 'b) serde \<Rightarrow> bool" where
  "serde_ok sd \<longleftrightarrow> (\<forall>st. \<exists>b. enc_state sd st = Some b \<and> dec_state sd b = Some st)
     \<and> (\<forall>a. \<exists>b. enc_applied sd a = Some b \<and> dec_applied sd b = Some a)
     \<and> (\<forall>m. \<exists>b. enc_membership sd m = Some b \<and> dec_membership sd b = Some m)"

record 'b coord_store =
  db_state :: "'b option"
  db_extras :: "string \<rightharpoonup> 'b"

abbreviation (input) APPLIED_KEY :: string where "APPLIED_KEY \<equiv> ''raft_last_applied''"
abbreviation (input) MEMBERSHIP_KEY :: string where "MEMBERSHIP_KEY \<equiv> ''raft_last_membership''"

definition save :: "('m, 'b) serde \<Rightarrow> coord_state \<Rightarrow> 'b coord_store \<Rightarrow> store_error + 'b coord_store" where
  "save sd st db = (case enc_state sd st of None \<Rightarrow> Inl Unencodable | Some json \<Rightarrow> Inr (db\<lparr>db_state := Some json\<rparr>))"

definition load :: "('m, 'b) serde \<Rightarrow> 'b coord_store \<Rightarrow> store_error + coord_state option" where
  "load sd db =
     (case db_state db of
        None \<Rightarrow> Inr None
      | Some b \<Rightarrow>
          (case dec_state sd b of
             None \<Rightarrow> Inl Undecodable
           | Some st \<Rightarrow> if cs_schema st \<noteq> STATE_SCHEMA then Inl (BadSchema (cs_schema st)) else Inr (Some st)))"

definition save_with_extras :: "('m, 'b) serde \<Rightarrow> coord_state \<Rightarrow> (string \<times> 'b) list \<Rightarrow> 'b coord_store \<Rightarrow> store_error + 'b coord_store" where
  "save_with_extras sd st extras db =
     (case enc_state sd st of
        None \<Rightarrow> Inl Unencodable
      | Some json \<Rightarrow> Inr (db\<lparr>db_state := Some json, db_extras := foldl (\<lambda>m (k, v). m(k \<mapsto> v)) (db_extras db) extras\<rparr>))"

definition load_extra :: "string \<Rightarrow> 'b coord_store \<Rightarrow> 'b option" where
  "load_extra k db = db_extras db k"

section \<open>The machine\<close>

record 'm snapshot_meta =
  sm_last_log_id :: "(u64 \<times> u64) option"
  sm_last_membership :: "(u64 \<times> u64) option \<times> 'm option"

record ('m, 'b) machine =
  m_config :: machine_config
  m_coordinator :: coordinator
  m_store :: "'b coord_store option"
  m_last_applied :: "(u64 \<times> u64) option"
  m_last_membership :: "(u64 \<times> u64) option \<times> 'm option"
  m_current_snapshot :: "('m snapshot_meta \<times> 'b) option"

definition in_memory :: "machine_config \<Rightarrow> ('m, 'b) machine" where
  "in_memory cfg =
     \<lparr>m_config = cfg, m_coordinator = fresh_coordinator cfg, m_store = None, m_last_applied = None,
      m_last_membership = (None, None), m_current_snapshot = None\<rparr>"

definition machine_open :: "('m, 'b) serde \<Rightarrow> machine_config \<Rightarrow> 'b coord_store \<Rightarrow> store_error + ('m, 'b) machine" where
  "machine_open sd cfg db =
     (case load sd db of
        Inl e \<Rightarrow> Inl e
      | Inr loaded \<Rightarrow>
          let m = in_memory cfg in
          case (case loaded of None \<Rightarrow> Inr (m_coordinator m) | Some st \<Rightarrow> restore_state st (m_coordinator m)) of
            Inl e \<Rightarrow> Inl e
          | Inr c \<Rightarrow>
              (case (case load_extra APPLIED_KEY db of None \<Rightarrow> Some None | Some b \<Rightarrow> dec_applied sd b) of
                 None \<Rightarrow> Inl Undecodable
               | Some applied \<Rightarrow>
                   (case (case load_extra MEMBERSHIP_KEY db of None \<Rightarrow> Some (None, None) | Some b \<Rightarrow> dec_membership sd b) of
                      None \<Rightarrow> Inl Undecodable
                    | Some mb \<Rightarrow> Inr (m\<lparr>m_coordinator := c, m_last_applied := applied, m_last_membership := mb, m_store := Some db\<rparr>))))"

definition checkpoint :: "('m, 'b) serde \<Rightarrow> orders \<Rightarrow> ('m, 'b) machine \<Rightarrow> store_error + ('m, 'b) machine" where
  "checkpoint sd h m =
     (case m_store m of
        None \<Rightarrow> Inr m
      | Some db \<Rightarrow>
          (case (enc_applied sd (m_last_applied m), enc_membership sd (m_last_membership m)) of
             (Some applied, Some membership) \<Rightarrow>
               (case save_with_extras sd (snapshot h (m_coordinator m)) [(APPLIED_KEY, applied), (MEMBERSHIP_KEY, membership)] db of
                  Inl e \<Rightarrow> Inl e | Inr db \<Rightarrow> Inr (m\<lparr>m_store := Some db\<rparr>))
           | _ \<Rightarrow> Inl Unencodable))"

datatype 'm payload = Blank | Normal coord_command | Membership 'm

fun apply_entry :: "world \<Rightarrow> ('m, 'b) machine \<Rightarrow> orders \<times> (u64 \<times> u64) \<times> 'm payload \<Rightarrow> coord_command_result \<times> ('m, 'b) machine" where
  "apply_entry w m (h, lid, Blank) = (NoopResult, m\<lparr>m_last_applied := Some lid\<rparr>)"
| "apply_entry w m (h, lid, Normal cmd) =
     (case apply_command w h (mc_signing_seed (m_config m)) cmd lid (m_coordinator m) of
        (r, c) \<Rightarrow> (r, m\<lparr>m_last_applied := Some lid, m_coordinator := c\<rparr>))"
| "apply_entry w m (h, lid, Membership mb) = (NoopResult, m\<lparr>m_last_applied := Some lid, m_last_membership := (Some lid, Some mb)\<rparr>)"

fun apply_entries :: "world \<Rightarrow> ('m, 'b) machine \<Rightarrow> (orders \<times> (u64 \<times> u64) \<times> 'm payload) list \<Rightarrow> coord_command_result list \<times> ('m, 'b) machine" where
  "apply_entries w m [] = ([], m)"
| "apply_entries w m (e # es) =
     (case apply_entry w m e of (r, m) \<Rightarrow> case apply_entries w m es of (rs, m) \<Rightarrow> (r # rs, m))"

text \<open>A batch: the entries one by one, then one checkpoint. The results are handed out only when it
  succeeds; when it fails the machine has applied the entries all the same.\<close>

definition machine_apply ::
    "('m, 'b) serde \<Rightarrow> world \<Rightarrow> orders \<Rightarrow> (orders \<times> (u64 \<times> u64) \<times> 'm payload) list \<Rightarrow> ('m, 'b) machine
     \<Rightarrow> (store_error + coord_command_result list) \<times> ('m, 'b) machine" where
  "machine_apply sd w h es m =
     (case apply_entries w m es of (rs, m) \<Rightarrow> case checkpoint sd h m of Inl e \<Rightarrow> (Inl e, m) | Inr m \<Rightarrow> (Inr rs, m))"

definition build_snapshot :: "('m, 'b) serde \<Rightarrow> orders \<Rightarrow> ('m, 'b) machine \<Rightarrow> store_error + ('m snapshot_meta \<times> 'b) \<times> ('m, 'b) machine" where
  "build_snapshot sd h m =
     (case enc_state sd (snapshot h (m_coordinator m)) of
        None \<Rightarrow> Inl Unencodable
      | Some bytes \<Rightarrow>
          let sn = (\<lparr>sm_last_log_id = m_last_applied m, sm_last_membership = m_last_membership m\<rparr>, bytes)
          in Inr (sn, m\<lparr>m_current_snapshot := Some sn\<rparr>))"

definition install_snapshot :: "('m, 'b) serde \<Rightarrow> orders \<Rightarrow> 'm snapshot_meta \<times> 'b \<Rightarrow> ('m, 'b) machine \<Rightarrow> store_error option \<times> ('m, 'b) machine" where
  "install_snapshot sd h sn m =
     (case sn of (meta, bytes) \<Rightarrow>
        case dec_state sd bytes of
          None \<Rightarrow> (Some Undecodable, m)
        | Some st \<Rightarrow>
            (case restore_state st (fresh_coordinator (m_config m)) of
               Inl e \<Rightarrow> (Some e, m)
             | Inr c \<Rightarrow>
                 let m = m\<lparr>m_coordinator := c, m_last_applied := sm_last_log_id meta, m_last_membership := sm_last_membership meta,
                           m_current_snapshot := Some sn\<rparr>
                 in case checkpoint sd h m of Inl e \<Rightarrow> (Some e, m) | Inr m \<Rightarrow> (None, m)))"

section \<open>The machine runs the coordinator\<close>

text \<open>The commands of a batch, as steps of the coordinator.\<close>

fun log_events :: "(orders \<times> (u64 \<times> u64) \<times> 'm payload) list \<Rightarrow> (orders \<times> coord_event) list" where
  "log_events [] = []"
| "log_events ((h, lid, Normal cmd) # es) = (h, Log cmd lid) # log_events es"
| "log_events ((h, lid, Blank) # es) = log_events es"
| "log_events ((h, lid, Membership mb) # es) = log_events es"

lemma apply_entry_frame [simp]:
  "m_config (snd (apply_entry w m e)) = m_config m" "m_store (snd (apply_entry w m e)) = m_store m"
  "m_last_applied (snd (apply_entry w m e)) = Some (fst (snd e))"
  by (cases "(w, m, e)" rule: apply_entry.cases; simp split: prod.split)+

lemma apply_entries_frame [simp]:
  "m_config (snd (apply_entries w m es)) = m_config m" "m_store (snd (apply_entries w m es)) = m_store m"
  by (induction es arbitrary: m) (simp_all add: case_prod_beta)

lemma apply_entries_applied: "es \<noteq> [] \<Longrightarrow> m_last_applied (snd (apply_entries w m es)) = Some (fst (snd (last es)))"
  by (induction es arbitrary: m) (auto simp: case_prod_beta)

lemma apply_entries_coordinator:
  "m_coordinator (snd (apply_entries w m es)) = foldl (coord_step w (mc_signing_seed (m_config m))) (m_coordinator m) (log_events es)"
proof (induction es arbitrary: m rule: log_events.induct)
  case (2 h lid cmd es)
  show ?case using "2.IH" [of "snd (apply_entry w m (h, lid, Normal cmd))"] by (simp add: case_prod_beta split: prod.splits)
qed (simp_all add: case_prod_beta)

section \<open>Restart\<close>

text \<open>What two coordinators must agree on after a restart or the transfer of a snapshot.\<close>

definition same_state :: "coordinator \<Rightarrow> coordinator \<Rightarrow> bool" where
  "same_state c c' \<longleftrightarrow> list_all2 same_persistent (co_domains c) (co_domains c') \<and> co_next_node_id c' = co_next_node_id c
     \<and> dr_netmap_version (co_directory c') = dr_netmap_version (co_directory c)
     \<and> dr_endpoints (co_directory c') = dr_endpoints (co_directory c) \<and> co_revoked c' = co_revoked c"

definition restorable :: "machine_config \<Rightarrow> orders \<Rightarrow> coordinator \<Rightarrow> bool" where
  "restorable cfg h c \<longleftrightarrow> orders_ok h c \<and> keys_placed c \<and> distinct (map ne_static_pubkey (cs_nodes (snapshot h c)))
     \<and> list_all2 blank_of (co_domains c) (co_domains (fresh_coordinator cfg))"

lemma restore_same:
  assumes ok: "coord_ok c" and r: "restorable cfg h c"
  shows "\<exists>c'. restore_state (snapshot h c) (fresh_coordinator cfg) = Inr c' \<and> same_state c c'"
  unfolding same_state_def using r by (intro restored [OF ok]) (simp_all add: restorable_def)

lemma checkpoint_written:
  assumes "serde_ok sd" and "m_store m = Some db"
  shows "\<exists>db'. checkpoint sd h m = Inr (m\<lparr>m_store := Some db'\<rparr>) \<and> load sd db' = Inr (Some (snapshot h (m_coordinator m)))
    \<and> (\<exists>b. load_extra APPLIED_KEY db' = Some b \<and> dec_applied sd b = Some (m_last_applied m))
    \<and> (\<exists>b. load_extra MEMBERSHIP_KEY db' = Some b \<and> dec_membership sd b = Some (m_last_membership m))"
proof -
  obtain s a b where "enc_state sd (snapshot h (m_coordinator m)) = Some s" "dec_state sd s = Some (snapshot h (m_coordinator m))"
    "enc_applied sd (m_last_applied m) = Some a" "dec_applied sd a = Some (m_last_applied m)"
    "enc_membership sd (m_last_membership m) = Some b" "dec_membership sd b = Some (m_last_membership m)"
    using assms(1) unfolding serde_ok_def by metis
  moreover have "cs_schema (snapshot h (m_coordinator m)) = 4" by (simp add: snapshot_def)
  ultimately show ?thesis
    using assms(2) by (intro exI [of _ "db\<lparr>db_state := Some s, db_extras := (db_extras db)(APPLIED_KEY \<mapsto> a, MEMBERSHIP_KEY \<mapsto> b)\<rparr>"])
      (simp add: checkpoint_def save_with_extras_def load_def load_extra_def)
qed


datatype blob = StateBlob coord_state | AppliedBlob "(u64 \<times> u64) option" | MembershipBlob "(u64 \<times> u64) option \<times> nat option"

definition blob_serde :: "(nat, blob) serde" where
  "blob_serde = \<lparr>enc_state = \<lambda>s. Some (StateBlob s), dec_state = (\<lambda>b. case b of StateBlob s \<Rightarrow> Some s | _ \<Rightarrow> None),
     enc_applied = \<lambda>a. Some (AppliedBlob a), dec_applied = (\<lambda>b. case b of AppliedBlob a \<Rightarrow> Some a | _ \<Rightarrow> None),
     enc_membership = \<lambda>m. Some (MembershipBlob m), dec_membership = (\<lambda>b. case b of MembershipBlob m \<Rightarrow> Some m | _ \<Rightarrow> None)\<rparr>"

lemma blob_serde_ok: "serde_ok blob_serde"
  by (simp add: serde_ok_def blob_serde_def)

definition ex_machine :: "(nat, blob) machine" where
  "ex_machine = (in_memory ex_cfg)\<lparr>m_store := Some \<lparr>db_state = None, db_extras = Map.empty\<rparr>,
     m_coordinator := coord_step ex_world [] (fresh_coordinator ex_cfg) (ex_orders, AddKey ex_key (auth_key_simple Reusable))\<rparr>"

definition ex_batch :: "(orders \<times> (u64 \<times> u64) \<times> nat payload) list" where
  "ex_batch = [(ex_orders, (1, 1), Normal (RegisterCmd ex_key [1] 1 [] 0)), (ex_orders, (2, 1), Normal (RegisterCmd ex_key [2] 1 [] 0)),
     (ex_orders, (3, 1), Normal (RequestPathsCmd 1 2 4 100))]"

lemma ex_batch_events:
  "m_config ex_machine = ex_cfg" "mc_signing_seed ex_cfg = []" "log_events ex_batch = tl ex_events" "ex_events = hd ex_events # tl ex_events"
  "m_coordinator ex_machine = coord_step ex_world [] (fresh_coordinator ex_cfg) (hd ex_events)"
  by (simp_all add: ex_machine_def in_memory_def ex_cfg_def ex_batch_def ex_events_def)

lemma ex_batch_runs: "coord.guarded ex_world [] (m_coordinator ex_machine) (tl ex_events)"
  "foldl (coord_step ex_world []) (m_coordinator ex_machine) (tl ex_events) = ex_coord" "coord_ok (m_coordinator ex_machine)"
proof -
  have g: "coord.guarded ex_world [] (fresh_coordinator ex_cfg) (hd ex_events # tl ex_events)" using ex_guarded ex_batch_events(4) by simp
  then show "coord.guarded ex_world [] (m_coordinator ex_machine) (tl ex_events)" by (simp add: ex_batch_events(5))
  show "foldl (coord_step ex_world []) (m_coordinator ex_machine) (tl ex_events) = ex_coord"
    unfolding ex_coord_def by (subst (2) ex_batch_events(4)) (simp add: ex_batch_events(5))
  show "coord_ok (m_coordinator ex_machine)"
    using coord.run_inv [OF coord_ok_fresh [OF ex_config_ok], of ex_world "[]" "[hd ex_events]"] g by (simp add: ex_batch_events(5))
qed

lemma ex_restorable: "restorable ex_cfg ex_orders ex_coord"
  using ex_orders_ok ex_keys_placed ex_pubkeys ex_blank by (simp add: restorable_def)


section \<open>Exchange of snapshots\<close>

text \<open>A snapshot built on one replica and installed on another configured with the same networks transfers the state.\<close>

lemma snapshot_transfer:
  assumes "serde_ok sd" and "coord_ok (m_coordinator m)" and "restorable (m_config f) h (m_coordinator m)" and "m_store f = None"
  shows "\<exists>sn m' f'. build_snapshot sd h m = Inr (sn, m') \<and> install_snapshot sd h' sn f = (None, f')
    \<and> same_state (m_coordinator m) (m_coordinator f') \<and> m_last_applied f' = m_last_applied m \<and> m_last_membership f' = m_last_membership m"
proof -
  obtain b where b: "enc_state sd (snapshot h (m_coordinator m)) = Some b" "dec_state sd b = Some (snapshot h (m_coordinator m))"
    using assms(1) unfolding serde_ok_def by metis
  obtain c where "restore_state (snapshot h (m_coordinator m)) (fresh_coordinator (m_config f)) = Inr c" "same_state (m_coordinator m) c"
    using restore_same [OF assms(2,3)] by blast
  then show ?thesis using b assms(4) by (auto simp: build_snapshot_def install_snapshot_def checkpoint_def Let_def)
qed

text \<open>The auth keys are configuration and not part of a snapshot. Installing one replaces the coordinator by a fresh one,
  so a replica that had the key configured forgets it: the next registration in the log succeeds on the replica that
  built the snapshot and is refused on the replica that installed it.\<close>

theorem installed_replica_diverges:
  "let leader = ex_machine\<lparr>m_store := None, m_coordinator := ex_coord\<rparr>; follower = ex_machine\<lparr>m_store := None\<rparr>;
       entry = (ex_orders, (4, 1), Normal (RegisterCmd ex_key [9] 1 [] 200))
   in co_has_auth_key (m_coordinator follower) ex_key
     \<and> (case build_snapshot blob_serde ex_orders leader of
          Inr (sn, leader) \<Rightarrow>
            (case install_snapshot blob_serde ex_orders sn follower of
               (failed, follower) \<Rightarrow>
                 failed = None \<and> (\<exists>d. fst (apply_entry ex_world leader entry) = RegisterResult (Ok d))
                 \<and> fst (apply_entry ex_world follower entry) = RegisterResult (Err InvalidAuthKey))
        | Inl _ \<Rightarrow> False)"
  by (simp add: ex_machine_def in_memory_def co_has_auth_key_def has_auth_key_def build_snapshot_def install_snapshot_def checkpoint_def blob_serde_def
      snapshot_def domain_entries_def persistent_def restore_state_def restore_domain_def registry_restore_def restore_version_def ps_restore_def
      apply_roster_def set_relays_def dr_restore_def ex_orders_def ex_coord_def ex_events_def ex_cfg_def ex_world_def coord_eval)

text \<open>Registration accepts the same public key in two networks - each network has its own index - but restoring refuses a
  state with a public key twice, so such a replica checkpoints a state file that it cannot open again.\<close>

definition dev_key :: string where
  "dev_key = ''lrk-'' @ ''dev'' @ ''-'' @ show_num 10 (unat (0 :: u64)) @ ''-'' @ base32_encode (replicate 32 7)"

lemma dev_key_parses [simp]: "parse_auth_key dev_key = Ok (''dev'', 0, base32_encode (replicate 32 7))"
  unfolding dev_key_def by (rule parse_assembled) (simp_all add: network_char_def)

lemma dev_network [simp]: "network_id_for ''dev'' \<noteq> network_id_for ''lab''" "network_id_for ''lab'' \<noteq> network_id_for ''dev''"
  by code_simp+

definition two_cfg :: machine_config where
  "two_cfg = \<lparr>mc_signing_seed = [], mc_networks = [(''lab'', replicate 32 1), (''dev'', replicate 32 2)]\<rparr>"

definition two_coord :: coordinator where
  "two_coord = foldl (coord_step ex_world []) (fresh_coordinator two_cfg)
     [(ex_orders, AddKey ex_key (auth_key_simple Reusable)), (ex_orders, AddKey dev_key (auth_key_simple Reusable)),
      (ex_orders, Log (RegisterCmd ex_key [1] 1 [] 0) (1, 1)), (ex_orders, Log (RegisterCmd dev_key [1] 1 [] 0) (2, 1))]"

definition two_orders :: orders where
  "two_orders = ex_orders\<lparr>or_nodes := (\<lambda>i. if i = network_id_for ''lab'' then [1] else [2]), or_paths := (\<lambda>_. [])\<rparr>"

theorem shared_pubkey_cannot_restore:
  "network_id_of two_coord 1 = Some (network_id_for ''lab'') \<and> network_id_of two_coord 2 = Some (network_id_for ''dev'')
   \<and> restore_state (snapshot two_orders two_coord) (fresh_coordinator two_cfg) = Inl (DuplicatePubkey 2)"
  by (simp add: snapshot_def domain_entries_def restore_state_def two_orders_def two_coord_def two_cfg_def ex_orders_def ex_world_def coord_eval)

text \<open>A network that is added to the configuration has no key version in an existing state file, and the restart is refused.\<close>

theorem added_network_cannot_restart:
  "restore_state (snapshot ex_orders ex_coord) (fresh_coordinator two_cfg) = Inl (MissingKeyVersion (network_id_for ''dev''))"
  by (simp add: snapshot_def domain_entries_def persistent_def restore_state_def restore_domain_def registry_restore_def restore_version_def ps_restore_def
      apply_roster_def set_relays_def two_cfg_def ex_orders_def ex_coord_def ex_events_def ex_cfg_def ex_world_def coord_eval)

end
