(* ===== verification/Packet_Mtu.thy ===== *)
theory Packet_Mtu
  imports Net_Addr
begin

text \<open>
  Inspection and rewriting of inner IP packets (\<open>rill-node/src/packet/mod.rs\<close>, \<open>packet/mtu.rs\<close>): the packet parser,
  clamping of the TCP maximum segment size with the incremental checksum of RFC 1624, and the construction of
  packet-too-big messages. Packets are byte lists. The scan of the TCP options is a loop that may in principle not end,
  so it is a partial function and its return is a theorem.
\<close>

unbundle bit_operations_syntax

section \<open>Packet parser\<close>

datatype transport_proto = Tcp | Udp | Icmp | Icmpv6 | OtherProto u8

record packet_info =
  pi_src :: ip_addr
  pi_dst :: ip_addr
  pi_proto :: transport_proto
  pi_total_len :: nat

datatype packet_error = NotIp | PacketTruncated

definition proto_from_u8 :: "u8 \<Rightarrow> transport_proto" where
  "proto_from_u8 v = (if v = 6 then Tcp else if v = 17 then Udp else if v = 1 then Icmp else if v = 58 then Icmpv6 else OtherProto v)"

definition parse_v4 :: "byte list \<Rightarrow> packet_error + packet_info" where
  "parse_v4 buf =
     (if length buf < 20 then Inl PacketTruncated
      else let ihl = unat (buf ! 0 AND 0x0f) * 4 in
        if ihl < 20 \<or> length buf < ihl then Inl PacketTruncated
        else Inr \<lparr>pi_src = V4 (slice 12 16 buf), pi_dst = V4 (slice 16 20 buf), pi_proto = proto_from_u8 (buf ! 9),
                  pi_total_len = unat (get16 (slice 2 4 buf))\<rparr>)"

definition parse_v6 :: "byte list \<Rightarrow> packet_error + packet_info" where
  "parse_v6 buf =
     (if length buf < 40 then Inl PacketTruncated
      else Inr \<lparr>pi_src = V6 (slice 8 24 buf), pi_dst = V6 (slice 24 40 buf), pi_proto = proto_from_u8 (buf ! 6),
                pi_total_len = 40 + unat (get16 (slice 4 6 buf))\<rparr>)"

definition parse_packet :: "byte list \<Rightarrow> packet_error + packet_info" where
  "parse_packet buf =
     (if buf = [] then Inl NotIp
      else let v = drop_bit 4 (buf ! 0) in if v = 4 then parse_v4 buf else if v = 6 then parse_v6 buf else Inl NotIp)"

section \<open>Sizes\<close>

abbreviation (input) MESH_ENCAP_OVERHEAD_V4 :: u16 where "MESH_ENCAP_OVERHEAD_V4 \<equiv> 86"
abbreviation (input) MESH_ENCAP_OVERHEAD_V6 :: u16 where "MESH_ENCAP_OVERHEAD_V6 \<equiv> 106"
abbreviation (input) DEFAULT_EGRESS_MTU :: u16 where "DEFAULT_EGRESS_MTU \<equiv> 1500"

definition TUN_CONSERVATIVE_MTU :: u16 where
  "TUN_CONSERVATIVE_MTU = DEFAULT_EGRESS_MTU - MESH_ENCAP_OVERHEAD_V6"

definition sat_add16 :: "u16 \<Rightarrow> u16 \<Rightarrow> u16" where
  "sat_add16 a b = (if unat a + unat b < 2 ^ 16 then a + b else - 1)"

definition sat_sub16 :: "u16 \<Rightarrow> u16 \<Rightarrow> u16" where
  "sat_sub16 a b = (if b \<le> a then a - b else 0)"

definition mesh_frame_fits :: "nat \<Rightarrow> bool \<Rightarrow> u16 \<Rightarrow> bool" where
  "mesh_frame_fits inner_len underlay_v6 egress_mtu =
     (let overhead = (if underlay_v6 then MESH_ENCAP_OVERHEAD_V6 else MESH_ENCAP_OVERHEAD_V4)
      in sat_add16 (word_of_nat inner_len) overhead \<le> egress_mtu)"

section \<open>Checksums\<close>

lemma unat_fold_step: "unat ((s AND 0xffff) + drop_bit 16 s) = unat (s :: u32) mod 65536 + unat s div 65536"
proof -
  have "s AND mask 16 = take_bit 16 s" by (simp add: take_bit_eq_mask)
  then have a: "unat (s AND 0xffff) = unat s mod 65536" by (simp add: mask_eq_exp_minus_1 take_bit_eq_mod unat_mod)
  have d: "unat (drop_bit 16 s) = unat s div 65536" by (simp add: drop_bit_eq_div unat_div)
  have "unat s div 65536 < 65536" using unsigned_less [of s, where ?'a = nat] by (simp add: less_mult_imp_div_less)
  moreover have "unat s mod 65536 < 65536" by simp
  ultimately have "unat s mod 65536 + unat s div 65536 < 4294967296" by linarith
  then show ?thesis unfolding unat_word_ariths a d by simp
qed

text \<open>The folding loop \<open>while s >> 16 != 0\<close>.\<close>

function fold16 :: "u32 \<Rightarrow> u32" where
  "fold16 s = (if drop_bit 16 s \<noteq> 0 then fold16 ((s AND 0xffff) + drop_bit 16 s) else s)"
  by pat_completeness auto

termination
proof (relation "measure unat")
  fix s :: u32
  assume "drop_bit 16 s \<noteq> 0"
  then have "unat s div 65536 \<noteq> 0" by (simp add: word_unat_eq_iff drop_bit_eq_div unat_div)
  moreover have "unat s = unat s div 65536 * 65536 + unat s mod 65536" by simp
  ultimately have "unat s mod 65536 + unat s div 65536 < unat s" by linarith
  then show "((s AND 0xffff) + drop_bit 16 s, s) \<in> measure unat" by (simp add: unat_fold_step)
qed simp

declare fold16.simps [simp del]

definition ones_complement_add :: "u16 \<Rightarrow> u16 \<Rightarrow> u16" where
  "ones_complement_add a b = ucast (fold16 (ucast a + ucast b))"

fun sum16 :: "byte list \<Rightarrow> u32 \<Rightarrow> u32" where
  "sum16 (a # b # rest) s = sum16 rest (s + ucast (get16 [a, b]))"
| "sum16 [a] s = s + push_bit 8 (ucast a)"
| "sum16 [] s = s"

definition checksum16 :: "byte list \<Rightarrow> u16" where
  "checksum16 data = ucast (NOT (fold16 (sum16 data 0)))"

definition icmpv6_checksum :: "byte list \<Rightarrow> byte list \<Rightarrow> u16" where
  "icmpv6_checksum ip6_header icmp =
     checksum16 (slice 8 40 ip6_header @ be32 (word_of_nat (length icmp)) @ [0, 0, 0, 58] @ icmp)"

section \<open>Clamping of the segment size\<close>

definition l4_offset :: "byte list \<Rightarrow> (unit, nat option) outcome" where
  "l4_offset pkt =
     (if pkt = [] then Panic
      else let v = drop_bit 4 (pkt ! 0) in
        if v = 4 then let ihl = unat (pkt ! 0 AND 0x0f) * 4 in Ok (if 20 \<le> ihl \<and> ihl \<le> length pkt then Some ihl else None)
        else if v = 6 then Ok (if 40 \<le> length pkt then Some 40 else None)
        else Ok None)"

definition l3_proto :: "byte list \<Rightarrow> nat" where
  "l3_proto pkt = (if drop_bit 4 (pkt ! 0) = 4 then 9 else 6)"

definition is_tcp_syn :: "byte list \<Rightarrow> (unit, bool) outcome" where
  "is_tcp_syn pkt =
     obind (l4_offset pkt) (\<lambda>off. case off of
        None \<Rightarrow> Ok False
      | Some l4 \<Rightarrow> Ok (l4 + 14 \<le> length pkt \<and> pkt ! l3_proto pkt = 6 \<and> pkt ! (l4 + 13) AND 0x02 \<noteq> 0))"

partial_function (option) mss_scan :: "byte list \<Rightarrow> nat \<Rightarrow> nat \<Rightarrow> nat option \<Rightarrow> nat option option" where
  "mss_scan pkt stop i mss_at =
     (if i + 1 < stop then
        if pkt ! i = 0 then Some mss_at
        else if pkt ! i = 1 then mss_scan pkt stop (i + 1) mss_at
        else let len = unat (pkt ! (i + 1)) in
          if len < 2 \<or> stop < i + len then Some mss_at
          else mss_scan pkt stop (i + len) (if pkt ! i = 2 \<and> len = 4 then Some i else mss_at)
      else Some mss_at)"

definition put :: "nat \<Rightarrow> byte list \<Rightarrow> byte list \<Rightarrow> byte list" where
  "put off bs xs = take off xs @ bs @ drop (off + length bs) xs"

definition rewrite_mss :: "nat \<Rightarrow> nat \<Rightarrow> u16 \<Rightarrow> byte list \<Rightarrow> (unit, bool \<times> byte list) outcome" where
  "rewrite_mss l4 at max_mss pkt =
     (if length pkt < at + 4 \<or> length pkt < l4 + 18 then Panic
      else let old = get16 [pkt ! (at + 2), pkt ! (at + 3)] in
      if old \<le> max_mss then Ok (False, pkt)
      else
        let pkt = put (at + 2) (be16 max_mss) pkt;
            ck_at = l4 + 16;
            hc = get16 [pkt ! ck_at, pkt ! (ck_at + 1)];
            hc = NOT (ones_complement_add (NOT hc) (ones_complement_add (NOT old) max_mss))
        in Ok (True, put ck_at (be16 hc) pkt))"

text \<open>The value is \<open>None\<close> when the scan of the options does not end.\<close>

definition clamp_mss :: "u16 \<Rightarrow> byte list \<Rightarrow> (unit, bool \<times> byte list) outcome option" where
  "clamp_mss mtu pkt =
     (case l4_offset pkt of
        Ok (Some l4) \<Rightarrow>
          if length pkt < l4 + 20 \<or> is_tcp_syn pkt \<noteq> Ok True then Some (Ok (False, pkt))
          else let doff = unat (drop_bit 4 (pkt ! (l4 + 12))) * 4 in
            if doff < 20 \<or> length pkt < l4 + doff then Some (Ok (False, pkt))
            else let max_mss = (if drop_bit 4 (pkt ! 0) = 4 then sat_sub16 mtu 40 else sat_sub16 mtu 60) in
              (case mss_scan pkt (l4 + doff) (l4 + 20) None of
                 None \<Rightarrow> None
               | Some None \<Rightarrow> Some (Ok (False, pkt))
               | Some (Some at) \<Rightarrow> Some (rewrite_mss l4 at max_mss pkt))
      | Ok None \<Rightarrow> Some (Ok (False, pkt))
      | _ \<Rightarrow> Some Panic)"

section \<open>Packet-too-big messages\<close>

definition v4_src :: "byte list \<Rightarrow> byte list option" where
  "v4_src p = (if 20 \<le> length p then Some (slice 12 16 p) else None)"

definition v4_dst :: "byte list \<Rightarrow> byte list option" where
  "v4_dst p = (if 20 \<le> length p then Some (slice 16 20 p) else None)"

definition v6_src :: "byte list \<Rightarrow> byte list option" where
  "v6_src p = get_range 8 24 p"

definition v6_dst :: "byte list \<Rightarrow> byte list option" where
  "v6_dst p = get_range 24 40 p"

definition endpoints :: "byte list \<Rightarrow> (ip_addr \<times> ip_addr) option" where
  "endpoints inner =
     (case get_at 0 inner of
        None \<Rightarrow> None
      | Some b \<Rightarrow>
          if drop_bit 4 b = 4 then
            (case (v4_src inner, v4_dst inner) of (Some s, Some d) \<Rightarrow> Some (V4 s, V4 d) | _ \<Rightarrow> None)
          else if drop_bit 4 b = 6 then
            (case (v6_src inner, v6_dst inner) of (Some s, Some d) \<Rightarrow> Some (V6 s, V6 d) | _ \<Rightarrow> None)
          else None)"

definition build_ptb_v4 :: "byte list \<Rightarrow> u16 \<Rightarrow> byte list option" where
  "build_ptb_v4 inner next_hop_mtu =
     (case (v4_dst inner, v4_src inner) of
        (Some src, Some dst) \<Rightarrow>
          let ihl = unat (inner ! 0 AND 0x0f) * 4;
              quote_len = min (ihl + 8) (length inner);
              total_len = 20 + 8 + quote_len;
              pkt = replicate total_len 0;
              pkt = put 0 [0x45] pkt;
              pkt = put 2 (be16 (word_of_nat total_len)) pkt;
              pkt = put 4 (be16 0x5211) pkt;
              pkt = put 8 [64] pkt;
              pkt = put 9 [1] pkt;
              pkt = put 12 src pkt;
              pkt = put 16 dst pkt;
              pkt = put 20 [3] pkt;
              pkt = put 21 [4] pkt;
              pkt = put (20 + 6) (be16 next_hop_mtu) pkt;
              pkt = put (20 + 8) (take quote_len inner) pkt;
              ck = checksum16 (drop 20 pkt);
              pkt = put (20 + 2) (be16 ck) pkt;
              ip_ck = checksum16 (take 20 pkt)
          in Some (put 10 (be16 ip_ck) pkt)
      | _ \<Rightarrow> None)"

definition build_ptb_v6 :: "byte list \<Rightarrow> u16 \<Rightarrow> byte list option" where
  "build_ptb_v6 inner next_hop_mtu =
     (case (v6_dst inner, v6_src inner) of
        (Some src, Some dst) \<Rightarrow>
          let quote_len = min (length inner) (1280 - 40 - 8);
              payload_len = 8 + quote_len;
              pkt = replicate (40 + payload_len) 0;
              pkt = put 0 [0x60] pkt;
              pkt = put 4 (be16 (word_of_nat payload_len)) pkt;
              pkt = put 6 [58] pkt;
              pkt = put 7 [255] pkt;
              pkt = put 8 src pkt;
              pkt = put 24 dst pkt;
              pkt = put 40 [2] pkt;
              pkt = put 44 (be32 (ucast next_hop_mtu)) pkt;
              pkt = put 48 (take quote_len inner) pkt;
              ck = icmpv6_checksum (take 40 pkt) (drop 40 pkt)
          in Some (put 42 (be16 ck) pkt)
      | _ \<Rightarrow> None)"

definition build_ptb :: "byte list \<Rightarrow> u16 \<Rightarrow> byte list option" where
  "build_ptb inner next_hop_mtu =
     (case get_at 0 inner of
        None \<Rightarrow> None
      | Some b \<Rightarrow> if drop_bit 4 b = 4 then build_ptb_v4 inner next_hop_mtu
                  else if drop_bit 4 b = 6 then build_ptb_v6 inner next_hop_mtu else None)"

section \<open>Ones' complement sums\<close>

text \<open>The sum of a byte string as big-endian words, padded with a zero byte, as a number.\<close>

fun wsum :: "byte list \<Rightarrow> nat" where
  "wsum (a # b # rest) = unat (get16 [a, b]) + wsum rest"
| "wsum [a] = 256 * unat a"
| "wsum [] = 0"

lemma unat_widen [simp]: "unat (ucast (x :: u16) :: u32) = unat x" "unat (ucast (y :: u8) :: u32) = unat y"
proof -
  have "unat x < 2 ^ 32" using unsigned_less [of x, where ?'a = nat] by simp
  moreover have "unat y < 2 ^ 32" by (rule less_trans [OF unat_byte_less]) simp
  ultimately show "unat (ucast x :: u32) = unat x" "unat (ucast y :: u32) = unat y" by (simp_all add: unsigned_ucast_eq take_bit_nat_eq_self)
qed

lemma fold16_eq: "unat (fold16 s) = (if unat s = 0 then 0 else (unat s - 1) mod 65535 + 1)"
proof (induction s rule: fold16.induct)
  case (1 s)
  show ?case
  proof (cases "drop_bit 16 s = 0")
    case True
    then have "unat s < 65536" by (simp add: word_unat_eq_iff drop_bit_eq_div unat_div div_eq_0_iff)
    then show ?thesis using True by (simp add: fold16.simps [of s])
  next
    case False
    let ?n = "unat s" and ?m = "unat s mod 65536 + unat s div 65536"
    have n: "?n div 65536 \<noteq> 0" using False by (simp add: word_unat_eq_iff drop_bit_eq_div unat_div)
    have "?n = ?n div 65536 * 65536 + ?n mod 65536" by simp
    then have "?n - 1 = (?m - 1) + 65535 * (?n div 65536)" using n by linarith
    then have e: "(?n - 1) mod 65535 = (?m - 1) mod 65535" by (simp only: mod_mult_self2)
    have "?m \<noteq> 0" "?n \<noteq> 0" using n by (simp_all add: div_eq_0_iff)
    moreover have "fold16 s = fold16 ((s AND 0xffff) + drop_bit 16 s)" using False by (subst fold16.simps) simp
    ultimately show ?thesis using "1.IH" [OF False] unfolding unat_fold_step by (simp only: e if_False)
  qed
qed

lemma fold16_cong:
  assumes "unat a mod 65535 = unat b mod 65535" and "0 < unat a" and "0 < unat b"
  shows "fold16 a = fold16 b"
proof -
  obtain x y where xy: "unat a = Suc x" "unat b = Suc y" using assms(2,3) by (metis gr0_conv_Suc)
  have "x mod 65535 = y mod 65535" using assms(1) unfolding xy by (simp add: mod_Suc split: if_splits)
  then have "(unat a - 1) mod 65535 = (unat b - 1) mod 65535" using xy by simp
  then show ?thesis using assms(2,3) by (simp add: word_unat_eq_iff fold16_eq)
qed

lemma wsum_bound: "wsum xs \<le> 65535 * ((length xs + 1) div 2)"
proof (induction xs rule: wsum.induct)
  case (1 a b rest)
  have "unat (get16 [a, b]) < 65536" using unsigned_less [of "get16 [a, b]", where ?'a = nat] by simp
  then show ?case using 1 by simp
next
  case (2 a)
  have "unat a < 256" using unsigned_less [of a, where ?'a = nat] by simp
  then have "256 * unat a \<le> 65535" by linarith
  then show ?case by simp
qed simp

lemma sum16_wsum: "unat acc + wsum xs < 4294967296 \<Longrightarrow> unat (sum16 xs acc) = unat acc + wsum xs"
proof (induction xs acc rule: sum16.induct)
  case (1 a b rest s)
  then have "unat (s + ucast (get16 [a, b])) = unat s + unat (get16 [a, b])" by (simp add: unat_word_ariths)
  then show ?case using 1 by simp
next
  case (2 a s)
  have "unat a * 256 < 4294967296" using unat_byte_less [of a] by linarith
  then have "unat (push_bit 8 (ucast a :: u32)) = 256 * unat a"
    by (simp add: push_bit_eq_mult unat_word_ariths mult.commute)
  then show ?case using 2 by (simp add: unat_word_ariths)
qed simp

lemma sum16_short: "length xs \<le> 131072 \<Longrightarrow> unat (sum16 xs 0) = wsum xs"
proof -
  assume "length xs \<le> 131072"
  then have "(length xs + 1) div 2 \<le> 65536" by simp
  then have "wsum xs < 4294967296" using wsum_bound [of xs] by linarith
  then show ?thesis using sum16_wsum [of 0 xs] by simp
qed

lemma wsum_append: "even (length xs) \<Longrightarrow> wsum (xs @ ys) = wsum xs + wsum ys"
  by (induction xs rule: wsum.induct) auto

lemma be16_two: "\<exists>a b. be16 w = [a, b] \<and> get16 [a, b] = w"
proof -
  obtain a b where "be16 w = [a, b]" using length_be(1) [of w] by (metis (no_types) length_0_conv length_Suc_conv numeral_2_eq_2)
  then show ?thesis using get16_be16 [of w] by simp
qed

lemma wsum_be16 [simp]: "wsum (be16 w) = unat w"
  using be16_two [of w] by auto

text \<open>Overwriting a word at an even offset changes the sum by the difference.\<close>

lemma length_put [simp]: "off + length bs \<le> length xs \<Longrightarrow> length (put off bs xs) = length xs"
  by (simp add: put_def)

lemma split_word: "off + 2 \<le> length xs \<Longrightarrow> xs = take off xs @ [xs ! off, xs ! (off + 1)] @ drop (off + 2) xs"
  by (metis Cons_nth_drop_Suc Suc_eq_plus1 Suc_le_lessD add_2_eq_Suc' append_Cons append_Nil append_take_drop_id Suc_leD)

lemma wsum_put:
  assumes "even off" and "off + 2 \<le> length xs"
  shows "wsum (put off (be16 v) xs) + unat (get16 [xs ! off, xs ! (off + 1)]) = wsum xs + unat v"
proof -
  have e: "even (length (take off xs))" using assms by simp
  have "wsum xs = wsum (take off xs) + (unat (get16 [xs ! off, xs ! (off + 1)]) + wsum (drop (off + 2) xs))"
    by (subst split_word [OF assms(2)]) (simp add: wsum_append [OF e])
  moreover have "wsum (put off (be16 v) xs) = wsum (take off xs) + (unat v + wsum (drop (off + 2) xs))"
    using wsum_append [of "be16 v"] by (simp add: put_def wsum_append [OF e])
  ultimately show ?thesis by simp
qed

lemma drop_put: "k \<le> off \<Longrightarrow> off \<le> length xs \<Longrightarrow> drop k (put off bs xs) = put (off - k) bs (drop k xs)"
  by (simp add: put_def drop_take)

lemma nth_put: "off + length bs \<le> length xs \<Longrightarrow> i < length xs \<Longrightarrow> put off bs xs ! i = (if off \<le> i \<and> i < off + length bs then bs ! (i - off) else xs ! i)"
  by (auto simp: put_def nth_append min_def)

section \<open>The scan ends\<close>

lemma mss_scan_returns:
  "\<exists>r. mss_scan pkt stop i found = Some r \<and> (r = found \<or> (\<exists>at. r = Some at \<and> i \<le> at \<and> at + 4 \<le> stop \<and> pkt ! at = 2 \<and> pkt ! (at + 1) = 4))"
proof (induction "stop - i" arbitrary: i found rule: less_induct)
  case less
  show ?case
  proof (cases "i + 1 < stop \<and> pkt ! i \<noteq> 0")
    case False
    then show ?thesis by (auto simp: mss_scan.simps [of pkt stop i])
  next
    case True
    let ?n = "unat (pkt ! (i + 1))"
    consider "pkt ! i = 1" | "pkt ! i \<noteq> 1" "?n < 2 \<or> stop < i + ?n" | "pkt ! i \<noteq> 1" "2 \<le> ?n" "i + ?n \<le> stop" by linarith
    then show ?thesis
    proof cases
      case 1
      have "stop - (i + 1) < stop - i" using True by linarith
      from less [OF this, of found] 1 True show ?thesis by (fastforce simp: mss_scan.simps [of pkt stop i])
    next
      case 2
      then show ?thesis using True by (auto simp: mss_scan.simps [of pkt stop i] Let_def)
    next
      case 3
      let ?f = "if pkt ! i = 2 \<and> ?n = 4 then Some i else found"
      have dec: "stop - (i + ?n) < stop - i" using True 3 by linarith
      obtain r where r: "mss_scan pkt stop (i + ?n) ?f = Some r"
        "r = ?f \<or> (\<exists>at. r = Some at \<and> i + ?n \<le> at \<and> at + 4 \<le> stop \<and> pkt ! at = 2 \<and> pkt ! (at + 1) = 4)"
        using less [OF dec, of ?f] by blast
      have "mss_scan pkt stop i found = Some r" using True 3 r(1) by (simp add: mss_scan.simps [of pkt stop i] Let_def)
      moreover have "pkt ! (i + 1) = 4" if "?n = 4" using that by (simp add: word_unat_eq_iff)
      ultimately show ?thesis using r(2) 3 by (auto split: if_splits)
    qed
  qed
qed

definition safe_mss :: "u16 \<Rightarrow> byte list \<Rightarrow> u16" where
  "safe_mss mtu pkt = (if drop_bit 4 (pkt ! 0) = 4 then sat_sub16 mtu 40 else sat_sub16 mtu 60)"

lemma clamp_cases:
  "clamp_mss mtu pkt = Some (Ok (False, pkt)) \<or> pkt = [] \<and> clamp_mss mtu pkt = Some Panic
   \<or> (\<exists>l4 at. l4_offset pkt = Ok (Some l4) \<and> l4 + 20 \<le> at \<and> at + 4 \<le> length pkt \<and> pkt ! at = 2 \<and> pkt ! (at + 1) = 4
        \<and> 0 < pkt ! (l4 + 12) \<and> clamp_mss mtu pkt = Some (rewrite_mss l4 at (safe_mss mtu pkt) pkt))"
proof (cases "l4_offset pkt")
  case (Ok off)
  show ?thesis
  proof (cases off)
    case (Some l4)
    let ?doff = "unat (drop_bit 4 (pkt ! (l4 + 12))) * 4"
    show ?thesis
    proof (cases "length pkt < l4 + 20 \<or> is_tcp_syn pkt \<noteq> outcome.Ok True \<or> ?doff < 20 \<or> length pkt < l4 + ?doff")
      case False
      obtain r where r: "mss_scan pkt (l4 + ?doff) (l4 + 20) None = Some r"
        "r = None \<or> (\<exists>at. r = Some at \<and> l4 + 20 \<le> at \<and> at + 4 \<le> l4 + ?doff \<and> pkt ! at = 2 \<and> pkt ! (at + 1) = 4)"
        using mss_scan_returns by blast
      have "pkt ! (l4 + 12) \<noteq> 0" using False by auto
      then have "0 < pkt ! (l4 + 12)" by (simp add: word_neq_0_conv)
      then show ?thesis using r False Ok Some by (auto simp: clamp_mss_def safe_mss_def Let_def)
    qed (use Ok Some in \<open>auto simp: clamp_mss_def Let_def\<close>)
  qed (use Ok in \<open>simp add: clamp_mss_def\<close>)
qed (auto simp: clamp_mss_def l4_offset_def Let_def split: if_splits)


lemma fold16_mod: "unat (fold16 s) mod 65535 = unat s mod 65535" "unat (fold16 s) \<le> 65535"
proof -
  obtain n where "unat s = 0 \<or> unat s = Suc n" by (cases "unat s") auto
  then show "unat (fold16 s) mod 65535 = unat s mod 65535" by (auto simp: fold16_eq mod_Suc)
  have "(unat s - 1) mod 65535 < 65535" by simp
  then have "(unat s - 1) mod 65535 + 1 \<le> 65535" by linarith
  then show "unat (fold16 s) \<le> 65535" by (simp only: fold16_eq split: if_split) simp
qed

lemma ones_complement_add_mod: "unat (ones_complement_add a b) mod 65535 = (unat a + unat b) mod 65535"
proof -
  have "unat a < 65536" "unat b < 65536" using unsigned_less [of a, where ?'a = nat] unsigned_less [of b, where ?'a = nat] by simp_all
  then have s: "unat (ucast a + ucast b :: u32) = unat a + unat b" by (simp add: unat_word_ariths)
  have "unat (fold16 (ucast a + ucast b)) < 2 ^ 16" using fold16_mod(2) [of "ucast a + ucast b"] by simp
  then have "unat (ones_complement_add a b) = unat (fold16 (ucast a + ucast b))"
    by (simp add: ones_complement_add_def unsigned_ucast_eq take_bit_nat_eq_self)
  then show ?thesis using fold16_mod(1) [of "ucast a + ucast b"] s by simp
qed

lemma unat_not16: "unat (NOT (w :: u16)) = 65535 - unat w"
proof -
  have "NOT w = - 1 - w" by (simp add: not_eq_complement)
  moreover have "unat (- 1 - w) = unat (- 1 :: u16) - unat w" by (rule unat_sub) simp
  ultimately show ?thesis by (simp add: unsigned_minus_1_eq_mask mask_eq_exp_minus_1)
qed

text \<open>Equation 3 of RFC 1624.\<close>

lemma incremental_checksum:
  "(unat (NOT (ones_complement_add (NOT hc) (ones_complement_add (NOT old) new))) + unat new) mod 65535 = (unat hc + unat old) mod 65535"
proof -
  define x where "x = unat (ones_complement_add (NOT old) new)"
  define y where "y = unat (ones_complement_add (NOT hc) (ones_complement_add (NOT old) new))"
  have le: "unat w \<le> 65535" for w :: u16 using unsigned_less [of w, where ?'a = nat] by simp
  have x: "int (x mod 65535) = int ((65535 - unat old + unat new) mod 65535)"
    using ones_complement_add_mod [of "NOT old" new] unfolding x_def unat_not16 by (rule arg_cong)
  have y: "int (y mod 65535) = int ((65535 - unat hc + x) mod 65535)"
    using ones_complement_add_mod [of "NOT hc" "ones_complement_add (NOT old) new"] unfolding x_def y_def unat_not16 by (rule arg_cong)
  have "(65535 - int y + int (unat new)) mod 65535 = (int (unat hc) + int (unat old)) mod 65535"
  proof -
    let ?X = "int x - (65535 - int (unat old) + int (unat new))" and ?Y = "int y - (65535 - int (unat hc) + int x)"
    have X: "65535 dvd ?X" and Y: "65535 dvd ?Y"
      using x y unfolding of_nat_mod of_nat_add of_nat_diff [OF le] of_nat_numeral by (simp_all only: mod_eq_dvd_iff)
    have "65535 dvd (- ?Y - ?X - 65535)" by (rule dvd_diff [OF dvd_diff [OF _ X] dvd_refl]) (simp only: dvd_minus_iff Y)
    moreover have "- ?Y - ?X - 65535 = (65535 - int y + int (unat new)) - (int (unat hc) + int (unat old))" by simp
    ultimately show ?thesis by (simp only: mod_eq_dvd_iff)
  qed
  moreover have z: "unat (NOT (ones_complement_add (NOT hc) (ones_complement_add (NOT old) new))) = 65535 - y" "y \<le> 65535"
    unfolding y_def by (rule unat_not16, rule le)
  ultimately have "int ((65535 - y + unat new) mod 65535) = int ((unat hc + unat old) mod 65535)"
    unfolding of_nat_mod of_nat_add of_nat_diff [OF z(2)] of_nat_numeral by blast
  then show ?thesis unfolding z(1) of_nat_eq_iff .
qed

lemma wsum_pos: "list_ex (\<lambda>b. b \<noteq> 0) xs \<Longrightarrow> 0 < wsum xs"
proof (induction xs rule: wsum.induct)
  case (1 a b rest)
  have "unat (get16 [a, b]) = 256 * unat a + unat b"
    by (simp add: get16_def unat_word_of_nat_of_be [of 2]) (simp add: of_be_def)
  then show ?case using 1 by (auto simp: unat_gt_0)
qed (auto simp: unat_gt_0)

lemma mod_add_cancel: "(a + c) mod m = (b + c) mod m \<Longrightarrow> a mod m = b mod (m :: nat)"
proof -
  assume "(a + c) mod m = (b + c) mod m"
  then have "(int a + int c) mod int m = (int b + int c) mod int m" by (metis of_nat_add of_nat_mod)
  then have "int a mod int m = int b mod int m" by (simp add: mod_eq_dvd_iff)
  then show ?thesis by (metis of_nat_eq_iff of_nat_mod)
qed

lemma rewritten:
  assumes "rewrite_mss l4 at m pkt = Ok (True, pkt')" and "l4 + 20 \<le> at" and "at + 4 \<le> length pkt"
  defines "old \<equiv> get16 [pkt ! (at + 2), pkt ! (at + 3)]" and "hc \<equiv> get16 [pkt ! (l4 + 16), pkt ! (l4 + 17)]"
  shows "m < old" "pkt' = put (l4 + 16) (be16 (NOT (ones_complement_add (NOT hc) (ones_complement_add (NOT old) m)))) (put (at + 2) (be16 m) pkt)"
proof -
  have "put (at + 2) (be16 m) pkt ! (l4 + 16) = pkt ! (l4 + 16)" "put (at + 2) (be16 m) pkt ! (17 + l4) = pkt ! (l4 + 17)"
    using assms(2,3) by (simp_all add: nth_put add.commute)
  then show "m < old" "pkt' = put (l4 + 16) (be16 (NOT (ones_complement_add (NOT hc) (ones_complement_add (NOT old) m)))) (put (at + 2) (be16 m) pkt)"
    using assms(1-3) unfolding old_def hc_def by (auto simp: rewrite_mss_def Let_def add.assoc split: if_splits)
qed

lemma rewritten_bytes:
  assumes "rewrite_mss l4 at m pkt = Ok (True, pkt')" and "l4 + 20 \<le> at" and "at + 4 \<le> length pkt"
  shows "length pkt' = length pkt" "get16 [pkt' ! (at + 2), pkt' ! (at + 3)] = m"
    "i < length pkt \<Longrightarrow> i \<notin> {at + 2, at + 3, l4 + 16, l4 + 17} \<Longrightarrow> pkt' ! i = pkt ! i"
proof -
  note p = rewritten(2) [OF assms]
  show "length pkt' = length pkt" using assms(2,3) by (simp add: p)
  obtain a b where "be16 m = [a, b]" "get16 [a, b] = m" using be16_two by blast
  then show "get16 [pkt' ! (at + 2), pkt' ! (at + 3)] = m" using assms(2,3) by (simp add: p nth_put)
  show "pkt' ! i = pkt ! i" if "i < length pkt" "i \<notin> {at + 2, at + 3, l4 + 16, l4 + 17}"
  proof -
    have "\<not> (l4 + 16 \<le> i \<and> i < l4 + 16 + 2)" "\<not> (at + 2 \<le> i \<and> i < at + 2 + 2)" using that(2) by auto
    then show ?thesis using that(1) assms(2,3) by (simp add: p nth_put) blast
  qed
qed

lemma rewritten_sum:
  assumes "rewrite_mss l4 at m pkt = Ok (True, pkt')" and "l4 + 20 \<le> at" and "at + 4 \<le> length pkt" and "even l4" and "even at"
  shows "wsum (drop l4 pkt') mod 65535 = wsum (drop l4 pkt) mod 65535"
proof -
  define old where "old = get16 [pkt ! (at + 2), pkt ! (at + 3)]"
  define hc where "hc = get16 [pkt ! (l4 + 16), pkt ! (l4 + 17)]"
  define hc' where "hc' = NOT (ones_complement_add (NOT hc) (ones_complement_add (NOT old) m))"
  let ?d = "drop l4 pkt" and ?e = "put (at + 2 - l4) (be16 m) (drop l4 pkt)"
  have "wsum ?e + unat old = wsum ?d + unat m"
  proof -
    have e: "even (at + 2 - l4)" "at + 2 - l4 + 2 \<le> length ?d" using assms(2-5) by auto
    have "?d ! (at + 2 - l4) = pkt ! (at + 2)" "?d ! (at + 2 - l4 + 1) = pkt ! (at + 3)"
      using assms(2,3) by (simp_all add: numeral_3_eq_3)
    then show ?thesis using wsum_put [OF e, of m] unfolding old_def by simp
  qed
  moreover have "wsum (put 16 (be16 hc') ?e) + unat hc = wsum ?e + unat hc'"
  proof -
    have "?e ! 16 = pkt ! (l4 + 16)" "?e ! 17 = pkt ! (l4 + 17)" using assms(2,3) by (simp_all add: nth_put) linarith+
    then show ?thesis using wsum_put [of 16 ?e hc'] assms(2,3) by (simp add: hc_def)
  qed
  moreover have "drop l4 pkt' = put 16 (be16 hc') ?e"
    using rewritten(2) [OF assms(1-3)] assms(2,3) unfolding hc'_def hc_def old_def by (simp add: drop_put)
  ultimately have "wsum (drop l4 pkt') + (unat hc + unat old) = wsum ?d + (unat hc' + unat m)" by simp
  then have "(wsum (drop l4 pkt') + (unat hc + unat old)) mod 65535 = (wsum ?d + (unat hc + unat old)) mod 65535"
    using mod_add_cong [OF refl incremental_checksum [of hc old m], of "wsum ?d"] unfolding hc'_def [symmetric] by (simp only:)
  then show ?thesis by (rule mod_add_cancel)
qed

text \<open>C11: A clamped packet is a valid packet again. When the option is rewritten, its new value is the safe size, smaller than
  the old one; the length and every other byte outside the option's value and the TCP checksum stay; and if the option
  stands at an even offset, the ones' complement sum of the TCP segment with any pseudo header in front of it - what a
  receiver checks - is exactly what it was, so a correct checksum stays correct without the payload being summed.\<close>

theorem clamped_packet_valid:
  assumes "clamp_mss mtu pkt = Some (Ok (True, pkt'))"
  shows "\<exists>l4 at. l4_offset pkt = Ok (Some l4) \<and> l4 + 20 \<le> at \<and> at + 4 \<le> length pkt \<and> length pkt' = length pkt
    \<and> pkt ! at = 2 \<and> pkt ! (at + 1) = 4
    \<and> get16 [pkt' ! (at + 2), pkt' ! (at + 3)] = safe_mss mtu pkt \<and> safe_mss mtu pkt < get16 [pkt ! (at + 2), pkt ! (at + 3)]
    \<and> (\<forall>i < length pkt. i \<notin> {at + 2, at + 3, l4 + 16, l4 + 17} \<longrightarrow> pkt' ! i = pkt ! i)
    \<and> (even at \<longrightarrow> (\<forall>ps. even (length ps) \<and> length ps + length pkt \<le> 131072 \<longrightarrow>
          fold16 (sum16 (ps @ drop l4 pkt') 0) = fold16 (sum16 (ps @ drop l4 pkt) 0)))"
proof -
  obtain l4 at where l4: "l4_offset pkt = Ok (Some l4)" and at: "l4 + 20 \<le> at" "at + 4 \<le> length pkt" and o: "pkt ! at = 2" "pkt ! (at + 1) = 4"
    and pos: "0 < pkt ! (l4 + 12)" and r: "rewrite_mss l4 at (safe_mss mtu pkt) pkt = Ok (True, pkt')"
    using clamp_cases [of mtu pkt] assms by auto
  note b = rewritten_bytes [OF r at]
  have "even l4" using l4 by (auto simp: l4_offset_def Let_def split: if_splits)
  have same: "fold16 (sum16 (ps @ drop l4 pkt') 0) = fold16 (sum16 (ps @ drop l4 pkt) 0)"
    if "even at" "even (length ps)" "length ps + length pkt \<le> 131072" for ps
  proof (rule fold16_cong)
    have "pkt' ! (l4 + 12) = pkt ! (l4 + 12)" using at by (intro b(3)) auto
    then have nz: "list_ex (\<lambda>b. b \<noteq> 0) (drop l4 pkt)" "list_ex (\<lambda>b. b \<noteq> 0) (drop l4 pkt')"
      using pos at b(1) by (auto simp: list_ex_length intro!: exI [of _ 12])
    have s: "unat (sum16 (ps @ drop l4 p) 0) = wsum ps + wsum (drop l4 p)" if "length p = length pkt" for p
      using sum16_short [of "ps @ drop l4 p"] that \<open>length ps + length pkt \<le> 131072\<close> \<open>even (length ps)\<close> by (simp add: wsum_append)
    show "unat (sum16 (ps @ drop l4 pkt') 0) mod 65535 = unat (sum16 (ps @ drop l4 pkt) 0) mod 65535"
      using rewritten_sum [OF r at \<open>even l4\<close> that(1)] b(1) by (simp add: s) (metis mod_add_right_eq)
    show "0 < unat (sum16 (ps @ drop l4 pkt') 0)" "0 < unat (sum16 (ps @ drop l4 pkt) 0)"
      using wsum_pos [OF nz(1)] wsum_pos [OF nz(2)] b(1) by (simp_all add: s)
  qed
  show ?thesis using l4 at o b same rewritten(1) [OF r at] by (intro exI [of _ l4] exI [of _ at]) auto
qed

section \<open>Packet-too-big messages are valid packets\<close>

lemma checksum_valid:
  assumes "even off" and "off + 2 \<le> length xs" and "xs ! off = 0" and "xs ! (off + 1) = 0" and "length xs \<le> 131072"
    and "list_ex (\<lambda>b. b \<noteq> 0) xs"
  shows "fold16 (sum16 (put off (be16 (checksum16 xs)) xs) 0) = 0xffff"
proof -
  let ?y = "put off (be16 (checksum16 xs)) xs" and ?f = "unat (fold16 (sum16 xs 0))"
  have s: "0 < wsum xs" "unat (sum16 xs 0) = wsum xs" using wsum_pos [OF assms(6)] sum16_short [OF assms(5)] by simp_all
  have f: "?f \<le> 65535" by (rule fold16_mod)
  have "checksum16 xs = NOT (ucast (fold16 (sum16 xs 0)))" unfolding checksum16_def by (rule bit_eqI) (auto simp: bit_simps)
  moreover have "unat (ucast (fold16 (sum16 xs 0)) :: u16) = ?f" using f by (simp add: unsigned_ucast_eq take_bit_nat_eq_self)
  ultimately have ck: "unat (checksum16 xs) = 65535 - ?f" by (simp add: unat_not16)
  have z: "get16 [0, 0] = 0" by (simp add: get16_def of_be_def)
  have y: "wsum ?y = wsum xs + (65535 - ?f)" using wsum_put [OF assms(1,2), of "checksum16 xs"] assms(3,4) ck z by simp
  have "(wsum ?y + ?f) mod 65535 = (0 + ?f) mod 65535"
    using fold16_mod(1) [of "sum16 xs 0"] f s(2) by (simp add: y)
  then have m: "wsum ?y mod 65535 = 0" using mod_add_cancel [of "wsum ?y" ?f 65535 0] by simp
  then obtain q where q: "wsum ?y = 65535 * q" by (auto simp: mod_eq_0_iff_dvd)
  then have "0 < q" using y s(1) by (cases q) auto
  then have "wsum ?y - 1 = 65534 + 65535 * (q - 1)" using q by (simp add: algebra_simps)
  moreover have "unat (sum16 ?y 0) = wsum ?y" using assms(2,5) by (intro sum16_short) simp
  ultimately have "unat (fold16 (sum16 ?y 0)) = 65535" using \<open>0 < q\<close> q by (simp add: fold16_eq)
  then show ?thesis by (simp add: word_unat_eq_iff)
qed

lemma put_append_left: "off + length bs \<le> length xs \<Longrightarrow> put off bs (xs @ ys) = put off bs xs @ ys"
  by (simp add: put_def)

lemma put_append_right: "length xs \<le> off \<Longrightarrow> put off bs (xs @ ys) = xs @ put (off - length xs) bs ys"
  by (simp add: put_def)

lemma put_cons: "put 0 [] xs = xs" "put 0 (b # bs) (x # xs) = b # put 0 bs xs" "put (Suc n) bs (x # xs) = x # put n bs xs"
  "put 1 bs (x # xs) = x # put 0 bs xs" "put (numeral k) bs (x # xs) = x # put (pred_numeral k) bs xs"
  by (simp_all add: put_def numeral_eq_Suc)

lemma zeros: "replicate 8 (0 :: byte) = [0, 0, 0, 0, 0, 0, 0, 0]" "replicate 20 (0 :: byte) = replicate 8 0 @ replicate 8 0 @ [0, 0, 0, 0]"
  "replicate 40 (0 :: byte) = replicate 8 0 @ replicate 16 0 @ replicate 16 0"
  by (simp_all add: numeral_eq_Suc)

definition ptb4_ip :: "nat \<Rightarrow> byte list \<Rightarrow> byte list \<Rightarrow> byte list" where
  "ptb4_ip len src dst = [0x45, 0] @ be16 (word_of_nat len) @ be16 0x5211 @ [0, 0, 64, 1, 0, 0] @ src @ dst"

definition ptb4_icmp :: "u16 \<Rightarrow> byte list \<Rightarrow> byte list" where
  "ptb4_icmp mtu quote = [3, 4, 0, 0, 0, 0] @ be16 mtu @ quote"

lemma list_of_4: "length xs = 4 \<Longrightarrow> \<exists>a b c d. xs = [a, b, c, d]"
  by (auto simp: length_Suc_conv numeral_eq_Suc)

lemma ptb4_ip_form:
  assumes "length src = 4" and "length dst = 4"
  shows "put 16 dst (put 12 src (put 9 [1] (put 8 [64] (put 4 (be16 0x5211) (put 2 (be16 (word_of_nat n)) (put 0 [0x45] (replicate 20 0)))))))
    = ptb4_ip n src dst"
proof -
  obtain a b c d where src: "src = [a, b, c, d]" using list_of_4 [OF assms(1)] by blast
  obtain e f g h where dst: "dst = [e, f, g, h]" using list_of_4 [OF assms(2)] by blast
  obtain t u where t: "be16 (word_of_nat n) = [t, u]" using be16_two by blast
  obtain x y where x: "be16 0x5211 = [x, y]" using be16_two by blast
  show ?thesis by (simp add: src dst t x put_cons zeros ptb4_ip_def)
qed

lemma ptb4_icmp_form:
  assumes "length quote = n"
  shows "put 6 (be16 mtu) (put (Suc 0) [4] (put 0 [3] (replicate 8 0))) @ put 0 quote (replicate n 0) = ptb4_icmp mtu quote"
proof -
  obtain t u where t: "be16 mtu = [t, u]" using be16_two by blast
  have "put 0 quote (replicate n 0) = quote" using assms by (simp add: put_def)
  then show ?thesis by (simp add: t put_cons zeros ptb4_icmp_def)
qed

lemma ptb_v4_form:
  assumes "length src = 4" and "length dst = 4" and "v4_dst inner = Some src" and "v4_src inner = Some dst"
    and "n = min (unat (inner ! 0 AND 0x0f) * 4 + 8) (length inner)"
  shows "build_ptb_v4 inner mtu =
    (let ip = ptb4_ip (28 + n) src dst; icmp = ptb4_icmp mtu (take n inner)
     in Some (put 10 (be16 (checksum16 ip)) ip @ put 2 (be16 (checksum16 icmp)) icmp))"
proof -
  have z: "replicate (20 + 8 + n) 0 = replicate 20 0 @ replicate 8 0 @ replicate n (0 :: byte)" by (simp only: replicate_add append_assoc)
  have l: "length (ptb4_ip (28 + n) src dst) = 20" "length (take n inner) = n" "8 \<le> length (ptb4_icmp mtu (take n inner))"
    using assms(1,2,5) by (simp_all add: ptb4_ip_def ptb4_icmp_def)
  let ?ip = "ptb4_ip (28 + n) src dst" and ?icmp = "ptb4_icmp mtu (take n inner)"
  have "put (20 + 8) (take n inner) (put (20 + 6) (be16 mtu) (put 21 [4] (put 20 [3] (put 16 dst (put 12 src (put 9 [1] (put 8 [64]
     (put 4 (be16 0x5211) (put 2 (be16 (word_of_nat (20 + 8 + n))) (put 0 [0x45] (replicate (20 + 8 + n) 0))))))))))) = ?ip @ ?icmp"
    unfolding z using assms(1,2) l(2)
    by (simp add: put_append_left put_append_right ptb4_icmp_form l(1) ptb4_ip_form [OF assms(1,2), of "28 + n", simplified])
  note p = this
  show ?thesis
    unfolding build_ptb_v4_def assms(3,4) Let_def option.case prod.case assms(5) [symmetric] p
    using l(1,3) by (simp add: put_append_left put_append_right)
qed

definition ptb6_ip :: "nat \<Rightarrow> byte list \<Rightarrow> byte list \<Rightarrow> byte list" where
  "ptb6_ip len src dst = [0x60, 0, 0, 0] @ be16 (word_of_nat len) @ [58, 255] @ src @ dst"

definition ptb6_icmp :: "u16 \<Rightarrow> byte list \<Rightarrow> byte list" where
  "ptb6_icmp mtu quote = [2, 0, 0, 0] @ be32 (ucast mtu) @ quote"

lemma put_all: "length bs = length xs \<Longrightarrow> put 0 bs xs = bs"
  by (simp add: put_def)

lemma ptb6_ip_form:
  assumes "length src = 16" and "length dst = 16"
  shows "put 24 dst (put 8 src (put 7 [255] (put 6 [58] (put 4 (be16 (word_of_nat n)) (put 0 [0x60] (replicate 40 0)))))) = ptb6_ip n src dst"
proof -
  obtain t u where t: "be16 (word_of_nat n) = [t, u]" using be16_two by blast
  define h where "h = [0x60, 0, 0, 0] @ be16 (word_of_nat n) @ [58, 255]"
  have "put 7 [255] (put 6 [58] (put 4 (be16 (word_of_nat n)) (put 0 [0x60] (replicate 8 0)))) = h"
    by (simp add: t put_cons zeros(1) h_def)
  moreover have "length h = 8" "ptb6_ip n src dst = h @ src @ dst" by (simp_all add: h_def ptb6_ip_def)
  ultimately show ?thesis using assms by (simp add: zeros(3) put_append_left put_append_right put_all)
qed

lemma ptb6_icmp_form:
  assumes "length quote = n"
  shows "put 4 (be32 (ucast mtu)) (put 0 [2] (replicate 8 0)) @ put 0 quote (replicate n 0) = ptb6_icmp mtu quote"
proof -
  obtain a b c d where t: "be32 (ucast mtu) = [a, b, c, d]" using list_of_4 [of "be32 (ucast mtu)"] by auto
  show ?thesis using assms by (simp add: t put_cons zeros put_all ptb6_icmp_def)
qed

lemma ptb_v6_form:
  assumes "length src = 16" and "length dst = 16" and "v6_dst inner = Some src" and "v6_src inner = Some dst"
    and "n = min (length inner) (1280 - 40 - 8)"
  shows "build_ptb_v6 inner mtu =
    (let ip = ptb6_ip (8 + n) src dst; icmp = ptb6_icmp mtu (take n inner)
     in Some (ip @ put 2 (be16 (icmpv6_checksum ip icmp)) icmp))"
proof -
  have z: "replicate (40 + (8 + n)) 0 = replicate 40 0 @ replicate 8 0 @ replicate n (0 :: byte)" by (simp only: replicate_add append_assoc)
  have l: "length (ptb6_ip (8 + n) src dst) = 40" "length (take n inner) = n" "8 \<le> length (ptb6_icmp mtu (take n inner))"
    using assms(1,2,5) by (simp_all add: ptb6_ip_def ptb6_icmp_def)
  have p: "put 48 (take n inner) (put 44 (be32 (ucast mtu)) (put 40 [2] (put 24 dst (put 8 src (put 7 [255] (put 6 [58]
     (put 4 (be16 (word_of_nat (8 + n))) (put 0 [0x60] (replicate (40 + (8 + n)) 0))))))))) = ptb6_ip (8 + n) src dst @ ptb6_icmp mtu (take n inner)"
    unfolding z using assms(1,2) l(2)
    by (simp add: put_append_left put_append_right ptb6_icmp_form l(1) ptb6_ip_form [OF assms(1,2), of "8 + n", simplified])
  show ?thesis
    unfolding build_ptb_v6_def assms(3,4) Let_def option.case prod.case assms(5) [symmetric] p
    using l(1,3) by (simp add: put_append_left put_append_right)
qed

lemma unat_small16: "m < 65536 \<Longrightarrow> unat (word_of_nat m :: u16) = m"
  by (simp add: unsigned_of_nat take_bit_nat_eq_self)

lemma ptb_v4_valid:
  fixes inner src dst :: "byte list" and mtu :: u16 and n :: nat
  assumes "length src = 4" and "length dst = 4" and "n \<le> 68"
  defines "ip \<equiv> ptb4_ip (28 + n) src dst" and "icmp \<equiv> ptb4_icmp mtu (take n inner)"
  defines "p \<equiv> put 10 (be16 (checksum16 ip)) ip @ put 2 (be16 (checksum16 icmp)) icmp"
  assumes "n \<le> length inner"
  shows "parse_packet p = Inr \<lparr>pi_src = V4 src, pi_dst = V4 dst, pi_proto = Icmp, pi_total_len = length p\<rparr>"
    "drop 28 p = take n inner" "fold16 (sum16 (take 20 p) 0) = 0xffff" "fold16 (sum16 (drop 20 p) 0) = 0xffff"
proof -
  obtain a b c d where src: "src = [a, b, c, d]" using list_of_4 [OF assms(1)] by blast
  obtain e f g h where dst: "dst = [e, f, g, h]" using list_of_4 [OF assms(2)] by blast
  obtain t u where t: "be16 (word_of_nat (28 + n)) = [t, u]" "get16 [t, u] = word_of_nat (28 + n)" using be16_two by blast
  obtain x y where x: "be16 0x5211 = [x, y]" using be16_two by blast
  obtain v w where v: "be16 mtu = [v, w]" using be16_two by blast
  have ip: "ip = [0x45, 0, t, u, x, y, 0, 0, 64, 1, 0, 0, a, b, c, d, e, f, g, h]" unfolding ip_def ptb4_ip_def t(1) x src dst by simp
  have icmp: "icmp = [3, 4, 0, 0, 0, 0, v, w] @ take n inner" unfolding icmp_def ptb4_icmp_def v by simp
  obtain k l where k: "be16 (checksum16 ip) = [k, l]" using be16_two by blast
  obtain q r where q: "be16 (checksum16 icmp) = [q, r]" using be16_two by blast
  have p: "p = [0x45, 0, t, u, x, y, 0, 0, 64, 1, k, l, a, b, c, d, e, f, g, h] @ [3, 4, q, r, 0, 0, v, w] @ take n inner"
    unfolding p_def k q unfolding ip icmp by (simp add: put_cons)
  have "unat (get16 [t, u]) = 28 + n" unfolding t(2) using assms(3) by (intro unat_small16) simp
  then show "parse_packet p = Inr \<lparr>pi_src = V4 src, pi_dst = V4 dst, pi_proto = Icmp, pi_total_len = length p\<rparr>"
    using assms(7) by (simp add: p src dst parse_packet_def parse_v4_def slice_def proto_from_u8_def)
  show "drop 28 p = take n inner" by (simp add: p)
  have "fold16 (sum16 (put 10 (be16 (checksum16 ip)) ip) 0) = 0xffff" by (rule checksum_valid) (simp_all add: ip)
  then show "fold16 (sum16 (take 20 p) 0) = 0xffff" unfolding k unfolding ip p by (simp add: put_cons)
  have "fold16 (sum16 (put 2 (be16 (checksum16 icmp)) icmp) 0) = 0xffff" using assms(3) by (intro checksum_valid) (simp_all add: icmp)
  then show "fold16 (sum16 (drop 20 p) 0) = 0xffff" unfolding q unfolding icmp p by (simp add: put_cons)
qed

lemma ptb_v6_valid:
  fixes inner src dst :: "byte list" and mtu :: u16 and n :: nat
  assumes "length src = 16" and "length dst = 16" and "n \<le> 1232"
  defines "ip \<equiv> ptb6_ip (8 + n) src dst" and "icmp \<equiv> ptb6_icmp mtu (take n inner)"
  defines "p \<equiv> ip @ put 2 (be16 (icmpv6_checksum ip icmp)) icmp"
  assumes "n \<le> length inner"
  shows "parse_packet p = Inr \<lparr>pi_src = V6 src, pi_dst = V6 dst, pi_proto = Icmpv6, pi_total_len = length p\<rparr>"
    "drop 48 p = take n inner" "length p \<le> 1280"
    "fold16 (sum16 (slice 8 40 p @ be32 (word_of_nat (length p - 40)) @ [0, 0, 0, 58] @ drop 40 p) 0) = 0xffff"
proof -
  obtain t u where t: "be16 (word_of_nat (8 + n)) = [t, u]" "get16 [t, u] = word_of_nat (8 + n)" using be16_two by blast
  obtain a b c d where m: "be32 (ucast mtu) = [a, b, c, d]" using list_of_4 [of "be32 (ucast mtu)"] by auto
  have ip: "ip = [0x60, 0, 0, 0, t, u, 58, 255] @ src @ dst" unfolding ip_def ptb6_ip_def t(1) by simp
  have icmp: "icmp = [2, 0, 0, 0, a, b, c, d] @ take n inner" unfolding icmp_def ptb6_icmp_def m by simp
  obtain q r where q: "be16 (icmpv6_checksum ip icmp) = [q, r]" using be16_two by blast
  have i: "put 2 (be16 (icmpv6_checksum ip icmp)) icmp = [2, 0, q, r, a, b, c, d] @ take n inner" unfolding q unfolding icmp by (simp add: put_cons)
  have p: "p = [0x60, 0, 0, 0, t, u, 58, 255] @ src @ dst @ [2, 0, q, r, a, b, c, d] @ take n inner"
    unfolding p_def i unfolding ip by simp
  have len: "length p = 48 + n" "length icmp = 8 + n" using assms(1,2,7) by (simp_all add: p icmp)
  have "unat (get16 [t, u]) = 8 + n" unfolding t(2) using assms(3) by (intro unat_small16) simp
  then show "parse_packet p = Inr \<lparr>pi_src = V6 src, pi_dst = V6 dst, pi_proto = Icmpv6, pi_total_len = length p\<rparr>"
    using assms(1,2,7) by (simp add: p parse_packet_def parse_v6_def slice_def proto_from_u8_def)
  show "drop 48 p = take n inner" "length p \<le> 1280" using assms(1-3) len by (simp_all add: p)
  let ?h = "src @ dst @ be32 (word_of_nat (length icmp)) @ [0, 0, 0, 58]"
  have w: "icmpv6_checksum ip icmp = checksum16 (?h @ icmp)" using assms(1,2) by (simp add: icmpv6_checksum_def ip slice_def)
  have lh: "length ?h = 40" using assms(1,2) by simp
  have "fold16 (sum16 (put 42 (be16 (checksum16 (?h @ icmp))) (?h @ icmp)) 0) = 0xffff"
  proof (rule checksum_valid)
    show "(?h @ icmp) ! 42 = 0" "(?h @ icmp) ! (42 + 1) = 0" using lh by (simp_all only: nth_append) (simp_all add: icmp)
    show "length (?h @ icmp) \<le> 131072" "42 + 2 \<le> length (?h @ icmp)" using assms(3) len(2) lh by simp_all
  qed (simp_all add: icmp)
  moreover have "put 42 (be16 (checksum16 (?h @ icmp))) (?h @ icmp) = ?h @ put 2 (be16 (icmpv6_checksum ip icmp)) icmp"
    unfolding w using put_append_right [of ?h 42] lh by simp
  moreover have "slice 8 40 p @ be32 (word_of_nat (length p - 40)) @ [0, 0, 0, 58] @ drop 40 p = ?h @ put 2 (be16 (icmpv6_checksum ip icmp)) icmp"
    unfolding i len using assms(1,2) by (simp add: p slice_def)
  ultimately show "fold16 (sum16 (slice 8 40 p @ be32 (word_of_nat (length p - 40)) @ [0, 0, 0, 58] @ drop 40 p) 0) = 0xffff" by metis
qed

lemma build_ptb_short: "length inner < 20 \<Longrightarrow> build_ptb_v4 inner mtu = None" "length inner < 40 \<Longrightarrow> build_ptb_v6 inner mtu = None"
  by (simp_all add: build_ptb_v4_def build_ptb_v6_def v4_dst_def v6_dst_def get_range_def)

text \<open>C31: Every packet-too-big message is a well-formed packet. It is parsed as an ICMP or ICMPv6 packet of its own length from
  the destination of the packet it answers to its source, quotes a prefix of that packet, and every checksum in it is
  correct: the sums a receiver checks - header and message, or message with pseudo header - are all ones.\<close>

theorem ptb_well_formed:
  assumes "build_ptb inner mtu = Some p"
  shows "\<exists>src dst. endpoints inner = Some (src, dst) \<and>
    parse_packet p = Inr \<lparr>pi_src = dst, pi_dst = src, pi_proto = (if is_ipv4 src then Icmp else Icmpv6), pi_total_len = length p\<rparr>
    \<and> (if is_ipv4 src
       then (\<exists>n. drop 28 p = take n inner) \<and> fold16 (sum16 (take 20 p) 0) = 0xffff \<and> fold16 (sum16 (drop 20 p) 0) = 0xffff
       else (\<exists>n. drop 48 p = take n inner) \<and> length p \<le> 1280
         \<and> fold16 (sum16 (slice 8 40 p @ be32 (word_of_nat (length p - 40)) @ [0, 0, 0, 58] @ drop 40 p) 0) = 0xffff)"
proof (cases "drop_bit 4 (inner ! 0) = 4")
  case True
  define n where "n = min (unat (inner ! 0 AND 0x0f) * 4 + 8) (length inner)"
  have b: "build_ptb_v4 inner mtu = Some p" "0 < length inner" using assms True by (auto simp: build_ptb_def get_at_def split: if_splits)
  then have l: "20 \<le> length inner" using build_ptb_short(1) [of inner mtu] by (metis linorder_not_less option.distinct(1))
  let ?src = "slice 16 20 inner" and ?dst = "slice 12 16 inner"
  have s: "length ?src = 4" "length ?dst = 4" "v4_dst inner = Some ?src" "v4_src inner = Some ?dst"
    using l by (simp_all add: v4_src_def v4_dst_def slice_def)
  have "unat (inner ! 0 AND 0x0f) \<le> 15" using word_and_le1 [of "inner ! 0" "0x0f"] by (simp add: word_le_nat_alt)
  then have n: "n \<le> 68" "n \<le> length inner" by (simp_all add: n_def min_le_iff_disj)
  have e: "endpoints inner = Some (V4 ?dst, V4 ?src)" using True b(2) s(3,4) by (simp add: endpoints_def get_at_def)
  show ?thesis using e b(1) ptb_v4_valid [OF s(1,2) n(1) n(2), of mtu] unfolding ptb_v4_form [OF s n_def] Let_def option.inject by auto
next
  case False
  define n where "n = min (length inner) (1280 - 40 - 8)"
  have b: "build_ptb_v6 inner mtu = Some p" "0 < length inner" "drop_bit 4 (inner ! 0) = 6"
    using assms False by (auto simp: build_ptb_def get_at_def split: if_splits)
  then have l: "40 \<le> length inner" using build_ptb_short(2) [of inner mtu] by (metis linorder_not_less option.distinct(1))
  let ?src = "slice 24 40 inner" and ?dst = "slice 8 24 inner"
  have s: "length ?src = 16" "length ?dst = 16" "v6_dst inner = Some ?src" "v6_src inner = Some ?dst"
    using l by (simp_all add: v6_src_def v6_dst_def get_range_def slice_def)
  have n: "n \<le> 1232" "n \<le> length inner" by (simp_all add: n_def)
  have e: "endpoints inner = Some (V6 ?dst, V6 ?src)" using False b(2,3) s(3,4) by (simp add: endpoints_def get_at_def)
  show ?thesis using e b(1) ptb_v6_valid [OF s(1,2) n(1) n(2), of mtu] unfolding ptb_v6_form [OF s n_def] Let_def option.inject by auto
qed

section \<open>Examples\<close>

definition ex_syn :: "byte list" where
  "ex_syn = [69, 0, 0, 44, 0, 0, 0, 0, 64, 6, 0, 0, 10, 0, 0, 1, 10, 0, 0, 2, 16, 0, 0, 80, 0, 0, 0, 1, 0, 0, 0, 0, 96, 2, 255, 255, 115, 211, 0, 0, 2, 4, 5, 180]"

lemma ex_syn_clamped: "\<exists>pkt. clamp_mss 1394 ex_syn = Some (Ok (True, pkt))"
  by (simp add: clamp_mss_def ex_syn_def l4_offset_def is_tcp_syn_def l3_proto_def mss_scan.simps rewrite_mss_def sat_sub16_def get16_def of_be_def Let_def)

theorem clamped_packet_valid_witness:
  "\<exists>pkt. clamp_mss 1394 ex_syn = Some (Ok (True, pkt)) \<and> length pkt = length ex_syn"
  using ex_syn_clamped clamped_packet_valid [of 1394 ex_syn] by blast

lemma ex_syn_ptb: "\<exists>p. build_ptb ex_syn 1394 = Some p"
proof -
  have "length (slice 16 20 ex_syn) = 4" "length (slice 12 16 ex_syn) = 4" "v4_dst ex_syn = Some (slice 16 20 ex_syn)"
    "v4_src ex_syn = Some (slice 12 16 ex_syn)" by (simp_all add: ex_syn_def v4_src_def v4_dst_def slice_def)
  from ptb_v4_form [OF this refl, of 1394] have "\<exists>p. build_ptb_v4 ex_syn 1394 = Some p" unfolding Let_def by blast
  then show ?thesis by (simp add: build_ptb_def get_at_def ex_syn_def)
qed

theorem ptb_well_formed_witness:
  "\<exists>p info. build_ptb ex_syn 1394 = Some p \<and> parse_packet p = Inr info"
  using ex_syn_ptb ptb_well_formed [of ex_syn 1394] by blast

text \<open>An option behind a single no-operation byte stands at an odd offset, where its value is not a word of the sum. The
  segment is valid before the rewriting and invalid after it.\<close>

definition odd_syn :: "byte list" where
  "odd_syn = [69, 0, 0, 48, 0, 0, 0, 0, 64, 6, 0, 0, 10, 0, 0, 1, 10, 0, 0, 2, 16, 0, 0, 80, 0, 0, 0, 1, 0, 0, 0, 0, 112, 2, 255, 255, 177, 126, 0, 0, 1, 2, 4, 5, 180, 1, 1, 0]"

definition odd_pseudo :: "byte list" where
  "odd_pseudo = [10, 0, 0, 1, 10, 0, 0, 2, 0, 6, 0, 28]"

definition odd_clamped :: "byte list" where
  "odd_clamped = [69, 0, 0, 48, 0, 0, 0, 0, 64, 6, 0, 0, 10, 0, 0, 1, 10, 0, 0, 2, 16, 0, 0, 80, 0, 0, 0, 1, 0, 0, 0, 0, 112, 2, 255, 255, 177, 232, 0, 0, 1, 2, 4, 5, 74, 1, 1, 0]"

lemma odd_scan: "mss_scan odd_syn 48 40 None = Some (Some 41)"
  by (simp add: mss_scan.simps [of _ _ 40] mss_scan.simps [of _ _ 41] mss_scan.simps [of _ _ 45] mss_scan.simps [of _ _ 46]
      mss_scan.simps [of _ _ 47] odd_syn_def)

lemma odd_incremental: "NOT (ones_complement_add (NOT 45438) (ones_complement_add (NOT 1460) 1354)) = 45544"
  by (simp add: ones_complement_add_def fold16.simps [of 19991] fold16.simps [of 65429] fold16.simps [of 85526])

lemma odd_clamp: "clamp_mss 1394 odd_syn = Some (Ok (True, odd_clamped))"
proof -
  have "rewrite_mss 20 41 1354 odd_syn = Ok (True, odd_clamped)"
    using odd_incremental by (simp add: rewrite_mss_def odd_syn_def odd_clamped_def Let_def get16_def of_be_def be16_def to_be_def to_le_numeral put_cons)
  then show ?thesis
    using odd_scan by (simp add: clamp_mss_def odd_syn_def l4_offset_def is_tcp_syn_def l3_proto_def sat_sub16_def)
qed

theorem odd_option_breaks_checksum:
  "clamp_mss 1394 odd_syn = Some (Ok (True, odd_clamped)) \<and> fold16 (sum16 (odd_pseudo @ drop 20 odd_syn) 0) = 0xffff
    \<and> fold16 (sum16 (odd_pseudo @ drop 20 odd_clamped) 0) \<noteq> 0xffff"
proof -
  have s: "sum16 (odd_pseudo @ drop 20 odd_syn) 0 = 196605" "sum16 (odd_pseudo @ drop 20 odd_clamped) 0 = 169575"
    by (simp_all add: odd_pseudo_def odd_syn_def odd_clamped_def get16_def of_be_def)
  show ?thesis unfolding s using odd_clamp by (simp add: fold16.simps [of 38505] fold16.simps [of 65535] fold16.simps [of 169575] fold16.simps [of 196605])
qed

text \<open>The check for a SYN reads the first byte of an empty packet; and the length of an inner packet is cut to sixteen bits
  before it is compared with the room that is left.\<close>

theorem empty_packet_panics: "is_tcp_syn [] = Panic"
  by (simp add: is_tcp_syn_def l4_offset_def)

theorem huge_packet_fits: "mesh_frame_fits 65536 False 1500"
  by (simp add: mesh_frame_fits_def sat_add16_def)

end
